(* ===== verification/Prelude.thy ===== *)
theory Prelude
  imports Main "HOL-Library.Word" "HOL-Library.List_Lexorder" "HOL-Library.Multiset"
begin

text \<open>
  The vocabulary shared by all components of the development: byte strings, the
  error values of \<^verbatim>\<open>src/src/error.rs\<close>, the \<^verbatim>\<open>Result\<close> combinators, \<^verbatim>\<open>Ordering\<close>,
  the parts of the Rust standard library the sources rely on (checked and
  saturating integer arithmetic, little-endian integer bytes, \<^verbatim>\<open>slice::partition_point\<close>,
  \<^verbatim>\<open>BTreeMap\<close> as a strictly sorted association list), and generic lemmas about
  them. Byte strings are ordered lexicographically (a proper prefix is smaller), which
  is the \<^verbatim>\<open>Ord\<close> instance of \<^verbatim>\<open>[u8]\<close>; the order is that of
  HOL-Library.List\_Lexorder.
\<close>

named_theorems result_simps "evaluation of result-valued code"
named_theorems order_simps "comparison functions as order relations"

section \<open>Bytes, sequences and errors\<close>

type_synonym byte = "8 word"
type_synonym bytes = "8 word list"
type_synonym u16 = "16 word"
type_synonym u32 = "32 word"
type_synonym u64 = "64 word"
type_synonym usize = nat

text \<open>The variants of \<^verbatim>\<open>Error\<close> that the modelled code raises. A message keeps the literal
  text of the source; values that the source interpolates into it are left out. \<open>Panicked\<close> is a panic
  of the program or of a library call it makes.\<close>

datatype error =
    Corruption string
  | InvalidFormat string
  | UnsupportedFormat string
  | InvalidOptions string
  | ConflictError string
  | RuntimeBusy string
  | BucketStale string
  | ReadVersionTooNew u64 u64
  | ReadVersionExpired u64 u64
  | SnapshotDatabaseMismatch
  | ClosedError
  | ReadOnlyError
  | IoError string
  | Panicked string

type_synonym 'a result = "error + 'a"

abbreviation Ok :: "'a \<Rightarrow> 'a result" where
  "Ok \<equiv> Inr"

abbreviation Err :: "error \<Rightarrow> 'a result" where
  "Err \<equiv> Inl"

definition and_then :: "'e + 'a \<Rightarrow> ('a \<Rightarrow> 'e + 'b) \<Rightarrow> 'e + 'b" where
  "and_then r f = (case r of Inl e \<Rightarrow> Inl e | Inr x \<Rightarrow> f x)"

definition is_ok :: "'e + 'a \<Rightarrow> bool" where
  "is_ok r = (case r of Inl _ \<Rightarrow> False | Inr _ \<Rightarrow> True)"

definition ok_or :: "error \<Rightarrow> 'a option \<Rightarrow> 'a result" where
  "ok_or e x = (case x of None \<Rightarrow> Err e | Some y \<Rightarrow> Ok y)"

text \<open>An early \<^verbatim>\<open>return Err(e)\<close> guarded by a condition.\<close>
definition ensure :: "bool \<Rightarrow> error \<Rightarrow> unit result" where
  "ensure b e = (if b then Ok () else Err e)"

fun map_result :: "('a \<Rightarrow> 'b result) \<Rightarrow> 'a list \<Rightarrow> 'b list result" where
  "map_result f [] = Ok []"
| "map_result f (x # xs) =
     and_then (f x) (\<lambda>y. and_then (map_result f xs) (\<lambda>ys. Ok (y # ys)))"

fun fold_result :: "('a \<Rightarrow> 's \<Rightarrow> 's result) \<Rightarrow> 'a list \<Rightarrow> 's \<Rightarrow> 's result" where
  "fold_result f [] s = Ok s"
| "fold_result f (x # xs) s = and_then (f x s) (fold_result f xs)"

section \<open>Comparison\<close>

datatype ordering = Less | Equal | Greater

definition cmp :: "'a::linorder \<Rightarrow> 'a \<Rightarrow> ordering" where
  "cmp a b = (if a < b then Less else if a = b then Equal else Greater)"

definition then_with :: "ordering \<Rightarrow> ordering \<Rightarrow> ordering" where
  "then_with a b = (case a of Equal \<Rightarrow> b | _ \<Rightarrow> a)"

section \<open>Integers\<close>

definition u64_max :: u64 where "u64_max = - 1"
definition u32_max :: u32 where "u32_max = - 1"
definition usize_max :: usize where "usize_max = 2 ^ 64 - 1"

definition checked_add_word :: "'a::len word \<Rightarrow> 'a word \<Rightarrow> 'a word option" where
  "checked_add_word a b = (if unat a + unat b < 2 ^ LENGTH('a) then Some (a + b) else None)"

definition checked_add_usize :: "usize \<Rightarrow> usize \<Rightarrow> usize option" where
  "checked_add_usize a b = (if a + b \<le> usize_max then Some (a + b) else None)"

definition saturating_add_usize :: "usize \<Rightarrow> usize \<Rightarrow> usize" where
  "saturating_add_usize a b = min (a + b) usize_max"

definition saturating_add_word :: "'a::len word \<Rightarrow> 'a word \<Rightarrow> 'a word" where
  "saturating_add_word a b = (if unat a + unat b < 2 ^ LENGTH('a) then a + b else - 1)"

text \<open>\<^verbatim>\<open>u64::try_from(n).unwrap_or(u64::MAX)\<close>, repeated in many modules.\<close>
definition usize_to_u64_saturating :: "usize \<Rightarrow> u64" where
  "usize_to_u64_saturating n = (if n < 2 ^ 64 then word_of_nat n else u64_max)"

text \<open>\<^verbatim>\<open>to_le_bytes\<close> and \<^verbatim>\<open>from_le_bytes\<close>, on the value of the integer.\<close>

fun le_bytes :: "nat \<Rightarrow> nat \<Rightarrow> bytes" where
  "le_bytes 0 n = []"
| "le_bytes (Suc k) n = word_of_nat (n mod 256) # le_bytes k (n div 256)"

fun le_value :: "bytes \<Rightarrow> nat" where
  "le_value [] = 0"
| "le_value (b # bs) = unat b + 256 * le_value bs"

section \<open>Slices and ordered maps\<close>

text \<open>\<^verbatim>\<open>slice::get(start..end)\<close>.\<close>

definition slice_get :: "'a list \<Rightarrow> usize \<Rightarrow> usize \<Rightarrow> 'a list option" where
  "slice_get xs start stop =
     (if start \<le> stop \<and> stop \<le> length xs then Some (take (stop - start) (drop start xs)) else None)"

text \<open>\<^verbatim>\<open>slice::partition_point\<close>: the index of the first element that fails the predicate.
  The library specifies it for slices partitioned by the predicate only; every use in the
  sources is on such a slice, see \<^verbatim>\<open>partition_point_partitioned\<close>.\<close>

definition partition_point :: "('a \<Rightarrow> bool) \<Rightarrow> 'a list \<Rightarrow> usize" where
  "partition_point P xs = length (takeWhile P xs)"

definition partitioned :: "('a \<Rightarrow> bool) \<Rightarrow> 'a list \<Rightarrow> bool" where
  "partitioned P xs = (takeWhile P xs = filter P xs)"

text \<open>\<^verbatim>\<open>slice::sort_by\<close>, a stable sort with a comparison function.\<close>

fun insert_by :: "('a \<Rightarrow> 'a \<Rightarrow> ordering) \<Rightarrow> 'a \<Rightarrow> 'a list \<Rightarrow> 'a list" where
  "insert_by c x [] = [x]"
| "insert_by c x (y # ys) = (if c x y = Greater then y # insert_by c x ys else x # y # ys)"

definition sort_by :: "('a \<Rightarrow> 'a \<Rightarrow> ordering) \<Rightarrow> 'a list \<Rightarrow> 'a list" where
  "sort_by c xs = foldr (insert_by c) xs []"

definition sorted_by :: "('a \<Rightarrow> 'a \<Rightarrow> ordering) \<Rightarrow> 'a list \<Rightarrow> bool" where
  "sorted_by c xs = sorted_wrt (\<lambda>a b. c a b \<noteq> Greater) xs"

text \<open>The requirement \<^verbatim>\<open>sort_by\<close> places on its comparison function: a total preorder.\<close>
definition total_preorder :: "('a \<Rightarrow> 'a \<Rightarrow> ordering) \<Rightarrow> bool" where
  "total_preorder c \<longleftrightarrow>
     (\<forall>a b. c a b = Greater \<longleftrightarrow> c b a = Less) \<and>
     (\<forall>a b d. c a b \<noteq> Greater \<longrightarrow> c b d \<noteq> Greater \<longrightarrow> c a d \<noteq> Greater)"

text \<open>\<^verbatim>\<open>BTreeMap\<close> as the association list its iteration produces, in ascending key order.\<close>

fun btree_insert :: "'k::linorder \<Rightarrow> 'v \<Rightarrow> ('k \<times> 'v) list \<Rightarrow> ('k \<times> 'v) list" where
  "btree_insert k v [] = [(k, v)]"
| "btree_insert k v ((k', v') # m) =
     (if k < k' then (k, v) # (k', v') # m
      else if k = k' then (k, v) # m
      else (k', v') # btree_insert k v m)"

definition btree_remove :: "'k \<Rightarrow> ('k \<times> 'v) list \<Rightarrow> ('k \<times> 'v) list" where
  "btree_remove k m = filter (\<lambda>e. fst e \<noteq> k) m"

definition btree_ok :: "('k::linorder \<times> 'v) list \<Rightarrow> bool" where
  "btree_ok m = sorted_wrt (<) (map fst m)"

section \<open>Generic lemmas\<close>

lemma and_then_simps [simp]:
  "and_then (Inl e) f = Inl e" "and_then (Inr x) f = f x"
  by (simp_all add: and_then_def)

lemma and_then_cong [fundef_cong]:
  "r = r' \<Longrightarrow> (\<And>x. r' = Inr x \<Longrightarrow> f x = g x) \<Longrightarrow> and_then r f = and_then r' g"
  by (cases r') auto

lemma and_then_eq_Inr_iff:
  "and_then r f = Inr y \<longleftrightarrow> (\<exists>x. r = Inr x \<and> f x = Inr y)"
  by (cases r) auto

lemma is_ok_simps [simp]: "is_ok (Inr x)" "\<not> is_ok (Inl e)"
  by (simp_all add: is_ok_def)

lemma is_ok_iff: "is_ok r \<longleftrightarrow> (\<exists>x. r = Inr x)"
  by (cases r) auto

lemma ok_or_simps [simp]: "ok_or e None = Inl e" "ok_or e (Some x) = Inr x"
  by (simp_all add: ok_or_def)

lemma ensure_simps [simp]:
  "ensure True e = Inr ()" "ensure False e = Inl e"
  by (simp_all add: ensure_def)

lemma ensure_eq_Inr [simp]: "ensure b e = Inr u \<longleftrightarrow> b"
  by (simp add: ensure_def)

lemma map_result_Ok_iff:
  "map_result f xs = Inr ys \<longleftrightarrow> list_all2 (\<lambda>x y. f x = Inr y) xs ys"
  by (induction xs arbitrary: ys)
     (auto simp: and_then_eq_Inr_iff list_all2_Cons1)

lemma map_result_Inr [simp]: "map_result (\<lambda>x. Inr (f x)) xs = Inr (map f xs)"
  by (induction xs) auto

lemma cmp_simps [order_simps]:
  "cmp a b = Less \<longleftrightarrow> a < b" "cmp a b = Equal \<longleftrightarrow> a = b" "cmp a b = Greater \<longleftrightarrow> b < a"
  by (auto simp: cmp_def)

lemma cmp_refl [simp]: "cmp a a = Equal"
  by (simp add: cmp_def)

lemma then_with_simps [simp]:
  "then_with Less c = Less" "then_with Greater c = Greater" "then_with Equal c = c"
  by (simp_all add: then_with_def)

lemma then_with_iff [order_simps]:
  "then_with a c = Less \<longleftrightarrow> a = Less \<or> a = Equal \<and> c = Less"
  "then_with a c = Equal \<longleftrightarrow> a = Equal \<and> c = Equal"
  "then_with a c = Greater \<longleftrightarrow> a = Greater \<or> a = Equal \<and> c = Greater"
  by (cases a; simp)+

subsection \<open>Words\<close>

lemma u64_max_ge [simp]: "w \<le> u64_max"
  by (simp add: u64_max_def)

lemma u32_max_ge [simp]: "w \<le> u32_max"
  by (simp add: u32_max_def)

lemma word_zero_le [simp]: "(0 :: 'a::len word) \<le> w"
  by simp

lemma checked_add_word_Some:
  "checked_add_word a b = Some c \<longleftrightarrow> unat a + unat b < 2 ^ LENGTH('a) \<and> c = a + (b :: 'a::len word)"
  by (auto simp: checked_add_word_def)

lemma unat_checked_add_word:
  assumes "checked_add_word a b = Some (c :: 'a::len word)"
  shows "unat c = unat a + unat b"
  using assms by (auto simp: checked_add_word_def unat_word_ariths split: if_splits)

lemma saturating_add_usize_bounds:
  "saturating_add_usize a b \<le> usize_max" "saturating_add_usize a b \<le> a + b"
  by (simp_all add: saturating_add_usize_def)

lemma length_le_bytes [simp]: "length (le_bytes k n) = k"
  by (induction k arbitrary: n) auto

lemma le_value_le_bytes [simp]: "le_value (le_bytes k n) = n mod 256 ^ k"
proof (induction k arbitrary: n)
  case (Suc k)
  have u: "unat (word_of_nat (n mod 256) :: byte) = n mod 256"
    by (simp add: unat_of_nat)
  show ?case
    by (simp add: u Suc mod_mult2_eq)
qed simp

lemma le_bytes_le_value [simp]: "le_bytes (length bs) (le_value bs) = bs"
proof (induction bs)
  case (Cons b bs)
  have lt: "unat b < 256"
    using unsigned_less [of b] by simp
  have "(unat b + 256 * le_value bs) mod 256 = unat b"
    "(unat b + 256 * le_value bs) div 256 = le_value bs"
    using lt by simp_all
  then show ?case
    using Cons by simp
qed simp

lemma le_value_less: "le_value bs < 256 ^ length bs"
proof (induction bs)
  case (Cons b bs)
  have "unat b < 256"
    using unsigned_less [of b] by simp
  then show ?case
    using Cons by simp
qed simp

lemma le_bytes_word:
  assumes "k * 8 = LENGTH('a)"
  shows "le_value (le_bytes k (unat (w :: 'a::len word))) = unat w"
proof -
  have "(256 :: nat) ^ k = 2 ^ LENGTH('a)"
    using assms power_mult [of "2 :: nat" 8 k] by (simp add: mult.commute)
  then show ?thesis
    using unsigned_less [of w, where ?'a = nat] by simp
qed

lemma word_of_le_value_eq:
  assumes "length b * 8 = LENGTH('a)"
  shows "(word_of_nat (le_value b) :: 'a::len word) = w \<longleftrightarrow> b = le_bytes (length b) (unat w)"
proof
  have "(256 :: nat) ^ length b = 2 ^ LENGTH('a)"
    using assms power_mult [of "2 :: nat" 8 "length b"] by (simp add: mult.commute)
  then have lt: "le_value b < 2 ^ LENGTH('a)"
    using le_value_less [of b] by simp
  assume "(word_of_nat (le_value b) :: 'a word) = w"
  then have "unat w = le_value b"
    using lt by (auto simp: unat_of_nat)
  then show "b = le_bytes (length b) (unat w)"
    by simp
next
  assume "b = le_bytes (length b) (unat w)"
  then have "le_value b = unat w"
    using le_bytes_word [OF assms, of w] by simp
  then show "(word_of_nat (le_value b) :: 'a word) = w"
    by simp
qed

subsection \<open>Slices\<close>

lemma slice_get_append [simp]:
  "slice_get (xs @ ys @ zs) (length xs) (length xs + length ys) = Some ys"
  by (simp add: slice_get_def)

lemma slice_get_SomeD:
  "slice_get xs a b = Some ys \<Longrightarrow> a \<le> b \<and> b \<le> length xs \<and> length ys = b - a"
  by (auto simp: slice_get_def split: if_splits)

subsection \<open>Sorted lists\<close>

lemma partitioned_Nil [simp]: "partitioned P []"
  by (simp add: partitioned_def)

lemma partitioned_Cons [simp]:
  "partitioned P (x # xs) \<longleftrightarrow> (if P x then partitioned P xs else (\<forall>y\<in>set xs. \<not> P y))"
  by (auto simp: partitioned_def filter_empty_conv dest: sym)

lemma partitioned_sorted_wrt:
  assumes "sorted_wrt R xs" and "\<And>x y. R x y \<Longrightarrow> P y \<Longrightarrow> P x"
  shows "partitioned P xs"
  using assms by (induction xs) auto

lemma take_partition_point: "take (partition_point P xs) xs = takeWhile P xs"
  by (induction xs) (auto simp: partition_point_def)

lemma take_partition_point_filter:
  "partitioned P xs \<Longrightarrow> take (partition_point P xs) xs = filter P xs"
  by (simp add: take_partition_point partitioned_def)

lemma drop_partition_point: "drop (partition_point P xs) xs = dropWhile P xs"
  by (induction xs) (auto simp: partition_point_def)

lemma partition_point_le [simp]: "partition_point P xs \<le> length xs"
  by (simp add: partition_point_def length_takeWhile_le)

lemma partition_point_partitioned:
  assumes "partitioned P xs" and "i < length xs"
  shows "P (xs ! i) \<longleftrightarrow> i < partition_point P xs"
  using assms
proof (induction xs arbitrary: i)
  case (Cons x xs)
  then show ?case
    by (cases i) (auto simp: partition_point_def split: if_splits dest: nth_mem)
qed simp

lemma mset_insert_by [simp]: "mset (insert_by c x xs) = add_mset x (mset xs)"
  by (induction xs) auto

lemma mset_sort_by [simp]: "mset (sort_by c xs) = mset xs"
  by (induction xs) (auto simp: sort_by_def)

lemma set_insert_by [simp]: "set (insert_by c x xs) = insert x (set xs)"
  by (metis mset_insert_by set_mset_add_mset_insert set_mset_mset)

lemma set_sort_by [simp]: "set (sort_by c xs) = set xs"
  by (metis mset_sort_by set_mset_mset)

lemma length_sort_by [simp]: "length (sort_by c xs) = length xs"
  by (metis mset_sort_by size_mset)

lemma total_preorderD:
  assumes "total_preorder c"
  shows "c a b = Greater \<longleftrightarrow> c b a = Less"
    and "c a b \<noteq> Greater \<Longrightarrow> c b d \<noteq> Greater \<Longrightarrow> c a d \<noteq> Greater"
  using assms unfolding total_preorder_def by blast+

lemma sorted_by_insert_by:
  assumes "total_preorder c" "sorted_by c xs"
  shows "sorted_by c (insert_by c x xs)"
  using assms(2)
proof (induction xs)
  case (Cons y ys)
  show ?case
  proof (cases "c x y = Greater")
    case True
    then have "c y x \<noteq> Greater"
      using total_preorderD(1) [OF assms(1)] by fastforce
    then show ?thesis
      using Cons True by (auto simp: sorted_by_def)
  next
    case False
    then have "\<forall>z\<in>set ys. c x z \<noteq> Greater"
      using Cons.prems total_preorderD(2) [OF assms(1) False] by (auto simp: sorted_by_def)
    then show ?thesis
      using Cons.prems False by (auto simp: sorted_by_def)
  qed
qed (simp add: sorted_by_def)

lemma sorted_by_sort_by: "total_preorder c \<Longrightarrow> sorted_by c (sort_by c xs)"
  by (induction xs) (auto simp: sort_by_def sorted_by_insert_by, simp add: sorted_by_def)

lemma total_preorder_then_with:
  assumes "total_preorder c" "total_preorder d"
  shows "total_preorder (\<lambda>a b. then_with (c a b) (d a b))"
proof -
  note c = total_preorderD [OF assms(1)] and d = total_preorderD [OF assms(2)]
  have eq: "c a b = Equal \<longleftrightarrow> c b a = Equal" for a b
    using c(1) by (metis (full_types) ordering.distinct(1,3,5) ordering.exhaust)
  have tr: "then_with (c a e) (d a e) \<noteq> Greater"
    if ab: "then_with (c a b) (d a b) \<noteq> Greater" and be: "then_with (c b e) (d b e) \<noteq> Greater" for a b e
  proof -
    have ae: "c a e \<noteq> Greater"
      using ab be c(2) [of a b e] by (auto simp: order_simps)
    have "c a b = Equal \<and> c b e = Equal" if "c a e = Equal"
    proof -
      have "c e a \<noteq> Greater"
        using that eq [of e a] by simp
      then have "c b a \<noteq> Greater" "c e b \<noteq> Greater"
        using ab be c(2) [of b e a] c(2) [of e a b] by (auto simp: order_simps)
      then show ?thesis
        using ab be c(1) eq by (metis (full_types) ordering.exhaust then_with_iff(3))
    qed
    then show ?thesis
      using ae ab be d(2) [of a b e] by (auto simp: order_simps)
  qed
  moreover have "then_with (c a b) (d a b) = Greater \<longleftrightarrow> then_with (c b a) (d b a) = Less" for a b
    unfolding then_with_iff using c(1) [of a b] d(1) [of a b] eq [of a b] by blast
  ultimately show ?thesis
    unfolding total_preorder_def by blast
qed

lemma total_preorder_cmp: "total_preorder (\<lambda>a b. cmp (f a) (f b))"
  by (auto simp: total_preorder_def order_simps)

subsection \<open>Ordered maps\<close>

lemma btree_ok_Nil [simp]: "btree_ok []"
  by (simp add: btree_ok_def)

lemma btree_ok_Cons:
  "btree_ok ((k, v) # m) \<longleftrightarrow> btree_ok m \<and> (\<forall>k'\<in>fst ` set m. k < k')"
  by (auto simp: btree_ok_def)

lemma fst_set_btree_insert: "fst ` set (btree_insert k v m) = insert k (fst ` set m)"
  by (induction m rule: btree_insert.induct) auto

lemma btree_ok_insert [simp]: "btree_ok m \<Longrightarrow> btree_ok (btree_insert k v m)"
proof (induction m rule: btree_insert.induct)
  case (2 k v k' v' m)
  then show ?case
    by (auto simp: btree_ok_Cons fst_set_btree_insert)
qed (simp add: btree_ok_Cons)

lemma map_of_btree_insert:
  "btree_ok m \<Longrightarrow> map_of (btree_insert k v m) = (map_of m)(k \<mapsto> v)"
  by (induction m rule: btree_insert.induct) (auto simp: btree_ok_Cons fun_upd_twist)

lemma map_of_btree_remove: "map_of (btree_remove k m) = (map_of m)(k := None)"
  by (induction m) (auto simp: btree_remove_def)

lemma fst_set_btree_remove: "fst ` set (btree_remove k m) = fst ` set m - {k}"
  by (auto simp: btree_remove_def)

lemma btree_ok_distinct: "btree_ok m \<Longrightarrow> distinct (map fst m)"
  by (auto simp: btree_ok_def strict_sorted_iff)

lemma btree_ok_sorted: "btree_ok m \<Longrightarrow> sorted (map fst m)"
  by (auto simp: btree_ok_def strict_sorted_iff)

lemma set_btree_insert:
  "btree_ok m \<Longrightarrow> set (btree_insert k v m) = insert (k, v) {e \<in> set m. fst e \<noteq> k}"
  by (induction m rule: btree_insert.induct) (auto simp: btree_ok_Cons)

lemma btree_ok_filter [simp]: "btree_ok m \<Longrightarrow> btree_ok (filter P m)"
  by (induction m) (auto simp: btree_ok_Cons)

lemma btree_ok_remove [simp]: "btree_ok m \<Longrightarrow> btree_ok (btree_remove k m)"
  by (simp add: btree_remove_def)

end
