(* ===== verification/Codec.thy ===== *)
theory Codec
  imports Prelude
begin

text \<open>
  Resource limits (\<^verbatim>\<open>src/src/limits.rs\<close>), the CRC-32C checksum (\<^verbatim>\<open>src/src/checksum.rs\<close>)
  and the block codecs (\<^verbatim>\<open>src/src/codec.rs\<close>). The third-party LZ4 library is a pair of
  parameters \<open>compress\<close> and \<open>decompress\<close>, about which nothing is assumed.

  Shown here: changing one byte of a checksummed string always changes its CRC-32C, and a block that is
  decoded has the length its header announced, at most the decoding limit, whatever the LZ4 library
  returns.
\<close>

unbundle bit_operations_syntax

section \<open>Limits\<close>

definition MAX_DECODED_BLOCK_BYTES :: usize where
  "MAX_DECODED_BLOCK_BYTES = 64 * 1024 * 1024"

definition MAX_BLOB_RECORD_BODY_BYTES :: usize where
  "MAX_BLOB_RECORD_BODY_BYTES = 64 * 1024 * 1024"

definition MAX_BLOB_PROPERTIES_BYTES :: usize where
  "MAX_BLOB_PROPERTIES_BYTES = 16 * 1024 * 1024"

definition MAX_WAL_FRAME_PAYLOAD_BYTES :: usize where
  "MAX_WAL_FRAME_PAYLOAD_BYTES = 64 * 1024 * 1024"

definition MAX_USER_KEY_BYTES :: usize where
  "MAX_USER_KEY_BYTES = (MAX_BLOB_PROPERTIES_BYTES - 128) div 2"

definition MAX_BLOB_VALUE_BUDGET :: usize where
  "MAX_BLOB_VALUE_BUDGET = MAX_BLOB_RECORD_BODY_BYTES - MAX_USER_KEY_BYTES - 64 - 16"

definition MAX_USER_VALUE_BYTES :: usize where
  "MAX_USER_VALUE_BYTES =
     (MAX_BLOB_VALUE_BUDGET div 256) * 255 + (MAX_BLOB_VALUE_BUDGET mod 256) * 255 div 256"

definition ensure_invalid_format_len :: "usize \<Rightarrow> usize \<Rightarrow> string \<Rightarrow> unit result" where
  "ensure_invalid_format_len len max_len field =
     (if len \<le> max_len then Ok () else Err (InvalidFormat (field @ '' exceeds maximum'')))"

definition ensure_corruption_len :: "usize \<Rightarrow> usize \<Rightarrow> string \<Rightarrow> unit result" where
  "ensure_corruption_len len max_len field =
     (if len \<le> max_len then Ok () else Err (Corruption (field @ '' exceeds maximum'')))"

definition checked_add_invalid_format :: "usize \<Rightarrow> usize \<Rightarrow> string \<Rightarrow> usize result" where
  "checked_add_invalid_format left right field =
     ok_or (InvalidFormat (field @ '' overflows'')) (checked_add_usize left right)"

section \<open>CRC-32C\<close>

definition CRC32C_POLY_REVERSED :: u32 where
  "CRC32C_POLY_REVERSED = 0x82f63b78"

fun crc32c_bits :: "nat \<Rightarrow> u32 \<Rightarrow> u32" where
  "crc32c_bits 0 crc = crc"
| "crc32c_bits (Suc n) crc =
     crc32c_bits n
       (if crc AND 1 = 0 then drop_bit 1 crc else drop_bit 1 crc XOR CRC32C_POLY_REVERSED)"

text \<open>One round of \<open>crc32c_bits\<close>, as a function that is linear in the bits of its argument.\<close>
definition crc32c_shift :: "u32 \<Rightarrow> u32" where
  "crc32c_shift crc = drop_bit 1 crc XOR (if bit crc 0 then CRC32C_POLY_REVERSED else 0)"

definition build_crc32c_table :: "u32 list" where
  "build_crc32c_table = map (\<lambda>index. crc32c_bits 8 (word_of_nat index)) [0..<256]"

definition crc32c_step :: "byte \<Rightarrow> u32 \<Rightarrow> u32" where
  "crc32c_step b crc =
     (let table_index = unat ((crc XOR ucast b) AND 0xff)
      in drop_bit 8 crc XOR build_crc32c_table ! table_index)"

definition crc32c :: "bytes \<Rightarrow> u32" where
  "crc32c bs = NOT (fold crc32c_step bs (NOT 0))"

section \<open>Block codecs\<close>

datatype codec_id = CodecNone | FastLz4Block

fun codec_tag :: "codec_id \<Rightarrow> byte" where
  "codec_tag CodecNone = 0"
| "codec_tag FastLz4Block = 1"

definition codec_from_tag :: "byte \<Rightarrow> codec_id result" where
  "codec_from_tag tag =
     (if tag = 0 then Ok CodecNone
      else if tag = 1 then Ok FastLz4Block
      else Err (UnsupportedFormat ''unknown table codec''))"

definition ensure_decoded_block_len :: "usize \<Rightarrow> unit result" where
  "ensure_decoded_block_len uncompressed_len =
     ensure_invalid_format_len uncompressed_len MAX_DECODED_BLOCK_BYTES ''decoded block length''"

definition none_encode :: "bytes \<Rightarrow> bytes result" where
  "none_encode input = Ok input"

definition none_decode :: "bytes \<Rightarrow> usize \<Rightarrow> bytes result" where
  "none_decode input uncompressed_len =
     and_then (ensure_decoded_block_len uncompressed_len) (\<lambda>_.
       if length input = uncompressed_len then Ok input
       else Err (InvalidFormat ''uncompressed block length mismatch''))"

definition lz4_encode :: "(bytes \<Rightarrow> bytes) \<Rightarrow> bytes \<Rightarrow> bytes result" where
  "lz4_encode compress input = Ok (compress input)"

definition lz4_decode :: "(bytes \<Rightarrow> usize \<Rightarrow> bytes option) \<Rightarrow> bytes \<Rightarrow> usize \<Rightarrow> bytes result" where
  "lz4_decode decompress input uncompressed_len =
     and_then (ensure_decoded_block_len uncompressed_len) (\<lambda>_.
       and_then (ok_or (InvalidFormat ''invalid lz4 block'') (decompress input uncompressed_len))
         (\<lambda>decoded.
            if length decoded = uncompressed_len then Ok decoded
            else Err (InvalidFormat ''lz4 block length mismatch'')))"

fun encode_block :: "(bytes \<Rightarrow> bytes) \<Rightarrow> codec_id \<Rightarrow> bytes \<Rightarrow> bytes result" where
  "encode_block compress CodecNone input = none_encode input"
| "encode_block compress FastLz4Block input = lz4_encode compress input"

fun max_encoded_block_len :: "codec_id \<Rightarrow> usize \<Rightarrow> usize option" where
  "max_encoded_block_len CodecNone input_len = Some input_len"
| "max_encoded_block_len FastLz4Block input_len =
     Option.bind (checked_add_usize input_len (input_len div 255)) (\<lambda>n. checked_add_usize n 16)"

fun decode_block :: "(bytes \<Rightarrow> usize \<Rightarrow> bytes option) \<Rightarrow> codec_id \<Rightarrow> bytes \<Rightarrow> usize \<Rightarrow> bytes result" where
  "decode_block decompress CodecNone input uncompressed_len = none_decode input uncompressed_len"
| "decode_block decompress FastLz4Block input uncompressed_len =
     lz4_decode decompress input uncompressed_len"

section \<open>Lemmas\<close>

lemmas limit_defs =
  MAX_USER_VALUE_BYTES_def MAX_BLOB_VALUE_BUDGET_def MAX_USER_KEY_BYTES_def
  MAX_BLOB_PROPERTIES_BYTES_def MAX_BLOB_RECORD_BODY_BYTES_def MAX_DECODED_BLOCK_BYTES_def
  MAX_WAL_FRAME_PAYLOAD_BYTES_def

lemma ensure_corruption_len_Ok [simp]:
  "ensure_corruption_len n m f = Inr u \<longleftrightarrow> n \<le> m"
  by (simp add: ensure_corruption_len_def)

lemma ensure_decoded_block_len_Ok [simp]:
  "ensure_decoded_block_len n = Inr u \<longleftrightarrow> n \<le> MAX_DECODED_BLOCK_BYTES"
  by (simp add: ensure_decoded_block_len_def ensure_invalid_format_len_def)

lemma codec_from_tag_tag [simp]: "codec_from_tag (codec_tag c) = Inr c"
  by (cases c) (simp_all add: codec_from_tag_def)

subsection \<open>Single-byte changes of a checksummed string\<close>

lemma build_crc32c_table_nth:
  "i < 256 \<Longrightarrow> build_crc32c_table ! i = crc32c_bits 8 (word_of_nat i)"
  by (simp add: build_crc32c_table_def)

lemma length_build_crc32c_table [simp]: "length build_crc32c_table = 256"
  by (simp add: build_crc32c_table_def)

lemma crc32c_bits_Suc: "crc32c_bits (Suc n) crc = crc32c_bits n (crc32c_shift crc)"
  by (simp add: crc32c_shift_def and_one_eq bit_0 even_iff_mod_2_eq_zero)

lemma crc32c_shift_xor: "crc32c_shift (x XOR y) = crc32c_shift x XOR crc32c_shift y"
  by (auto simp: crc32c_shift_def bit_xor_iff intro!: bit_eqI simp: bit_simps)

lemma crc32c_bits_xor: "crc32c_bits n (x XOR y) = crc32c_bits n x XOR crc32c_bits n y"
  by (induction n arbitrary: x y) (simp_all only: crc32c_bits_Suc crc32c_shift_xor crc32c_bits.simps(1))

lemma crc32c_bits_high: "(\<And>i. i < n \<Longrightarrow> \<not> bit x i) \<Longrightarrow> crc32c_bits n x = drop_bit n x"
proof (induction n arbitrary: x)
  case (Suc n)
  have s: "crc32c_shift x = drop_bit 1 x"
    using Suc.prems [of 0] by (simp add: crc32c_shift_def)
  have "crc32c_bits n (drop_bit 1 x) = drop_bit n (drop_bit 1 x)"
    by (rule Suc.IH) (simp add: bit_drop_bit_eq Suc.prems)
  then show ?case
    unfolding crc32c_bits_Suc s by (simp add: add.commute)
qed simp

lemma xor_right_cancel: "(a :: 'a::len word) XOR c = b XOR c \<Longrightarrow> a = b"
  by (metis xor.assoc xor.right_neutral xor_self_eq)

lemma xor_left_cancel: "c XOR (a :: 'a::len word) = c XOR b \<Longrightarrow> a = b"
  using xor_right_cancel by (metis xor.commute)

lemma crc32c_shift_inj: "crc32c_shift x = crc32c_shift y \<Longrightarrow> x = y"
proof -
  assume e: "crc32c_shift x = crc32c_shift y"
  have top: "bit (crc32c_shift z) 31 = bit z 0" for z
    by (auto simp: crc32c_shift_def bit_simps CRC32C_POLY_REVERSED_def dest: bit_imp_le_length)
  have b0: "bit x 0 = bit y 0"
    using top e by metis
  have "drop_bit 1 x = drop_bit 1 y"
    using e b0 unfolding crc32c_shift_def by (auto dest: xor_right_cancel)
  have "bit x n = bit y n" for n
  proof (cases n)
    case (Suc m)
    have "bit (drop_bit 1 x) m = bit (drop_bit 1 y) m"
      by (simp only: \<open>drop_bit 1 x = drop_bit 1 y\<close>)
    then show ?thesis
      by (simp add: bit_drop_bit_eq Suc)
  qed (simp add: b0)
  then show "x = y"
    by (simp add: bit_eq_iff)
qed

lemma crc32c_bits_inj: "crc32c_bits n x = crc32c_bits n y \<Longrightarrow> x = y"
  by (induction n arbitrary: x y) (simp, metis crc32c_bits_Suc crc32c_shift_inj)

lemma crc32c_step_bits: "crc32c_step b crc = crc32c_bits 8 (crc XOR ucast b)"
proof -
  define x where "x = crc XOR ucast b"
  have m: "(0xff :: u32) = mask 8"
    by (simp add: mask_eq_exp_minus_1)
  have x: "x = (x AND NOT (mask 8)) XOR (x AND mask 8)"
    by (rule bit_eqI) (auto simp: bit_simps)
  have lt: "unat (x AND mask 8) < 256"
    using word_and_le1 [of x "mask 8"] by (simp add: word_le_nat_alt mask_eq_exp_minus_1)
  have hi: "crc32c_bits 8 (x AND NOT (mask 8)) = drop_bit 8 (x AND NOT (mask 8))"
    by (rule crc32c_bits_high) (simp add: bit_simps)
  have sh: "drop_bit 8 (x AND NOT (mask 8)) = drop_bit 8 crc"
    unfolding x_def by (rule bit_eqI) (auto simp: bit_simps dest: bit_imp_le_length)
  have "crc32c_bits 8 x = crc32c_bits 8 (x AND NOT (mask 8)) XOR crc32c_bits 8 (x AND mask 8)"
    using arg_cong [OF x, of "crc32c_bits 8"] by (simp only: crc32c_bits_xor)
  then show ?thesis
    using lt by (simp only: crc32c_step_def x_def [symmetric] build_crc32c_table_nth hi sh m Let_def of_nat_unat ucast_id)
qed

lemma unat_ucast_byte: "unat (ucast (b :: byte) :: u32) = unat b"
  using unsigned_less [of b, where ?'a = nat] by (simp add: unsigned_ucast_eq take_bit_nat_eq_self_iff)

lemma fold_crc32c_inj:
  "fold crc32c_step bs x = fold crc32c_step bs y \<Longrightarrow> x = y"
proof (induction bs arbitrary: x y)
  case (Cons b bs)
  have "crc32c_step b x = crc32c_step b y"
    using Cons by simp
  then have "x XOR ucast b = y XOR ucast b"
    unfolding crc32c_step_bits by (rule crc32c_bits_inj)
  then show ?case
    by (rule xor_right_cancel)
qed simp

lemma crc32c_byte_neq:
  assumes "b \<noteq> c"
  shows "crc32c (xs @ b # ys) \<noteq> crc32c (xs @ c # ys)"
proof
  assume "crc32c (xs @ b # ys) = crc32c (xs @ c # ys)"
  then have "fold crc32c_step ys (crc32c_step b (fold crc32c_step xs (NOT 0))) =
      fold crc32c_step ys (crc32c_step c (fold crc32c_step xs (NOT 0)))"
    by (simp add: crc32c_def)
  then have "crc32c_step b (fold crc32c_step xs (NOT 0)) = crc32c_step c (fold crc32c_step xs (NOT 0))"
    by (rule fold_crc32c_inj)
  then have "(ucast b :: u32) = ucast c"
    unfolding crc32c_step_bits by (rule xor_left_cancel [OF crc32c_bits_inj])
  then have "unat b = unat c"
    by (metis unat_ucast_byte)
  with assms show False
    by (simp add: word_unat_eq_iff)
qed

lemma crc32c_list_update:
  assumes "i < length xs" "b \<noteq> xs ! i"
  shows "crc32c (xs[i := b]) \<noteq> crc32c xs"
  using crc32c_byte_neq [OF assms(2), of "take i xs" "drop (Suc i) xs"] assms(1)
  by (simp add: upd_conv_take_nth_drop id_take_nth_drop [symmetric])

text \<open>C24: A string and a copy of it that differs in exactly one byte, at any position, never have
  the same CRC-32C, so the checksum comparisons of the WAL, table and manifest readers detect
  every single-byte corruption.\<close>
theorem crc32c_detects_byte_change:
  assumes "b \<noteq> c"
  shows "crc32c (xs @ b # ys) \<noteq> crc32c (xs @ c # ys)"
  using assms by (rule crc32c_byte_neq)

theorem crc32c_detects_byte_change_witness:
  "(0 :: byte) \<noteq> 1 \<and> crc32c ([7] @ 0 # [9]) \<noteq> crc32c ([7] @ 1 # [9])"
  using crc32c_detects_byte_change [of 0 1 "[7]" "[9]"] by simp

subsection \<open>Blocks\<close>

lemma decode_block_length:
  assumes "decode_block decompress codec input n = Inr out"
  shows "length out = n \<and> n \<le> MAX_DECODED_BLOCK_BYTES"
  using assms by (cases codec)
    (auto simp: none_decode_def lz4_decode_def ensure_decoded_block_len_def ensure_invalid_format_len_def
      and_then_eq_Inr_iff split: if_splits)

end
