(* ===== verification/Keys.thy ===== *)
theory Keys
  imports Codec
begin

text \<open>
  The data that every storage layer shares: sequences and read versions, key ranges
  (\<^verbatim>\<open>src/src/types.rs\<close>), the trusted predicates of \<^verbatim>\<open>src/src/invariants.rs\<close>, snapshot visibility
  (\<^verbatim>\<open>src/src/mvcc.rs\<close>), internal keys with their order (\<^verbatim>\<open>src/src/internal_key.rs\<close>) and value
  references (\<^verbatim>\<open>src/src/blob.rs\<close>).

  Shown here: internal keys are linearly ordered with the newest version of a user key first, and
  the two probe keys used by every seek bracket exactly the versions of one user key.
\<close>

section \<open>Sequences and trusted predicates\<close>

type_synonym sequence = u64

definition durable_fence_advances :: "u64 \<Rightarrow> u64 \<Rightarrow> bool" where
  "durable_fence_advances current next_fence = (next_fence \<ge> current)"

definition checked_sequence_successor :: "u64 \<Rightarrow> u64 option" where
  "checked_sequence_successor current = checked_add_word current 1"

definition gc_delete_allowed :: "bool \<Rightarrow> bool \<Rightarrow> bool" where
  "gc_delete_allowed is_pending is_reachable = (is_pending \<and> \<not> is_reachable)"

datatype snapshot_reachability = Reachable | TooOld | TooNew

definition classify_snapshot_reachability :: "u64 \<Rightarrow> u64 \<Rightarrow> u64 \<Rightarrow> snapshot_reachability" where
  "classify_snapshot_reachability requested oldest_retained latest =
     (if requested > latest then TooNew
      else if requested < oldest_retained then TooOld
      else Reachable)"

definition immutable_retry_allowed :: "bool \<Rightarrow> bool \<Rightarrow> bool" where
  "immutable_retry_allowed object_exists bytes_equal = (object_exists \<and> bytes_equal)"

definition can_see :: "sequence \<Rightarrow> sequence \<Rightarrow> bool" where
  "can_see read_sequence seq = (seq \<le> read_sequence)"

section \<open>Key ranges\<close>

datatype 'a bound = Included 'a | Excluded 'a | Unbounded

record key_range =
  kr_start :: "bytes bound"
  kr_end :: "bytes bound"

definition key_range_all :: key_range where
  "key_range_all = \<lparr>kr_start = Unbounded, kr_end = Unbounded\<rparr>"

definition half_open :: "bytes \<Rightarrow> bytes \<Rightarrow> key_range" where
  "half_open s e = \<lparr>kr_start = Included s, kr_end = Excluded e\<rparr>"

section \<open>Internal keys\<close>

datatype value_kind = Put | PointDelete | RangeDelete

fun value_kind_rank :: "value_kind \<Rightarrow> nat" where
  "value_kind_rank Put = 0"
| "value_kind_rank PointDelete = 1"
| "value_kind_rank RangeDelete = 2"

instantiation value_kind :: linorder
begin

definition less_eq_value_kind :: "value_kind \<Rightarrow> value_kind \<Rightarrow> bool" where
  "less_eq_value_kind a b = (value_kind_rank a \<le> value_kind_rank b)"

definition less_value_kind :: "value_kind \<Rightarrow> value_kind \<Rightarrow> bool" where
  "less_value_kind a b = (value_kind_rank a < value_kind_rank b)"

instance
proof
  fix a b :: value_kind
  show "a \<le> b \<Longrightarrow> b \<le> a \<Longrightarrow> a = b"
    by (cases a; cases b) (simp_all add: less_eq_value_kind_def)
qed (auto simp: less_eq_value_kind_def less_value_kind_def)

end

datatype internal_key =
  InternalKey (user_key: bytes) (ik_sequence: sequence) (ik_kind: value_kind) (batch_index: u32)

definition internal_key_cmp :: "internal_key \<Rightarrow> internal_key \<Rightarrow> ordering" where
  "internal_key_cmp self other =
     then_with (cmp (user_key self) (user_key other))
       (then_with (cmp (ik_sequence other) (ik_sequence self))
         (then_with (cmp (batch_index other) (batch_index self))
           (cmp (ik_kind self) (ik_kind other))))"

instantiation internal_key :: linorder
begin

definition less_internal_key :: "internal_key \<Rightarrow> internal_key \<Rightarrow> bool" where
  "less_internal_key a b = (internal_key_cmp a b = Less)"

definition less_eq_internal_key :: "internal_key \<Rightarrow> internal_key \<Rightarrow> bool" where
  "less_eq_internal_key a b = (internal_key_cmp a b \<noteq> Greater)"

instance
proof
  fix a b c :: internal_key
  show "(a < b) = (a \<le> b \<and> \<not> b \<le> a)"
    by (auto simp: less_internal_key_def less_eq_internal_key_def internal_key_cmp_def order_simps)
  show "a \<le> a"
    by (simp add: less_eq_internal_key_def internal_key_cmp_def)
  show "a \<le> b \<Longrightarrow> b \<le> c \<Longrightarrow> a \<le> c"
    by (auto simp: less_eq_internal_key_def internal_key_cmp_def order_simps)
  show "a \<le> b \<Longrightarrow> b \<le> a \<Longrightarrow> a = b"
    by (cases a; cases b)
      (auto simp: less_eq_internal_key_def internal_key_cmp_def order_simps)
  show "a \<le> b \<or> b \<le> a"
    by (auto simp: less_eq_internal_key_def internal_key_cmp_def order_simps)
qed

end

definition first_internal_key_for_user :: "bytes \<Rightarrow> internal_key" where
  "first_internal_key_for_user k = InternalKey k u64_max Put u32_max"

definition last_internal_key_for_user :: "bytes \<Rightarrow> internal_key" where
  "last_internal_key_for_user k = InternalKey k 0 RangeDelete 0"

section \<open>Value references\<close>

record blob_index =
  file_id :: u64
  blob_offset :: u64
  encoded_len :: u64
  value_len :: u64
  value_checksum :: u32
  record_checksum :: u32
  compression :: codec_id

datatype value_ref = Inline bytes | BlobIndex blob_index

fun value_ref_len :: "value_ref \<Rightarrow> u64" where
  "value_ref_len (Inline bs) = word_of_nat (length bs)"
| "value_ref_len (BlobIndex index) = value_len index"

section \<open>Lemmas\<close>

lemma checked_sequence_successor_Some:
  "checked_sequence_successor s = Some t \<longleftrightarrow> s \<noteq> u64_max \<and> t = s + 1"
proof -
  have "unat s + 1 < 2 ^ 64 \<longleftrightarrow> s \<noteq> - 1"
    using unsigned_less [of s, where ?'a = nat]
    by (auto simp: word_unat_eq_iff unsigned_minus_1_eq_mask mask_eq_exp_minus_1)
  then show ?thesis
    by (auto simp: checked_sequence_successor_def checked_add_word_def u64_max_def)
qed

lemma checked_sequence_successor_gt:
  assumes "checked_sequence_successor s = Some t"
  shows "s < t" "unat t = unat s + 1"
proof -
  show u: "unat t = unat s + 1"
    using unat_checked_add_word [of s 1 t] assms by (simp add: checked_sequence_successor_def)
  show "s < t"
    by (simp add: word_less_nat_alt u)
qed

lemma classify_snapshot_reachability_Reachable:
  "classify_snapshot_reachability r o' l = Reachable \<longleftrightarrow> o' \<le> r \<and> r \<le> l"
  by (auto simp: classify_snapshot_reachability_def)

lemma value_kind_le_RangeDelete [simp]: "k \<le> RangeDelete"
  by (cases k) (simp_all add: less_eq_value_kind_def)

lemma value_kind_Put_le [simp]: "Put \<le> k"
  by (cases k) (simp_all add: less_eq_value_kind_def)

lemma less_internal_key_iff:
  "a < b \<longleftrightarrow>
     user_key a < user_key b \<or> user_key a = user_key b \<and>
       (ik_sequence b < ik_sequence a \<or> ik_sequence a = ik_sequence b \<and>
         (batch_index b < batch_index a \<or> batch_index a = batch_index b \<and> ik_kind a < ik_kind b))"
  by (auto simp: less_internal_key_def internal_key_cmp_def order_simps)

lemma less_eq_internal_key_iff:
  "a \<le> b \<longleftrightarrow>
     user_key a < user_key b \<or> user_key a = user_key b \<and>
       (ik_sequence b < ik_sequence a \<or> ik_sequence a = ik_sequence b \<and>
         (batch_index b < batch_index a \<or> batch_index a = batch_index b \<and> ik_kind a \<le> ik_kind b))"
  by (auto simp: less_eq_internal_key_def internal_key_cmp_def order_simps)

lemma less_internal_key_user_key: "a < b \<Longrightarrow> user_key a \<le> user_key b"
  by (auto simp: less_internal_key_iff)

lemma less_eq_internal_key_user_key: "a \<le> b \<Longrightarrow> user_key a \<le> user_key b"
  by (auto simp: less_eq_internal_key_iff)

lemma user_key_less_internal_key: "user_key a < user_key b \<Longrightarrow> a < b"
  by (simp add: less_internal_key_iff)

lemma less_internal_key_same_user:
  "a < b \<Longrightarrow> user_key a = user_key b \<Longrightarrow> ik_sequence b \<le> ik_sequence a"
  by (auto simp: less_internal_key_iff)

lemma user_key_probe [simp]:
  "user_key (first_internal_key_for_user k) = k" "user_key (last_internal_key_for_user k) = k"
  by (simp_all add: first_internal_key_for_user_def last_internal_key_for_user_def)

lemma first_internal_key_le: "first_internal_key_for_user (user_key ik) \<le> ik"
proof -
  have "ik_sequence ik < u64_max \<or> ik_sequence ik = u64_max"
    "batch_index ik < u32_max \<or> batch_index ik = u32_max"
    by (meson order_le_imp_less_or_eq u64_max_ge u32_max_ge)+
  then show ?thesis
    by (auto simp: less_eq_internal_key_iff first_internal_key_for_user_def)
qed

lemma last_internal_key_ge: "ik \<le> last_internal_key_for_user (user_key ik)"
proof -
  have "0 < ik_sequence ik \<or> ik_sequence ik = 0" "0 < batch_index ik \<or> batch_index ik = 0"
    by (meson word_neq_0_conv)+
  then show ?thesis
    by (auto simp: less_eq_internal_key_iff last_internal_key_for_user_def)
qed

text \<open>C25: An internal key lies between the first and the last probe key of a user key exactly when
  it is a version of that user key, so the seeks of memtables and tables neither miss a version
  nor return one of another key.\<close>
theorem internal_key_bracket:
  "first_internal_key_for_user k \<le> ik \<and> ik \<le> last_internal_key_for_user k \<longleftrightarrow> user_key ik = k"
  using first_internal_key_le [of ik] last_internal_key_ge [of ik]
    less_eq_internal_key_user_key [of "first_internal_key_for_user k" ik]
    less_eq_internal_key_user_key [of ik "last_internal_key_for_user k"]
  by auto

end
