(* ===== verification/Range_Tombstones.thy ===== *)
theory Range_Tombstones
  imports Keys
begin

text \<open>
  Key ranges and the sorted index of range tombstones (\<^verbatim>\<open>src/src/range_tombstone.rs\<close>). The trait
  \<^verbatim>\<open>RangeTombstoneLike\<close> is the argument \<open>range_of\<close> of the generic functions. The locale
  \<open>tombstone_index\<close> is the contract of the index that the memtable, table and compaction layers
  use; its interpretation is the sorted vector with the partition-point queries of the source.

  Shown here: membership, overlap and intersection of ranges agree with each other, and the
  partition-point queries of the index return what a scan of all tombstones would return.
\<close>

section \<open>Ranges\<close>

fun key_is_before_start :: "bytes \<Rightarrow> bytes bound \<Rightarrow> bool" where
  "key_is_before_start key (Included s) = (key < s)"
| "key_is_before_start key (Excluded s) = (key \<le> s)"
| "key_is_before_start key Unbounded = False"

fun key_is_after_end :: "bytes \<Rightarrow> bytes bound \<Rightarrow> bool" where
  "key_is_after_end key (Included e) = (key > e)"
| "key_is_after_end key (Excluded e) = (key \<ge> e)"
| "key_is_after_end key Unbounded = False"

definition key_is_in_range :: "bytes \<Rightarrow> key_range \<Rightarrow> bool" where
  "key_is_in_range key r =
     (\<not> key_is_before_start key (kr_start r) \<and> \<not> key_is_after_end key (kr_end r))"

fun range_ends_before_start :: "bytes bound \<Rightarrow> bytes bound \<Rightarrow> bool" where
  "range_ends_before_start Unbounded s = False"
| "range_ends_before_start e Unbounded = False"
| "range_ends_before_start (Excluded e) (Included s) = (e \<le> s)"
| "range_ends_before_start (Excluded e) (Excluded s) = (e \<le> s)"
| "range_ends_before_start (Included e) (Included s) = (e < s)"
| "range_ends_before_start (Included e) (Excluded s) = (e \<le> s)"

definition ranges_overlap :: "key_range \<Rightarrow> key_range \<Rightarrow> bool" where
  "ranges_overlap left right =
     (\<not> range_ends_before_start (kr_end left) (kr_start right) \<and>
      \<not> range_ends_before_start (kr_end right) (kr_start left))"

fun compare_start_bounds :: "bytes bound \<Rightarrow> bytes bound \<Rightarrow> ordering" where
  "compare_start_bounds Unbounded Unbounded = Equal"
| "compare_start_bounds Unbounded right = Less"
| "compare_start_bounds left Unbounded = Greater"
| "compare_start_bounds (Included left) (Included right) = cmp left right"
| "compare_start_bounds (Excluded left) (Excluded right) = cmp left right"
| "compare_start_bounds (Included left) (Excluded right) = then_with (cmp left right) Less"
| "compare_start_bounds (Excluded left) (Included right) = then_with (cmp left right) Greater"

fun compare_end_bounds :: "bytes bound \<Rightarrow> bytes bound \<Rightarrow> ordering" where
  "compare_end_bounds Unbounded Unbounded = Equal"
| "compare_end_bounds Unbounded right = Greater"
| "compare_end_bounds left Unbounded = Less"
| "compare_end_bounds (Included left) (Included right) = cmp left right"
| "compare_end_bounds (Excluded left) (Excluded right) = cmp left right"
| "compare_end_bounds (Excluded left) (Included right) = then_with (cmp left right) Less"
| "compare_end_bounds (Included left) (Excluded right) = then_with (cmp left right) Greater"

definition max_start_bound :: "bytes bound \<Rightarrow> bytes bound \<Rightarrow> bytes bound" where
  "max_start_bound left right = (if compare_start_bounds left right = Less then right else left)"

definition min_end_bound :: "bytes bound \<Rightarrow> bytes bound \<Rightarrow> bytes bound" where
  "min_end_bound left right = (if compare_end_bounds left right = Greater then right else left)"

definition range_intersection :: "key_range \<Rightarrow> key_range \<Rightarrow> key_range option" where
  "range_intersection left right =
     (if \<not> ranges_overlap left right then None
      else Some \<lparr>kr_start = max_start_bound (kr_start left) (kr_start right),
                 kr_end = min_end_bound (kr_end left) (kr_end right)\<rparr>)"

definition range_from_inclusive_span :: "bytes \<Rightarrow> bytes \<Rightarrow> key_range" where
  "range_from_inclusive_span smallest largest =
     \<lparr>kr_start = Included smallest, kr_end = Included largest\<rparr>"

section \<open>The tombstone index\<close>

fun start_can_cover_key :: "bytes bound \<Rightarrow> bytes \<Rightarrow> bool" where
  "start_can_cover_key Unbounded key = True"
| "start_can_cover_key (Included s) key = (s \<le> key)"
| "start_can_cover_key (Excluded s) key = (s < key)"

fun start_can_overlap_end :: "bytes bound \<Rightarrow> bytes bound \<Rightarrow> bool" where
  "start_can_overlap_end s Unbounded = True"
| "start_can_overlap_end Unbounded (Included e) = True"
| "start_can_overlap_end (Included s) (Included e) = (s \<le> e)"
| "start_can_overlap_end (Excluded s) (Included e) = (s < e)"
| "start_can_overlap_end Unbounded (Excluded e) = True"
| "start_can_overlap_end (Included s) (Excluded e) = (s < e)"
| "start_can_overlap_end (Excluded s) (Excluded e) = (s < e)"

definition start_can_overlap_range :: "bytes bound \<Rightarrow> key_range \<Rightarrow> bool" where
  "start_can_overlap_range s r = start_can_overlap_end s (kr_end r)"

definition compare_tombstones :: "('t \<Rightarrow> key_range) \<Rightarrow> 't \<Rightarrow> 't \<Rightarrow> ordering" where
  "compare_tombstones range_of left right =
     then_with (compare_start_bounds (kr_start (range_of left)) (kr_start (range_of right)))
       (compare_end_bounds (kr_end (range_of left)) (kr_end (range_of right)))"

definition sort_tombstones :: "('t \<Rightarrow> key_range) \<Rightarrow> 't list \<Rightarrow> 't list" where
  "sort_tombstones range_of ts = sort_by (compare_tombstones range_of) ts"

text \<open>\<^verbatim>\<open>binary_search_by\<close> may return the position of any tombstone that compares equal; the model
  takes the first one.\<close>
definition insert_sorted :: "('t \<Rightarrow> key_range) \<Rightarrow> 't list \<Rightarrow> 't \<Rightarrow> 't list" where
  "insert_sorted range_of ts t =
     (let position = partition_point (\<lambda>probe. compare_tombstones range_of probe t = Less) ts
      in take position ts @ t # drop position ts)"

definition rti_new :: "('t \<Rightarrow> key_range) \<Rightarrow> 't list \<Rightarrow> 't list" where
  "rti_new range_of ts = sort_tombstones range_of ts"

definition covering_key :: "('t \<Rightarrow> key_range) \<Rightarrow> 't list \<Rightarrow> bytes \<Rightarrow> 't list" where
  "covering_key range_of ts key =
     (let e = partition_point (\<lambda>t. start_can_cover_key (kr_start (range_of t)) key) ts
      in filter (\<lambda>t. key_is_in_range key (range_of t)) (take e ts))"

definition overlapping_range :: "('t \<Rightarrow> key_range) \<Rightarrow> 't list \<Rightarrow> key_range \<Rightarrow> 't list" where
  "overlapping_range range_of ts r =
     (let e = partition_point (\<lambda>t. start_can_overlap_range (kr_start (range_of t)) r) ts
      in filter (\<lambda>t. ranges_overlap r (range_of t)) (take e ts))"

definition tombstones_sorted :: "('t \<Rightarrow> key_range) \<Rightarrow> 't list \<Rightarrow> bool" where
  "tombstones_sorted range_of ts = sorted_by (compare_tombstones range_of) ts"

section \<open>Lemmas on ranges\<close>

lemma key_is_in_range_simps [simp]:
  "key_is_in_range k (half_open a b) \<longleftrightarrow> a \<le> k \<and> k < b"
  "key_is_in_range k (range_from_inclusive_span a b) \<longleftrightarrow> a \<le> k \<and> k \<le> b"
  "key_is_in_range k key_range_all"
  by (auto simp: key_is_in_range_def half_open_def range_from_inclusive_span_def key_range_all_def)

lemma range_ends_before_start_no_key:
  "range_ends_before_start e s \<Longrightarrow> key_is_before_start k s \<or> key_is_after_end k e"
  by (cases e; cases s) auto

lemma common_key_ranges_overlap:
  "key_is_in_range k a \<Longrightarrow> key_is_in_range k b \<Longrightarrow> ranges_overlap a b"
  using range_ends_before_start_no_key
  by (auto simp: ranges_overlap_def key_is_in_range_def)

lemma ranges_overlap_commute: "ranges_overlap a b \<longleftrightarrow> ranges_overlap b a"
  by (auto simp: ranges_overlap_def)

lemma max_start_bound_before:
  "key_is_before_start k (max_start_bound a b) \<longleftrightarrow> key_is_before_start k a \<or> key_is_before_start k b"
  by (cases a; cases b) (auto simp: max_start_bound_def order_simps)

lemma min_end_bound_after:
  "key_is_after_end k (min_end_bound a b) \<longleftrightarrow> key_is_after_end k a \<or> key_is_after_end k b"
  by (cases a; cases b) (auto simp: min_end_bound_def order_simps)

lemma range_intersection_SomeD:
  "range_intersection a b = Some r \<Longrightarrow> key_is_in_range k r \<longleftrightarrow> key_is_in_range k a \<and> key_is_in_range k b"
  by (auto simp: range_intersection_def key_is_in_range_def max_start_bound_before
      min_end_bound_after split: if_splits)

lemma range_intersection_NoneD:
  "range_intersection a b = None \<Longrightarrow> \<not> (key_is_in_range k a \<and> key_is_in_range k b)"
  using common_key_ranges_overlap by (auto simp: range_intersection_def split: if_splits)

text \<open>C26: The intersection of two ranges contains exactly the keys both contain, and it is reported
  absent only when no key is in both.\<close>
theorem range_intersection_exact:
  "(case range_intersection a b of
      None \<Rightarrow> \<not> (key_is_in_range k a \<and> key_is_in_range k b)
    | Some r \<Rightarrow> key_is_in_range k r \<longleftrightarrow> key_is_in_range k a \<and> key_is_in_range k b)"
proof (cases "range_intersection a b")
  case None
  then show ?thesis
    using range_intersection_NoneD by simp
next
  case (Some r)
  then show ?thesis
    using range_intersection_SomeD by simp
qed

section \<open>Lemmas on the index\<close>

lemma total_preorder_start_bounds: "total_preorder (\<lambda>a b. compare_start_bounds (f a) (f b))"
proof -
  have "compare_start_bounds x y = Greater \<longleftrightarrow> compare_start_bounds y x = Less" for x y
    by (cases x; cases y) (auto simp: order_simps)
  moreover have "compare_start_bounds x z \<noteq> Greater"
    if "compare_start_bounds x y \<noteq> Greater" "compare_start_bounds y z \<noteq> Greater" for x y z
    using that by (cases x; cases y; cases z) (auto simp: order_simps)
  ultimately show ?thesis
    unfolding total_preorder_def by blast
qed

lemma total_preorder_end_bounds: "total_preorder (\<lambda>a b. compare_end_bounds (f a) (f b))"
proof -
  have "compare_end_bounds x y = Greater \<longleftrightarrow> compare_end_bounds y x = Less" for x y
    by (cases x; cases y) (auto simp: order_simps)
  moreover have "compare_end_bounds x z \<noteq> Greater"
    if "compare_end_bounds x y \<noteq> Greater" "compare_end_bounds y z \<noteq> Greater" for x y z
    using that by (cases x; cases y; cases z) (auto simp: order_simps)
  ultimately show ?thesis
    unfolding total_preorder_def by blast
qed

lemma total_preorder_compare_tombstones: "total_preorder (compare_tombstones range_of)"
proof -
  have "compare_tombstones range_of = (\<lambda>a b.
      then_with (compare_start_bounds (kr_start (range_of a)) (kr_start (range_of b)))
        (compare_end_bounds (kr_end (range_of a)) (kr_end (range_of b))))"
    by (rule ext)+ (simp add: compare_tombstones_def)
  then show ?thesis
    using total_preorder_then_with [OF total_preorder_start_bounds total_preorder_end_bounds]
    by simp
qed

lemma tombstones_sorted_sort [simp]: "tombstones_sorted range_of (sort_tombstones range_of ts)"
  by (simp add: tombstones_sorted_def sort_tombstones_def sorted_by_sort_by
      total_preorder_compare_tombstones)

lemma mset_sort_tombstones [simp]: "mset (sort_tombstones range_of ts) = mset ts"
  by (simp add: sort_tombstones_def)

lemma set_sort_tombstones [simp]: "set (sort_tombstones range_of ts) = set ts"
  by (simp add: sort_tombstones_def)

lemma start_can_cover_key_mono:
  "compare_start_bounds a b \<noteq> Greater \<Longrightarrow> start_can_cover_key b key \<Longrightarrow> start_can_cover_key a key"
  by (cases a; cases b) (auto simp: order_simps)

lemma start_can_overlap_end_mono:
  "compare_start_bounds a b \<noteq> Greater \<Longrightarrow> start_can_overlap_end b e \<Longrightarrow> start_can_overlap_end a e"
  by (cases a; cases b; cases e) (auto simp: order_simps)

lemma in_range_start_can_cover: "key_is_in_range key r \<Longrightarrow> start_can_cover_key (kr_start r) key"
  by (cases "kr_start r") (auto simp: key_is_in_range_def)

lemma overlap_start_can_overlap: "ranges_overlap r s \<Longrightarrow> start_can_overlap_range (kr_start s) r"
  by (cases "kr_start s"; cases "kr_end r")
     (auto simp: ranges_overlap_def start_can_overlap_range_def)

lemma partition_point_filter_superset:
  assumes "partitioned P xs" "\<And>x. Q x \<Longrightarrow> P x"
  shows "filter Q (take (partition_point P xs) xs) = filter Q xs"
proof -
  have "filter Q (filter P xs) = filter Q xs"
    unfolding filter_filter by (rule filter_cong) (auto simp: assms(2))
  then show ?thesis
    by (simp add: take_partition_point_filter assms(1))
qed

lemma covering_key_filter:
  assumes "tombstones_sorted range_of ts"
  shows "covering_key range_of ts key = filter (\<lambda>t. key_is_in_range key (range_of t)) ts"
  unfolding covering_key_def Let_def
proof (rule partition_point_filter_superset)
  show "partitioned (\<lambda>t. start_can_cover_key (kr_start (range_of t)) key) ts"
    using assms unfolding tombstones_sorted_def sorted_by_def
    by (rule partitioned_sorted_wrt)
       (auto simp: compare_tombstones_def order_simps intro: start_can_cover_key_mono)
qed (rule in_range_start_can_cover)

lemma overlapping_range_filter:
  assumes "tombstones_sorted range_of ts"
  shows "overlapping_range range_of ts r = filter (\<lambda>t. ranges_overlap r (range_of t)) ts"
  unfolding overlapping_range_def Let_def
proof (rule partition_point_filter_superset)
  show "partitioned (\<lambda>t. start_can_overlap_range (kr_start (range_of t)) r) ts"
    using assms unfolding tombstones_sorted_def sorted_by_def
    by (rule partitioned_sorted_wrt)
       (auto simp: compare_tombstones_def order_simps start_can_overlap_range_def
         intro: start_can_overlap_end_mono)
qed (rule overlap_start_can_overlap)

lemma insert_sorted_sorted:
  assumes "tombstones_sorted range_of ts"
  shows "tombstones_sorted range_of (insert_sorted range_of ts t)"
proof -
  let ?P = "\<lambda>probe. compare_tombstones range_of probe t = Less"
  note tp = total_preorderD [OF total_preorder_compare_tombstones, of range_of]
  have "\<forall>x\<in>set (takeWhile ?P ts). compare_tombstones range_of x t \<noteq> Greater"
    using set_takeWhileD by fastforce
  moreover have "\<forall>y\<in>set (dropWhile ?P ts). compare_tombstones range_of t y \<noteq> Greater"
  proof (cases "dropWhile ?P ts")
    case Nil
    then show ?thesis
      by (simp only: list.set ball_simps)
  next
    case (Cons y ys)
    then have y: "compare_tombstones range_of t y \<noteq> Greater"
      using hd_dropWhile [of ?P ts] tp(1) by auto
    have "sorted_by (compare_tombstones range_of) (y # ys)"
      using assms Cons sorted_wrt_drop [of _ ts "length (takeWhile ?P ts)"]
      by (metis dropWhile_eq_drop sorted_by_def tombstones_sorted_def)
    then show ?thesis
      using Cons y tp(2) [OF y] by (auto simp: sorted_by_def)
  qed
  moreover have "sorted_by (compare_tombstones range_of) (takeWhile ?P ts @ dropWhile ?P ts)"
    using assms by (simp add: tombstones_sorted_def)
  ultimately show ?thesis
    by (simp add: tombstones_sorted_def insert_sorted_def Let_def take_partition_point
        drop_partition_point sorted_by_def sorted_wrt_append del: takeWhile_dropWhile_id)
qed

lemma mset_insert_sorted [simp]: "mset (insert_sorted range_of ts t) = add_mset t (mset ts)"
proof -
  have "mset ts = mset (take n ts) + mset (drop n ts)" for n
    by (metis append_take_drop_id mset_append)
  then show ?thesis
    by (simp add: insert_sorted_def Let_def)
qed

lemma set_insert_sorted [simp]: "set (insert_sorted range_of ts t) = insert t (set ts)"
  by (metis mset_insert_sorted set_mset_add_mset_insert set_mset_mset)

section \<open>The index as an interface\<close>

locale tombstone_index =
  fixes range_of :: "'t \<Rightarrow> key_range"
    and build :: "'t list \<Rightarrow> 'i"
    and entries :: "'i \<Rightarrow> 't list"
    and covering :: "'i \<Rightarrow> bytes \<Rightarrow> 't list"
    and overlapping :: "'i \<Rightarrow> key_range \<Rightarrow> 't list"
  assumes entries_build: "mset (entries (build ts)) = mset ts"
    and covering_build: "mset (covering (build ts) k) =
      filter_mset (\<lambda>t. key_is_in_range k (range_of t)) (mset ts)"
    and overlapping_build: "mset (overlapping (build ts) r) =
      filter_mset (\<lambda>t. ranges_overlap r (range_of t)) (mset ts)"
begin

lemma set_covering: "set (covering (build ts) k) = {t \<in> set ts. key_is_in_range k (range_of t)}"
  by (metis covering_build set_mset_filter set_mset_mset)

lemma set_overlapping: "set (overlapping (build ts) r) = {t \<in> set ts. ranges_overlap r (range_of t)}"
  by (metis overlapping_build set_mset_filter set_mset_mset)

lemma covering_any:
  "list_ex Q (covering (build ts) k) \<longleftrightarrow> (\<exists>t\<in>set ts. key_is_in_range k (range_of t) \<and> Q t)"
  by (auto simp: list_ex_iff set_covering)

lemma covering_in_overlapping:
  assumes "key_is_in_range k r"
  shows "set (covering (build ts) k) \<subseteq> set (overlapping (build ts) r)"
  using assms common_key_ranges_overlap by (auto simp: set_covering set_overlapping)

end

interpretation rti: tombstone_index range_of "rti_new range_of" "\<lambda>ts. ts" "covering_key range_of"
  "overlapping_range range_of" for range_of
  by unfold_locales
     (simp_all add: rti_new_def covering_key_filter overlapping_range_filter mset_filter)

text \<open>C27: On an index built from any list of tombstones, the partition-point queries return every
  tombstone whose range contains the key (overlaps the range), each as often as it was given, and
  nothing else.\<close>
theorem rti_queries_exact:
  "mset (covering_key range_of (rti_new range_of ts) key) =
     mset (filter (\<lambda>t. key_is_in_range key (range_of t)) ts) \<and>
   mset (overlapping_range range_of (rti_new range_of ts) r) =
     mset (filter (\<lambda>t. ranges_overlap r (range_of t)) ts)"
  by (simp add: rti.covering_build rti.overlapping_build mset_filter)

end
