(* ===== verification/Search.thy ===== *)
theory Search
  imports Prelude
begin

text \<open>
  Index search (\<^verbatim>\<open>src/src/search.rs\<close>): seeks on sorted slices and the partition point by policy.
  Shown here: the three policies agree on every partitioned index, the binary search terminates,
  and the seeks return the boundary their documentation states.
\<close>

datatype index_search_policy = Linear | Binary | Auto

text \<open>\<^verbatim>\<open>slice::binary_search\<close> on a sorted slice: the position of an equal item (the first one) or the
  insertion point.\<close>
definition binary_search :: "'a::linorder list \<Rightarrow> 'a \<Rightarrow> usize + usize" where
  "binary_search items target =
     (let i = partition_point (\<lambda>x. x < target) items
      in if i < length items \<and> items ! i = target then Inr i else Inl i)"

definition seek_ge :: "'a::linorder list \<Rightarrow> 'a \<Rightarrow> usize option" where
  "seek_ge items target =
     (case binary_search items target of
        Inr index \<Rightarrow> Some index
      | Inl index \<Rightarrow> if index < length items then Some index else None)"

definition seek_gt :: "'a::linorder list \<Rightarrow> 'a \<Rightarrow> usize option" where
  "seek_gt items target =
     (let index = partition_point (\<lambda>item. item \<le> target) items
      in if index < length items then Some index else None)"

definition seek_le :: "'a::linorder list \<Rightarrow> 'a \<Rightarrow> usize option" where
  "seek_le items target =
     (let index = partition_point (\<lambda>item. item \<le> target) items
      in if index = 0 then None else Some (index - 1))"

definition advance_to :: "'a::linorder list \<Rightarrow> usize \<Rightarrow> 'a \<Rightarrow> usize option" where
  "advance_to items current target =
     (if current \<ge> length items then None
      else if cmp (items ! current) target = Less
      then map_option (\<lambda>index. current + 1 + index) (seek_ge (drop (current + 1) items) target)
      else Some current)"

fun linear_partition_point_from :: "nat list \<Rightarrow> usize \<Rightarrow> (usize \<Rightarrow> bool) \<Rightarrow> usize" where
  "linear_partition_point_from [] len predicate = len"
| "linear_partition_point_from (index # rest) len predicate =
     (if \<not> predicate index then index else linear_partition_point_from rest len predicate)"

definition linear_partition_point :: "usize \<Rightarrow> (usize \<Rightarrow> bool) \<Rightarrow> usize" where
  "linear_partition_point len predicate = linear_partition_point_from [0..<len] len predicate"

function binary_partition_loop :: "usize \<Rightarrow> usize \<Rightarrow> (usize \<Rightarrow> bool) \<Rightarrow> usize" where
  "binary_partition_loop left right predicate =
     (if left < right then
        let middle = left + (right - left) div 2
        in if predicate middle then binary_partition_loop (middle + 1) right predicate
           else binary_partition_loop left middle predicate
      else left)"
  by pat_completeness auto
termination
  by (relation "measure (\<lambda>(left, right, _). right - left)") auto

definition binary_partition_point :: "usize \<Rightarrow> (usize \<Rightarrow> bool) \<Rightarrow> usize" where
  "binary_partition_point len predicate = binary_partition_loop 0 len predicate"

definition partition_point_by :: "usize \<Rightarrow> index_search_policy \<Rightarrow> (usize \<Rightarrow> bool) \<Rightarrow> usize" where
  "partition_point_by len policy predicate =
     (case policy of
        Linear \<Rightarrow> linear_partition_point len predicate
      | Auto \<Rightarrow> (if len \<le> 8 then linear_partition_point len predicate
                 else binary_partition_point len predicate)
      | Binary \<Rightarrow> binary_partition_point len predicate)"

section \<open>Lemmas\<close>

declare binary_partition_loop.simps [simp del]

text \<open>The boundary of a predicate that holds on an initial segment of the indexes.\<close>
definition boundary :: "usize \<Rightarrow> (usize \<Rightarrow> bool) \<Rightarrow> usize \<Rightarrow> bool" where
  "boundary len predicate b \<longleftrightarrow> b \<le> len \<and> (\<forall>i<len. predicate i \<longleftrightarrow> i < b)"

lemma boundary_unique: "boundary len P a \<Longrightarrow> boundary len P b \<Longrightarrow> a = b"
  by (metis boundary_def linorder_neqE_nat order_less_le_trans order_less_irrefl)

lemma linear_from_boundary:
  assumes "boundary len P b" "a \<le> b"
  shows "linear_partition_point_from [a..<len] len P = b"
  using assms(2)
proof (induction "len - a" arbitrary: a)
  case 0
  then show ?case
    using assms(1) by (auto simp: boundary_def)
next
  case (Suc n)
  then have "a < len" by simp
  then show ?case
    using Suc.hyps(1) [of "Suc a"] Suc.hyps(2) Suc.prems assms(1)
    by (auto simp: upt_conv_Cons boundary_def)
qed

lemma linear_partition_point_boundary:
  "boundary len P b \<Longrightarrow> linear_partition_point len P = b"
  by (simp add: linear_partition_point_def linear_from_boundary)

lemma binary_loop_boundary:
  assumes "boundary len P b" "left \<le> b" "b \<le> right" "right \<le> len"
  shows "binary_partition_loop left right P = b"
  using assms
proof (induction left right P rule: binary_partition_loop.induct)
  case (1 left right P)
  show ?case
  proof (cases "left < right")
    case True
    then have m: "left + (right - left) div 2 < right" by linarith
    then have "P (left + (right - left) div 2) \<longleftrightarrow> left + (right - left) div 2 < b"
      using 1 by (auto simp: boundary_def)
    then show ?thesis
      using 1 True m by (subst binary_partition_loop.simps) (auto simp: Let_def)
  next
    case False
    then show ?thesis
      using 1 by (subst binary_partition_loop.simps) simp
  qed
qed

lemma binary_partition_point_boundary:
  "boundary len P b \<Longrightarrow> binary_partition_point len P = b"
  by (simp add: binary_partition_point_def binary_loop_boundary boundary_def)

lemma partition_point_by_boundary:
  "boundary len P b \<Longrightarrow> partition_point_by len policy P = b"
  by (cases policy)
     (simp_all add: partition_point_by_def linear_partition_point_boundary
       binary_partition_point_boundary)

text \<open>On a list partitioned by \<open>P\<close>, an index search by any policy is the slice partition point.\<close>
lemma partition_point_by_nth:
  assumes "partitioned P xs"
  shows "partition_point_by (length xs) policy (\<lambda>i. P (xs ! i)) = partition_point P xs"
  by (rule partition_point_by_boundary)
     (simp add: boundary_def partition_point_partitioned assms)

text \<open>C28: On every index whose predicate holds exactly below some position, the linear, binary and
  automatic policies of the index search return that position.\<close>
theorem partition_point_by_policy:
  assumes "b \<le> len" "\<And>i. i < len \<Longrightarrow> predicate i \<longleftrightarrow> i < b"
  shows "partition_point_by len policy predicate = b"
  using assms by (intro partition_point_by_boundary) (simp add: boundary_def)

theorem partition_point_by_policy_witness:
  "partition_point_by 9 Binary (\<lambda>i. i < 5) = 5 \<and> partition_point_by 9 Auto (\<lambda>i. i < 5) = 5"
  using partition_point_by_policy [of 5 9 "\<lambda>i. i < 5"] by simp

lemma sorted_partitioned_less: "sorted xs \<Longrightarrow> partitioned (\<lambda>x. x < t) xs"
  by (rule partitioned_sorted_wrt [of "(\<le>)"]) auto

lemma sorted_partitioned_le: "sorted xs \<Longrightarrow> partitioned (\<lambda>x. x \<le> t) xs"
  by (rule partitioned_sorted_wrt [of "(\<le>)"]) auto

lemma seek_ge_eq:
  "seek_ge items target =
     (let i = partition_point (\<lambda>x. x < target) items in if i < length items then Some i else None)"
  by (simp add: seek_ge_def binary_search_def Let_def)

lemma seek_ge_SomeD:
  assumes "sorted items" "seek_ge items target = Some i"
  shows "i < length items" "target \<le> items ! i" "\<And>j. j < i \<Longrightarrow> items ! j < target"
proof -
  have i: "i < length items" "i = partition_point (\<lambda>x. x < target) items"
    using assms(2) by (auto simp: seek_ge_eq Let_def split: if_splits)
  note pp = partition_point_partitioned [OF sorted_partitioned_less [OF assms(1)], of _ target]
  show "i < length items" "target \<le> items ! i" "\<And>j. j < i \<Longrightarrow> items ! j < target"
    using i pp by (auto simp: not_less [symmetric])
qed

lemma seek_ge_None:
  assumes "sorted items" "seek_ge items target = None" "j < length items"
  shows "items ! j < target"
proof -
  have "partition_point (\<lambda>x. x < target) items = length items"
    by (rule antisym [OF partition_point_le])
       (use assms(2) in \<open>simp add: seek_ge_eq Let_def split: if_splits\<close>)
  then show ?thesis
    using partition_point_partitioned [OF sorted_partitioned_less [OF assms(1)] assms(3)] assms(3)
    by simp
qed

lemma advance_to_SomeD:
  assumes "sorted items" "advance_to items current target = Some i"
  shows "current \<le> i \<and> i < length items \<and> target \<le> items ! i \<and>
    (\<forall>j. current \<le> j \<and> j < i \<longrightarrow> items ! j < target)"
proof (cases "cmp (items ! current) target = Less")
  case False
  then show ?thesis
    using assms(2) by (auto simp: advance_to_def order_simps split: if_splits)
next
  case True
  define rest where "rest = drop (current + 1) items"
  obtain k where k: "seek_ge rest target = Some k" "i = current + 1 + k"
    using assms(2) True by (auto simp: advance_to_def rest_def split: if_splits)
  have s: "sorted rest"
    unfolding rest_def using assms(1) by (rule sorted_wrt_drop)
  note d = seek_ge_SomeD [OF s k(1)]
  have "items ! j < target" if "current \<le> j" "j < i" for j
  proof (cases "j = current")
    case False
    then have "items ! j = rest ! (j - (current + 1))" "j - (current + 1) < k"
      using that k(2) d(1) by (auto simp: rest_def)
    then show ?thesis
      using d(3) by simp
  qed (use True in \<open>simp add: order_simps\<close>)
  then show ?thesis
    using d k(2) by (auto simp: rest_def)
qed

lemma advance_to_NoneD:
  assumes "sorted items" "advance_to items current target = None" "current \<le> j" "j < length items"
  shows "items ! j < target"
proof (cases "j = current")
  case True
  then show ?thesis
    using assms by (auto simp: advance_to_def order_simps split: if_splits)
next
  case False
  have n: "seek_ge (drop (current + 1) items) target = None"
    using assms by (auto simp: advance_to_def split: if_splits)
  have s: "sorted (drop (current + 1) items)"
    using assms(1) by (rule sorted_wrt_drop)
  show ?thesis
    using seek_ge_None [OF s n, of "j - (current + 1)"] False assms by simp
qed

text \<open>Advancing a cursor on a sorted slice returns the first position at or after the cursor
  whose item is at least the target, and reports the end only when there is none.\<close>
theorem advance_to_first:
  assumes "sorted items"
  shows "(case advance_to items current target of
      Some i \<Rightarrow> current \<le> i \<and> i < length items \<and> target \<le> items ! i \<and>
        (\<forall>j. current \<le> j \<and> j < i \<longrightarrow> items ! j < target)
    | None \<Rightarrow> \<forall>j. current \<le> j \<and> j < length items \<longrightarrow> items ! j < target)"
  using advance_to_SomeD [OF assms] advance_to_NoneD [OF assms] by (simp split: option.split)

theorem advance_to_first_witness:
  "sorted [1::nat, 3, 5, 7] \<and>
   (case advance_to [1::nat, 3, 5, 7] 1 6 of
      Some i \<Rightarrow> 1 \<le> i \<and> i < length [1::nat, 3, 5, 7] \<and> 6 \<le> [1::nat, 3, 5, 7] ! i \<and>
        (\<forall>j. 1 \<le> j \<and> j < i \<longrightarrow> [1::nat, 3, 5, 7] ! j < 6)
    | None \<Rightarrow> \<forall>j. 1 \<le> j \<and> j < length [1::nat, 3, 5, 7] \<longrightarrow> [1::nat, 3, 5, 7] ! j < 6)"
  using advance_to_first [of "[1::nat, 3, 5, 7]" 1 6] by simp

end
