(* ===== verification/Bloom_Filter.thy ===== *)
theory Bloom_Filter
  imports Prelude
begin

text \<open>
  Bloom filters over user keys and key prefixes (\<^verbatim>\<open>src/src/filter.rs\<close>) and the prefix extractors
  (\<^verbatim>\<open>src/src/prefix.rs\<close>). An out-of-range access of the bit array panics in the source;
  \<open>bloom_indexes_in_bounds\<close> shows that it never happens on a filter whose byte length matches its
  bit count, so the model's total list operations are never used out of range. \<^verbatim>\<open>usize\<close> is 64 bits
  wide, so conversions between \<^verbatim>\<open>u64\<close> and \<^verbatim>\<open>usize\<close> never fail.

  Shown here: a filter built from a list of keys answers true for each of them, decoded filter parts
  give the same filter back, and a prefix query is answered true whenever a key with that prefix was
  put in.
\<close>

unbundle bit_operations_syntax

section \<open>Prefix extractors\<close>

datatype prefix_extractor = FixedLen usize | Separator byte | Custom string | Disabled

fun position :: "byte \<Rightarrow> bytes \<Rightarrow> usize option" where
  "position b [] = None"
| "position b (c # cs) = (if c = b then Some 0 else map_option Suc (position b cs))"

fun extract_prefix :: "prefix_extractor \<Rightarrow> bytes \<Rightarrow> bytes option" where
  "extract_prefix (FixedLen len) key = (if len \<le> length key then Some (take len key) else None)"
| "extract_prefix (Separator separator) key =
     map_option (\<lambda>index. take (Suc index) key) (position separator key)"
| "extract_prefix (Custom _) key = None"
| "extract_prefix Disabled key = None"

fun supports_prefix_filter :: "prefix_extractor \<Rightarrow> bool" where
  "supports_prefix_filter (FixedLen _) = True"
| "supports_prefix_filter (Separator _) = True"
| "supports_prefix_filter (Custom _) = False"
| "supports_prefix_filter Disabled = False"

fun query_filter_prefix :: "prefix_extractor \<Rightarrow> bytes \<Rightarrow> bytes option" where
  "query_filter_prefix (FixedLen len) query_prefix =
     (if len \<le> length query_prefix then Some (take len query_prefix) else None)"
| "query_filter_prefix (Separator separator) query_prefix =
     map_option (\<lambda>index. take (Suc index) query_prefix) (position separator query_prefix)"
| "query_filter_prefix (Custom _) query_prefix = None"
| "query_filter_prefix Disabled query_prefix = None"

section \<open>Bloom bits\<close>

record bloom_bits =
  bit_count :: u64
  hash_count :: byte
  bloom_bytes :: bytes

definition MAX_BLOOM_HASH_COUNT :: byte where "MAX_BLOOM_HASH_COUNT = 30"
definition FNV_OFFSET_A :: u64 where "FNV_OFFSET_A = 0xcbf29ce484222325"
definition FNV_OFFSET_B :: u64 where "FNV_OFFSET_B = 0x84222325cbf29ce4"
definition FNV_PRIME :: u64 where "FNV_PRIME = 0x00000100000001b3"

definition bloom_hash :: "u64 \<Rightarrow> bytes \<Rightarrow> u64" where
  "bloom_hash seed item = fold (\<lambda>b hash. (hash XOR ucast b) * FNV_PRIME) item seed"

definition bloom_hash_count :: "byte \<Rightarrow> byte" where
  "bloom_hash_count bits_per_item =
     (let n = unat bits_per_item * 69 div 100
      in word_of_nat (max 1 (min (if n < 256 then n else unat MAX_BLOOM_HASH_COUNT)
           (unat MAX_BLOOM_HASH_COUNT))))"

definition bloom_byte_len :: "u64 \<Rightarrow> usize" where
  "bloom_byte_len n = unat (saturating_add_word n 7) div 8"

definition bloom_visit_indexes :: "bytes \<Rightarrow> u64 \<Rightarrow> byte \<Rightarrow> u64 list" where
  "bloom_visit_indexes item bits hashes =
     (let hash_a = bloom_hash FNV_OFFSET_A item;
          hash_b = bloom_hash FNV_OFFSET_B item OR 1
      in map (\<lambda>index. (hash_a + word_of_nat index * hash_b) mod bits) [0..<unat hashes])"

definition bloom_set_bit :: "u64 \<Rightarrow> bytes \<Rightarrow> bytes" where
  "bloom_set_bit bit_index bs =
     (let byte_index = unat (bit_index div 8); bit_offset = unat (bit_index mod 8)
      in bs[byte_index := (bs ! byte_index) OR push_bit bit_offset 1])"

definition bloom_test_bit :: "u64 \<Rightarrow> bytes \<Rightarrow> bool" where
  "bloom_test_bit bit_index bs =
     (let byte_index = unat (bit_index div 8); bit_offset = unat (bit_index mod 8)
      in (bs ! byte_index) AND push_bit bit_offset 1 \<noteq> 0)"

definition bloom_insert :: "bytes \<Rightarrow> bloom_bits \<Rightarrow> bloom_bits" where
  "bloom_insert item bloom =
     (if bit_count bloom = 0 then bloom
      else bloom\<lparr>bloom_bytes := fold bloom_set_bit
             (bloom_visit_indexes item (bit_count bloom) (hash_count bloom)) (bloom_bytes bloom)\<rparr>)"

definition bloom_may_contain :: "bloom_bits \<Rightarrow> bytes \<Rightarrow> bool" where
  "bloom_may_contain bloom item =
     (if bit_count bloom = 0 then False
      else list_all (\<lambda>bit_index. bloom_test_bit bit_index (bloom_bytes bloom))
             (bloom_visit_indexes item (bit_count bloom) (hash_count bloom)))"

definition bloom_empty :: bloom_bits where
  "bloom_empty = \<lparr>bit_count = 0, hash_count = 0, bloom_bytes = []\<rparr>"

definition saturating_mul_u64 :: "u64 \<Rightarrow> u64 \<Rightarrow> u64" where
  "saturating_mul_u64 a b = (if unat a * unat b < 2 ^ 64 then a * b else u64_max)"

definition bloom_from_items :: "bytes list \<Rightarrow> byte \<Rightarrow> bloom_bits" where
  "bloom_from_items items bits_per_item =
     (if items = [] then bloom_empty
      else
        let bits = max 1 (saturating_mul_u64 (usize_to_u64_saturating (length items))
                     (ucast bits_per_item));
            bloom = \<lparr>bit_count = bits, hash_count = bloom_hash_count bits_per_item,
                     bloom_bytes = replicate (bloom_byte_len bits) 0\<rparr>
        in fold bloom_insert items bloom)"

definition bloom_from_parts :: "u64 \<Rightarrow> byte \<Rightarrow> bytes \<Rightarrow> bloom_bits result" where
  "bloom_from_parts bits hashes bs =
     (if length bs \<noteq> bloom_byte_len bits
      then Err (InvalidFormat ''bloom filter byte length does not match bit count'')
      else if bits = 0 \<and> (hashes \<noteq> 0 \<or> bs \<noteq> [])
      then Err (InvalidFormat ''empty bloom filter has non-empty metadata'')
      else if bits \<noteq> 0 \<and> (hashes = 0 \<or> hashes > MAX_BLOOM_HASH_COUNT)
      then Err (InvalidFormat ''invalid bloom filter hash count'')
      else Ok \<lparr>bit_count = bits, hash_count = hashes, bloom_bytes = bs\<rparr>)"

section \<open>Point-key and prefix filters\<close>

definition point_filter_from_keys :: "bytes list \<Rightarrow> byte \<Rightarrow> bloom_bits" where
  "point_filter_from_keys keys bits_per_key = bloom_from_items keys bits_per_key"

definition may_contain_key :: "bloom_bits \<Rightarrow> bytes \<Rightarrow> bool" where
  "may_contain_key filt key = bloom_may_contain filt key"

record prefix_filter =
  pf_extractor :: prefix_extractor
  pf_bloom :: bloom_bits

definition prefix_filter_from_keys :: "prefix_extractor \<Rightarrow> bytes list \<Rightarrow> byte \<Rightarrow> prefix_filter option" where
  "prefix_filter_from_keys extractor keys bits_per_prefix =
     (if \<not> supports_prefix_filter extractor then None
      else
        let prefixes = List.map_filter (extract_prefix extractor) keys
        in Some \<lparr>pf_extractor = extractor, pf_bloom = bloom_from_items prefixes bits_per_prefix\<rparr>)"

definition may_contain_prefix :: "prefix_filter \<Rightarrow> bytes \<Rightarrow> bool" where
  "may_contain_prefix filt prefix = bloom_may_contain (pf_bloom filt) prefix"

section \<open>Lemmas\<close>

definition bloom_wf :: "bloom_bits \<Rightarrow> bool" where
  "bloom_wf b \<longleftrightarrow> bit_count b \<noteq> 0 \<and> unat (bit_count b) + 7 < 2 ^ 64 \<and>
     length (bloom_bytes b) = bloom_byte_len (bit_count b)"

lemma bloom_test_bit_iff:
  "bloom_test_bit i bs \<longleftrightarrow> bit (bs ! unat (i div 8)) (unat (i mod 8))"
  by (simp add: bloom_test_bit_def Let_def bit_iff_and_push_bit_not_eq_0)

lemma length_bloom_set_bit [simp]: "length (bloom_set_bit i bs) = length bs"
  by (simp add: bloom_set_bit_def Let_def)

lemma length_fold_bloom_set_bit [simp]: "length (fold bloom_set_bit is bs) = length bs"
  by (induction "is" arbitrary: bs) simp_all

lemma bloom_set_bit_mono:
  assumes "bloom_test_bit j bs"
  shows "bloom_test_bit j (bloom_set_bit i bs)"
  using assms unfolding bloom_test_bit_iff
  by (cases "unat (i div 8) < length bs")
     (auto simp: bloom_set_bit_def Let_def nth_list_update bit_or_iff list_update_beyond)

lemma bloom_set_bit_sets:
  assumes "unat (i div 8) < length bs"
  shows "bloom_test_bit i (bloom_set_bit i bs)"
proof -
  have "i mod 8 < 8"
    by (simp add: word_mod_less_divisor)
  then have "unat (i mod 8) < 8"
    by (simp add: word_less_nat_alt)
  then show ?thesis
    using assms by (simp add: bloom_test_bit_iff bloom_set_bit_def Let_def bit_or_iff bit_exp_iff)
qed

lemma fold_bloom_set_bit_mono:
  "bloom_test_bit j bs \<Longrightarrow> bloom_test_bit j (fold bloom_set_bit is bs)"
  by (induction "is" arbitrary: bs) (simp_all add: bloom_set_bit_mono)

lemma fold_bloom_set_bit_sets:
  "j \<in> set is \<Longrightarrow> unat (j div 8) < length bs \<Longrightarrow> bloom_test_bit j (fold bloom_set_bit is bs)"
  by (induction "is" arbitrary: bs) (auto simp: fold_bloom_set_bit_mono bloom_set_bit_sets)

lemma bloom_indexes_in_bounds:
  assumes "bloom_wf b" "i \<in> set (bloom_visit_indexes item (bit_count b) (hash_count b))"
  shows "unat (i div 8) < length (bloom_bytes b)"
proof -
  have "i < bit_count b"
    using assms by (auto simp: bloom_visit_indexes_def Let_def bloom_wf_def word_mod_less_divisor
        word_neq_0_conv)
  then have "unat i < unat (bit_count b)"
    by (simp add: word_less_nat_alt)
  then have "unat i div 8 < (unat (bit_count b) + 7) div 8"
    by linarith
  moreover have "bloom_byte_len (bit_count b) = (unat (bit_count b) + 7) div 8"
    using assms(1) by (simp add: bloom_byte_len_def bloom_wf_def saturating_add_word_def unat_word_ariths)
  ultimately show ?thesis
    using assms(1) by (simp add: bloom_wf_def unat_div)
qed

lemma bloom_insert_fields [simp]:
  "bit_count (bloom_insert x b) = bit_count b" "hash_count (bloom_insert x b) = hash_count b"
  "length (bloom_bytes (bloom_insert x b)) = length (bloom_bytes b)"
  by (simp_all add: bloom_insert_def)

lemma fold_bloom_insert_fields [simp]:
  "bit_count (fold bloom_insert xs b) = bit_count b"
  "hash_count (fold bloom_insert xs b) = hash_count b"
  "length (bloom_bytes (fold bloom_insert xs b)) = length (bloom_bytes b)"
  by (induction xs arbitrary: b) simp_all

lemma bloom_wf_insert [simp]: "bloom_wf (bloom_insert x b) \<longleftrightarrow> bloom_wf b"
  by (simp add: bloom_wf_def)

lemma bloom_may_contain_insert: "bloom_wf b \<Longrightarrow> bloom_may_contain (bloom_insert x b) x"
  using bloom_indexes_in_bounds [of b _ x]
  by (auto simp: bloom_may_contain_def list_all_iff bloom_wf_def bloom_insert_def
      intro!: fold_bloom_set_bit_sets)

lemma bloom_may_contain_mono:
  "bloom_may_contain b y \<Longrightarrow> bloom_may_contain (bloom_insert x b) y"
  by (auto simp: bloom_may_contain_def list_all_iff bloom_insert_def fold_bloom_set_bit_mono
      split: if_splits)

lemma fold_bloom_insert_mono:
  "bloom_may_contain b y \<Longrightarrow> bloom_may_contain (fold bloom_insert xs b) y"
  by (induction xs arbitrary: b) (simp_all add: bloom_may_contain_mono)

lemma fold_bloom_insert_contains:
  "bloom_wf b \<Longrightarrow> x \<in> set xs \<Longrightarrow> bloom_may_contain (fold bloom_insert xs b) x"
  by (induction xs arbitrary: b) (auto simp: bloom_may_contain_insert fold_bloom_insert_mono)

lemma bloom_from_items_wf:
  assumes "items \<noteq> []" "length items * unat (bits :: byte) + 7 < 2 ^ 64"
  defines "n \<equiv> max 1 (saturating_mul_u64 (usize_to_u64_saturating (length items)) (ucast bits))"
  shows "bloom_wf \<lparr>bit_count = n, hash_count = h, bloom_bytes = replicate (bloom_byte_len n) 0\<rparr>"
    and "unat n = max 1 (length items * unat bits)"
proof -
  have u: "unat (ucast bits :: u64) = unat bits"
  proof -
    have "unat bits < 2 ^ 8"
      using unsigned_less [of bits, where ?'a = nat] by simp
    then have "unat bits < 2 ^ 64"
      by simp
    then show ?thesis
      by (simp add: unsigned_ucast_eq take_bit_nat_eq_self_iff)
  qed
  have n: "unat n = max 1 (length items * unat bits)"
  proof (cases "bits = 0")
    case True
    then show ?thesis
      by (simp add: n_def saturating_mul_u64_def max_def)
  next
    case False
    then have "length items \<le> length items * unat bits"
      by (simp add: unat_gt_0 Suc_leI)
    then have l: "length items < 2 ^ 64"
      using assms(2) by linarith
    then have "unat (usize_to_u64_saturating (length items)) = length items"
      by (simp add: usize_to_u64_saturating_def unat_of_nat)
    then have "unat (saturating_mul_u64 (usize_to_u64_saturating (length items)) (ucast bits))
        = length items * unat bits"
      using assms(2) u by (simp add: saturating_mul_u64_def unat_word_ariths)
    then show ?thesis
      by (simp add: n_def max_def word_le_nat_alt)
  qed
  then show "unat n = max 1 (length items * unat bits)" .
  have "n \<noteq> 0"
    using n by (metis max_def nat_le_linear not_one_le_zero unsigned_0)
  then show "bloom_wf \<lparr>bit_count = n, hash_count = h, bloom_bytes = replicate (bloom_byte_len n) 0\<rparr>"
    using n assms(2) by (simp add: bloom_wf_def max_def)
qed

lemma bloom_from_items_contains:
  assumes "x \<in> set items" "length items * unat bits + 7 < 2 ^ 64"
  shows "bloom_may_contain (bloom_from_items items bits) x"
proof -
  have "items \<noteq> []" using assms(1) by auto
  then show ?thesis
    using fold_bloom_insert_contains [OF bloom_from_items_wf(1) [OF _ assms(2)] assms(1)]
    by (simp add: bloom_from_items_def Let_def)
qed

lemma bloom_hash_count_bounds: "1 \<le> bloom_hash_count b" "bloom_hash_count b \<le> MAX_BLOOM_HASH_COUNT"
  by (simp_all add: bloom_hash_count_def MAX_BLOOM_HASH_COUNT_def word_le_nat_alt Let_def unat_of_nat)

text \<open>C29: A point filter has no false negatives: every key it was built from is reported as
  possibly contained, whatever the configured number of bits per key, also after the filter has
  been stored as its three parts and decoded again.\<close>
theorem point_filter_no_false_negatives:
  assumes "key \<in> set keys" "length keys * unat bits_per_key + 7 < 2 ^ 64"
  defines "f \<equiv> point_filter_from_keys keys bits_per_key"
  shows "may_contain_key f key \<and>
    bloom_from_parts (bit_count f) (hash_count f) (bloom_bytes f) = Ok f"
proof
  show "may_contain_key f key"
    using assms by (simp add: may_contain_key_def point_filter_from_keys_def bloom_from_items_contains)
  have ne: "keys \<noteq> []" using assms(1) by auto
  define n where
    "n = max 1 (saturating_mul_u64 (usize_to_u64_saturating (length keys)) (ucast bits_per_key))"
  have f: "f = fold bloom_insert keys \<lparr>bit_count = n, hash_count = bloom_hash_count bits_per_key,
      bloom_bytes = replicate (bloom_byte_len n) 0\<rparr>"
    using ne by (simp add: f_def point_filter_from_keys_def bloom_from_items_def n_def Let_def)
  have "n \<noteq> 0"
    using bloom_from_items_wf(1) [OF ne assms(2)] by (simp add: bloom_wf_def n_def)
  moreover have "bloom_hash_count bits_per_key \<noteq> 0"
    using bloom_hash_count_bounds(1) [of bits_per_key] by auto
  ultimately show "bloom_from_parts (bit_count f) (hash_count f) (bloom_bytes f) = Ok f"
    using bloom_hash_count_bounds(2) [of bits_per_key] unfolding f
    by (simp add: bloom_from_parts_def not_less)
qed

theorem point_filter_no_false_negatives_witness:
  "[1, 2] \<in> set [[1, 2], [3 :: byte]] \<and>
   may_contain_key (point_filter_from_keys [[1, 2], [3]] 10) [1, 2]"
  using point_filter_no_false_negatives [of "[1, 2]" "[[1, 2], [3]]" 10] by simp

lemma position_append: "position b xs = Some i \<Longrightarrow> position b (xs @ ys) = Some i"
  by (induction xs arbitrary: i) (auto split: if_splits)

lemma position_less: "position b xs = Some i \<Longrightarrow> i < length xs"
  by (induction xs arbitrary: i) (auto split: if_splits)

lemma query_filter_prefix_extract:
  assumes "query_filter_prefix e q = Some p"
  shows "extract_prefix e (q @ rest) = Some p"
  using assms position_append [of _ q] position_less [of _ q] by (cases e) (fastforce split: if_splits)+

text \<open>When a table or block holds a key that starts with the queried prefix and the extractor
  derives a filter prefix from the query, the prefix filter answers true for it: prefix scans never
  skip a table that holds a matching key.\<close>
theorem prefix_filter_no_false_negatives:
  assumes "query @ rest \<in> set keys" "query_filter_prefix e query = Some p"
    and "length keys * unat bits_per_prefix + 7 < 2 ^ 64"
    and "prefix_filter_from_keys e keys bits_per_prefix = Some filt"
  shows "may_contain_prefix filt p"
proof -
  let ?ps = "List.map_filter (extract_prefix e) keys"
  have "p \<in> set ?ps"
    using assms(1) query_filter_prefix_extract [OF assms(2)]
    by (force simp: map_filter_def image_iff)
  moreover have "length ?ps * unat bits_per_prefix \<le> length keys * unat bits_per_prefix"
    by (rule mult_le_mono1) (simp add: map_filter_def)
  then have "length ?ps * unat bits_per_prefix + 7 < 2 ^ 64"
    using assms(3) by linarith
  ultimately show ?thesis
    using assms(4) bloom_from_items_contains [of p ?ps bits_per_prefix]
    by (auto simp: prefix_filter_from_keys_def may_contain_prefix_def Let_def split: if_splits)
qed

theorem prefix_filter_no_false_negatives_witness:
  "may_contain_prefix (the (prefix_filter_from_keys (FixedLen 2) [[1, 2, 3], [4]] 10)) [1, 2]"
  by (rule prefix_filter_no_false_negatives [of "[1, 2]" "[3]" "[[1, 2, 3], [4]]" "FixedLen 2" _ 10])
     (simp_all add: prefix_filter_from_keys_def Let_def)

end
