(* ===== verification/Write_Batch.thy ===== *)
theory Write_Batch
  imports Keys
begin

text \<open>
  Write batches (\<^verbatim>\<open>src/src/write_batch.rs\<close>) and the bucket-name rules they enforce
  (\<^verbatim>\<open>src/src/bucket.rs\<close>). A bucket name is a Rust \<^verbatim>\<open>String\<close>: here the bytes of its UTF-8 form, with
  \<open>valid_utf8\<close> the check of \<^verbatim>\<open>String::from_utf8\<close>.
\<close>

type_synonym bucket_name = bytes

section \<open>UTF-8\<close>

definition utf8_cont :: "byte \<Rightarrow> bool" where
  "utf8_cont b = (0x80 \<le> b \<and> b \<le> 0xbf)"

fun valid_utf8 :: "bytes \<Rightarrow> bool" where
  "valid_utf8 [] = True"
| "valid_utf8 (a # r) =
     (if a \<le> 0x7f then valid_utf8 r
      else case r of
        [] \<Rightarrow> False
      | b # r1 \<Rightarrow>
          if 0xc2 \<le> a \<and> a \<le> 0xdf then utf8_cont b \<and> valid_utf8 r1
          else (case r1 of
            [] \<Rightarrow> False
          | c # r2 \<Rightarrow>
              if 0xe0 \<le> a \<and> a \<le> 0xef then
                (if a = 0xe0 then 0xa0 \<le> b \<and> b \<le> 0xbf
                 else if a = 0xed then 0x80 \<le> b \<and> b \<le> 0x9f
                 else utf8_cont b) \<and> utf8_cont c \<and> valid_utf8 r2
              else (case r2 of
                [] \<Rightarrow> False
              | d # r3 \<Rightarrow>
                  if 0xf0 \<le> a \<and> a \<le> 0xf4 then
                    (if a = 0xf0 then 0x90 \<le> b \<and> b \<le> 0xbf
                     else if a = 0xf4 then 0x80 \<le> b \<and> b \<le> 0x8f
                     else utf8_cont b) \<and> utf8_cont c \<and> utf8_cont d \<and> valid_utf8 r3
                  else False)))"

section \<open>Operations and batches\<close>

datatype batch_operation =
    OpPut bucket_name bytes bytes
  | OpDelete bucket_name bytes
  | OpDeleteRange bucket_name key_range

fun op_bucket :: "batch_operation \<Rightarrow> bucket_name" where
  "op_bucket (OpPut bucket _ _) = bucket"
| "op_bucket (OpDelete bucket _) = bucket"
| "op_bucket (OpDeleteRange bucket _) = bucket"

text \<open>\<^verbatim>\<open>DEFAULT_BUCKET_NAME\<close> is the string \<^verbatim>\<open>default\<close>; \<^verbatim>\<open>INTERNAL_BUCKET_PREFIX\<close> is the character U+0001
  followed by \<^verbatim>\<open>trine-\<close>.\<close>

definition DEFAULT_BUCKET_NAME :: bucket_name where
  "DEFAULT_BUCKET_NAME = [100, 101, 102, 97, 117, 108, 116]"

definition INTERNAL_BUCKET_PREFIX :: bucket_name where
  "INTERNAL_BUCKET_PREFIX = [1, 116, 114, 105, 110, 101, 45]"

definition MAX_USER_BUCKET_NAME_BYTES :: usize where
  "MAX_USER_BUCKET_NAME_BYTES = 1024"

definition starts_with :: "bytes \<Rightarrow> bytes \<Rightarrow> bool" where
  "starts_with bs p = (take (length p) bs = p)"

definition validate_user_named_bucket :: "bucket_name \<Rightarrow> unit result" where
  "validate_user_named_bucket name =
     (if name = [] then Err (InvalidOptions ''bucket name cannot be empty'')
      else if name = DEFAULT_BUCKET_NAME
      then Err (InvalidOptions ''default bucket is accessed through Db helpers'')
      else if starts_with name INTERNAL_BUCKET_PREFIX
      then Err (InvalidOptions ''bucket name uses Trine's reserved internal namespace'')
      else if length name > MAX_USER_BUCKET_NAME_BYTES
      then Err (InvalidOptions ''bucket name exceeds the 1024-byte limit'')
      else Ok ())"

definition require_internal_bucket :: "bucket_name \<Rightarrow> unit result" where
  "require_internal_bucket name =
     (if starts_with name INTERNAL_BUCKET_PREFIX then Ok ()
      else Err (Corruption ''internal bucket name is outside the reserved namespace''))"

text \<open>One fixed-width slot inside a staged put value that is replaced with the accepted commit
  sequence after conflict validation.\<close>

record commit_sequence_stamp =
  operation_index :: u32
  value_offset :: u32

record write_batch =
  operations :: "batch_operation list"
  commit_sequence_stamps :: "commit_sequence_stamp list"

definition write_batch_new :: write_batch where
  "write_batch_new = \<lparr>operations = [], commit_sequence_stamps = []\<rparr>"

definition push_operation :: "batch_operation \<Rightarrow> write_batch \<Rightarrow> write_batch" where
  "push_operation op b = b\<lparr>operations := operations b @ [op]\<rparr>"

definition wb_put :: "write_batch \<Rightarrow> bytes \<Rightarrow> bytes \<Rightarrow> write_batch" where
  "wb_put b key v = push_operation (OpPut DEFAULT_BUCKET_NAME key v) b"

definition wb_put_bucket :: "write_batch \<Rightarrow> bucket_name \<Rightarrow> bytes \<Rightarrow> bytes \<Rightarrow> write_batch result" where
  "wb_put_bucket b bucket key v =
     and_then (validate_user_named_bucket bucket) (\<lambda>_. Ok (push_operation (OpPut bucket key v) b))"

definition u32_try_from :: "usize \<Rightarrow> string \<Rightarrow> u32 result" where
  "u32_try_from n message = (if n < 2 ^ 32 then Ok (word_of_nat n) else Err (InvalidOptions message))"

definition put_bucket_with_commit_sequence_unchecked ::
  "write_batch \<Rightarrow> bucket_name \<Rightarrow> bytes \<Rightarrow> bytes \<Rightarrow> bytes \<Rightarrow> write_batch result" where
  "put_bucket_with_commit_sequence_unchecked b bucket key prefix suffix =
     and_then (u32_try_from (length (operations b)) ''write batch operation count exceeds u32::MAX'')
       (\<lambda>index.
     and_then (u32_try_from (length prefix) ''commit sequence value prefix is too large'')
       (\<lambda>offset.
     Ok ((push_operation (OpPut bucket key (prefix @ replicate 8 0 @ suffix)) b)
           \<lparr>commit_sequence_stamps := commit_sequence_stamps b @
              [\<lparr>operation_index = index, value_offset = offset\<rparr>]\<rparr>)))"

definition put_bucket_with_commit_sequence ::
  "write_batch \<Rightarrow> bucket_name \<Rightarrow> bytes \<Rightarrow> bytes \<Rightarrow> bytes \<Rightarrow> write_batch result" where
  "put_bucket_with_commit_sequence b bucket key prefix suffix =
     and_then (validate_user_named_bucket bucket)
       (\<lambda>_. put_bucket_with_commit_sequence_unchecked b bucket key prefix suffix)"

definition put_internal_bucket_with_commit_sequence ::
  "write_batch \<Rightarrow> bucket_name \<Rightarrow> bytes \<Rightarrow> bytes \<Rightarrow> bytes \<Rightarrow> write_batch result" where
  "put_internal_bucket_with_commit_sequence b bucket key prefix suffix =
     and_then (require_internal_bucket bucket)
       (\<lambda>_. put_bucket_with_commit_sequence_unchecked b bucket key prefix suffix)"

definition put_internal_bucket ::
  "write_batch \<Rightarrow> bucket_name \<Rightarrow> bytes \<Rightarrow> bytes \<Rightarrow> write_batch result" where
  "put_internal_bucket b bucket key v =
     and_then (require_internal_bucket bucket) (\<lambda>_. Ok (push_operation (OpPut bucket key v) b))"

definition wb_delete :: "write_batch \<Rightarrow> bytes \<Rightarrow> write_batch" where
  "wb_delete b key = push_operation (OpDelete DEFAULT_BUCKET_NAME key) b"

definition wb_delete_bucket :: "write_batch \<Rightarrow> bucket_name \<Rightarrow> bytes \<Rightarrow> write_batch result" where
  "wb_delete_bucket b bucket key =
     and_then (validate_user_named_bucket bucket) (\<lambda>_. Ok (push_operation (OpDelete bucket key) b))"

definition wb_delete_range :: "write_batch \<Rightarrow> key_range \<Rightarrow> write_batch" where
  "wb_delete_range b r = push_operation (OpDeleteRange DEFAULT_BUCKET_NAME r) b"

definition wb_delete_range_bucket :: "write_batch \<Rightarrow> bucket_name \<Rightarrow> key_range \<Rightarrow> write_batch result" where
  "wb_delete_range_bucket b bucket r =
     and_then (validate_user_named_bucket bucket)
       (\<lambda>_. Ok (push_operation (OpDeleteRange bucket r) b))"

definition delete_internal_bucket :: "write_batch \<Rightarrow> bucket_name \<Rightarrow> bytes \<Rightarrow> write_batch result" where
  "delete_internal_bucket b bucket key =
     and_then (require_internal_bucket bucket) (\<lambda>_. Ok (push_operation (OpDelete bucket key) b))"

definition delete_range_internal_bucket ::
  "write_batch \<Rightarrow> bucket_name \<Rightarrow> key_range \<Rightarrow> write_batch result" where
  "delete_range_internal_bucket b bucket r =
     and_then (require_internal_bucket bucket)
       (\<lambda>_. Ok (push_operation (OpDeleteRange bucket r) b))"

section \<open>Admission checks of the commit path\<close>

text \<open>The checks of \<^verbatim>\<open>src/src/db/commit/helpers.rs\<close> that a batch passes before it is sequenced.
  \<^verbatim>\<open>DbOptions::MAX_WRITE_FIELD_BYTES\<close> and the bucket options are those of \<^verbatim>\<open>src/src/options.rs\<close>.\<close>

definition MAX_WRITE_FIELD_BYTES :: usize where
  "MAX_WRITE_FIELD_BYTES = MAX_USER_VALUE_BYTES"

definition validate_write_byte_field :: "usize \<Rightarrow> usize \<Rightarrow> string \<Rightarrow> unit result" where
  "validate_write_byte_field len max_bytes field =
     (let max_bytes = min max_bytes MAX_WRITE_FIELD_BYTES
      in if len \<le> max_bytes then Ok () else Err (InvalidOptions (field @ '' exceeds maximum'')))"

fun validate_bound_len :: "bytes bound \<Rightarrow> usize \<Rightarrow> unit result" where
  "validate_bound_len (Included bs) max_key_bytes =
     validate_write_byte_field (length bs) max_key_bytes ''write range bound length''"
| "validate_bound_len (Excluded bs) max_key_bytes =
     validate_write_byte_field (length bs) max_key_bytes ''write range bound length''"
| "validate_bound_len Unbounded max_key_bytes = Ok ()"

fun validate_operation_resource_bound :: "usize \<Rightarrow> usize \<Rightarrow> batch_operation \<Rightarrow> unit result" where
  "validate_operation_resource_bound max_key_bytes max_value_bytes (OpPut _ key v) =
     and_then (validate_write_byte_field (length key) max_key_bytes ''write key length'')
       (\<lambda>_. validate_write_byte_field (length v) max_value_bytes ''write value length'')"
| "validate_operation_resource_bound max_key_bytes max_value_bytes (OpDelete _ key) =
     validate_write_byte_field (length key) max_key_bytes ''write key length''"
| "validate_operation_resource_bound max_key_bytes max_value_bytes (OpDeleteRange _ r) =
     and_then (validate_bound_len (kr_start r) max_key_bytes)
       (\<lambda>_. validate_bound_len (kr_end r) max_key_bytes)"

definition validate_operation_resource_bounds ::
  "batch_operation list \<Rightarrow> usize \<Rightarrow> usize \<Rightarrow> unit result" where
  "validate_operation_resource_bounds ops max_key_bytes max_value_bytes =
     fold_result (\<lambda>op _. validate_operation_resource_bound max_key_bytes max_value_bytes op) ops ()"

fun validate_operation_storage_encoding :: "batch_operation \<Rightarrow> usize \<Rightarrow> codec_id \<Rightarrow> unit result" where
  "validate_operation_storage_encoding (OpPut _ key v) blob_threshold_bytes codec =
     and_then (ok_or (InvalidOptions ''internal key encoded length overflow'')
       (Option.bind (checked_add_usize 4 (length key)) (\<lambda>len. checked_add_usize len (8 + 1 + 4))))
       (\<lambda>internal_key_len.
     if length v < blob_threshold_bytes then
       and_then (ok_or (InvalidOptions ''table record encoded length overflow'')
         (Option.bind (checked_add_usize internal_key_len (1 + 4))
            (\<lambda>len. checked_add_usize len (length v))))
         (\<lambda>record_len.
            if record_len > MAX_DECODED_BLOCK_BYTES
            then Err (InvalidOptions ''inline table record length exceeds maximum'')
            else Ok ())
     else
       and_then (ok_or (InvalidOptions ''blob encoded value length overflow'')
         (max_encoded_block_len codec (length v))) (\<lambda>encoded_value_len.
       and_then (ok_or (InvalidOptions ''blob record body length overflow'')
         (Option.bind (checked_add_usize internal_key_len (8 + 8 + 1 + 4))
            (\<lambda>len. checked_add_usize len encoded_value_len)))
         (\<lambda>body_len.
            if body_len > MAX_BLOB_RECORD_BODY_BYTES
            then Err (InvalidOptions ''blob record body length exceeds maximum'')
            else Ok ())))"
| "validate_operation_storage_encoding (OpDelete _ _) blob_threshold_bytes codec = Ok ()"
| "validate_operation_storage_encoding (OpDeleteRange _ _) blob_threshold_bytes codec = Ok ()"

section \<open>Lemmas\<close>

lemma validate_user_named_bucket_Ok:
  "validate_user_named_bucket name = Inr u \<longleftrightarrow>
     name \<noteq> [] \<and> name \<noteq> DEFAULT_BUCKET_NAME \<and> \<not> starts_with name INTERNAL_BUCKET_PREFIX \<and>
     length name \<le> MAX_USER_BUCKET_NAME_BYTES"
  by (auto simp: validate_user_named_bucket_def)

text \<open>No bucket name is accepted by both the user and the internal entry points.\<close>
lemma user_and_internal_buckets_disjoint:
  "is_ok (validate_user_named_bucket name) \<Longrightarrow> \<not> is_ok (require_internal_bucket name)"
  by (auto simp: is_ok_iff validate_user_named_bucket_Ok require_internal_bucket_def)

lemma validate_write_byte_field_Ok:
  "validate_write_byte_field len m f = Inr u \<longleftrightarrow> len \<le> m \<and> len \<le> MAX_WRITE_FIELD_BYTES"
  by (auto simp: validate_write_byte_field_def Let_def)

lemma max_encoded_block_len_bound:
  assumes "vlen \<le> MAX_USER_VALUE_BYTES"
  obtains elen where "max_encoded_block_len codec vlen = Some elen" "elen \<le> MAX_BLOB_VALUE_BUDGET + 16"
proof -
  have "vlen div 255 * 255 \<le> vlen"
    by simp
  then have "vlen + vlen div 255 \<le> MAX_BLOB_VALUE_BUDGET"
    using assms by (simp add: limit_defs)
  then show ?thesis
    using that assms by (cases codec) (auto simp: checked_add_usize_def usize_max_def limit_defs)
qed

text \<open>A put that passes the resource check, with any value limit and a key limit that the open
  path accepts, is never refused by the storage-encoding check, whatever the blob threshold of its bucket and its codec:
  every accepted key/value pair can be written to a table block or to a blob record.\<close>
theorem accepted_put_is_encodable:
  assumes "validate_operation_resource_bounds [OpPut bucket key v] max_key_bytes max_value_bytes = Ok ()"
    and "max_key_bytes \<le> MAX_USER_KEY_BYTES"
  shows "validate_operation_storage_encoding (OpPut bucket key v) blob_threshold_bytes codec = Ok ()"
proof -
  have k: "length key \<le> MAX_USER_KEY_BYTES" and v: "length v \<le> MAX_USER_VALUE_BYTES"
    using assms by (auto simp: validate_operation_resource_bounds_def and_then_eq_Inr_iff
        validate_write_byte_field_Ok MAX_WRITE_FIELD_BYTES_def)
  obtain elen where e: "max_encoded_block_len codec (length v) = Some elen"
    "elen \<le> MAX_BLOB_VALUE_BUDGET + 16"
    using max_encoded_block_len_bound [OF v] .
  show ?thesis
    using k v e by (simp add: checked_add_usize_def usize_max_def limit_defs)
qed

theorem accepted_put_is_encodable_witness:
  "validate_operation_resource_bounds [OpPut [98] [1, 2] [3]] MAX_USER_KEY_BYTES
     MAX_USER_VALUE_BYTES = Ok () \<and>
   validate_operation_storage_encoding (OpPut [98] [1, 2] [3]) 0 FastLz4Block = Ok ()"
proof
  show "validate_operation_resource_bounds [OpPut [98] [1, 2] [3]] MAX_USER_KEY_BYTES
     MAX_USER_VALUE_BYTES = Ok ()"
    by (simp add: validate_operation_resource_bounds_def validate_write_byte_field_def limit_defs
        MAX_WRITE_FIELD_BYTES_def)
  then show "validate_operation_storage_encoding (OpPut [98] [1, 2] [3]) 0 FastLz4Block = Ok ()"
    by (rule accepted_put_is_encodable) simp
qed

end
