(* ===== verification/Wal_Codec.thy ===== *)
theory Wal_Codec
  imports Write_Batch
begin

text \<open>
  The write-ahead-log format (\<^verbatim>\<open>src/src/wal/codec.rs\<close>, constants in \<^verbatim>\<open>src/src/wal.rs\<close>): frames with a
  checksummed header and payload, and the payload of one commit. Encoders take the buffer they
  append to; the decoder's \<^verbatim>\<open>Cursor\<close> is a record passed through the reads. Of a decode error only
  the variant and the literal message are kept.

  Shown here: a decoded log is the encoded one, also when a crash has cut its last frame at any byte;
  any change of one byte of a complete frame is reported as an error.
\<close>

section \<open>Format constants\<close>

definition WAL_MAGIC :: u32 where "WAL_MAGIC = 0x5452574c"
definition WAL_FORMAT_VERSION :: u16 where "WAL_FORMAT_VERSION = 2"
definition HEADER_LEN :: usize where "HEADER_LEN = 18"
definition OP_INSERT :: byte where "OP_INSERT = 1"
definition OP_REMOVE :: byte where "OP_REMOVE = 2"
definition OP_REMOVE_RANGE :: byte where "OP_REMOVE_RANGE = 3"
definition BOUND_UNBOUNDED :: byte where "BOUND_UNBOUNDED = 0"
definition BOUND_INCLUDED :: byte where "BOUND_INCLUDED = 1"
definition BOUND_EXCLUDED :: byte where "BOUND_EXCLUDED = 2"
definition MIN_WAL_OPERATION_BYTES :: usize where "MIN_WAL_OPERATION_BYTES = 7"

record wal_batch =
  wb_sequence :: sequence
  wb_operations :: "batch_operation list"

definition invalid_wal :: "string \<Rightarrow> error" where
  "invalid_wal message = InvalidFormat (''invalid WAL: '' @ message)"

section \<open>Encoding\<close>

definition put_u8 :: "bytes \<Rightarrow> byte \<Rightarrow> bytes" where
  "put_u8 buf v = buf @ [v]"

definition put_u32 :: "bytes \<Rightarrow> u32 \<Rightarrow> bytes" where
  "put_u32 buf v = buf @ le_bytes 4 (unat v)"

definition put_u64 :: "bytes \<Rightarrow> u64 \<Rightarrow> bytes" where
  "put_u64 buf v = buf @ le_bytes 8 (unat v)"

definition put_bytes :: "bytes \<Rightarrow> bytes \<Rightarrow> bytes result" where
  "put_bytes buf v =
     and_then (u32_try_from (length v) ''WAL byte field exceeds u32::MAX'')
       (\<lambda>len. Ok (put_u32 buf len @ v))"

fun put_bound :: "bytes \<Rightarrow> bytes bound \<Rightarrow> bytes result" where
  "put_bound buf Unbounded = Ok (put_u8 buf BOUND_UNBOUNDED)"
| "put_bound buf (Included v) = put_bytes (put_u8 buf BOUND_INCLUDED) v"
| "put_bound buf (Excluded v) = put_bytes (put_u8 buf BOUND_EXCLUDED) v"

fun encode_operation :: "batch_operation \<Rightarrow> bytes \<Rightarrow> bytes result" where
  "encode_operation (OpPut bucket key v) buf =
     and_then (put_bytes (put_u8 buf OP_INSERT) bucket) (\<lambda>buf.
     and_then (put_bytes buf key) (\<lambda>buf. put_bytes buf v))"
| "encode_operation (OpDelete bucket key) buf =
     and_then (put_bytes (put_u8 buf OP_REMOVE) bucket) (\<lambda>buf. put_bytes buf key)"
| "encode_operation (OpDeleteRange bucket r) buf =
     and_then (put_bytes (put_u8 buf OP_REMOVE_RANGE) bucket) (\<lambda>buf.
     and_then (put_bound buf (kr_start r)) (\<lambda>buf. put_bound buf (kr_end r)))"

definition encode_payload :: "sequence \<Rightarrow> batch_operation list \<Rightarrow> bytes result" where
  "encode_payload seq ops =
     and_then (u32_try_from (length ops) ''WAL operation count exceeds u32::MAX'') (\<lambda>op_count.
       fold_result encode_operation ops (put_u32 (put_u64 [] seq) op_count))"

definition checksum :: "bytes \<Rightarrow> u32" where
  "checksum bs = crc32c bs"

definition header_checksum :: "u32 \<Rightarrow> u32 \<Rightarrow> u32" where
  "header_checksum payload_len payload_checksum =
     checksum (le_bytes 4 (unat WAL_MAGIC) @ le_bytes 2 (unat WAL_FORMAT_VERSION) @
       le_bytes 4 (unat payload_len) @ le_bytes 4 (unat payload_checksum))"

definition encode_batch_frame :: "sequence \<Rightarrow> batch_operation list \<Rightarrow> bytes result" where
  "encode_batch_frame seq ops =
     and_then (encode_payload seq ops) (\<lambda>payload.
       if length payload > MAX_WAL_FRAME_PAYLOAD_BYTES
       then Err (InvalidOptions ''WAL payload length exceeds maximum'')
       else
         let payload_checksum = checksum payload
         in and_then (u32_try_from (length payload) ''WAL payload exceeds u32::MAX bytes'')
              (\<lambda>payload_len.
                Ok (le_bytes 4 (unat WAL_MAGIC) @ le_bytes 2 (unat WAL_FORMAT_VERSION) @
                    le_bytes 4 (unat payload_len) @
                    le_bytes 4 (unat (header_checksum payload_len payload_checksum)) @
                    le_bytes 4 (unat payload_checksum) @ payload)))"

definition encode_batches_after :: "wal_batch list \<Rightarrow> sequence \<Rightarrow> bytes result" where
  "encode_batches_after batches replay_floor =
     fold_result (\<lambda>batch bs.
         and_then (encode_batch_frame (wb_sequence batch) (wb_operations batch))
           (\<lambda>frame. Ok (bs @ frame)))
       (filter (\<lambda>batch. wb_sequence batch > replay_floor) batches) []"

section \<open>Decoding\<close>

definition read_uint_at :: "nat \<Rightarrow> string \<Rightarrow> bytes \<Rightarrow> usize \<Rightarrow> 'a::len word result" where
  "read_uint_at width field bs offset =
     and_then (checked_add_invalid_format offset width (field @ '' offset'')) (\<lambda>stop.
     and_then (ok_or (invalid_wal (''short '' @ field)) (slice_get bs offset stop)) (\<lambda>v.
       Ok (word_of_nat (le_value v))))"

definition read_u16_at :: "bytes \<Rightarrow> usize \<Rightarrow> u16 result" where
  "read_u16_at = read_uint_at 2 ''u16''"

definition read_u32_at :: "bytes \<Rightarrow> usize \<Rightarrow> u32 result" where
  "read_u32_at = read_uint_at 4 ''u32''"

definition read_u64_at :: "bytes \<Rightarrow> usize \<Rightarrow> u64 result" where
  "read_u64_at = read_uint_at 8 ''u64''"

record cursor =
  cur_payload :: bytes
  cur_offset :: usize

definition cursor_new :: "bytes \<Rightarrow> cursor" where
  "cursor_new payload = \<lparr>cur_payload = payload, cur_offset = 0\<rparr>"

definition cursor_read_u8 :: "cursor \<Rightarrow> (byte \<times> cursor) result" where
  "cursor_read_u8 c =
     (if cur_offset c < length (cur_payload c)
      then Ok (cur_payload c ! cur_offset c, c\<lparr>cur_offset := cur_offset c + 1\<rparr>)
      else Err (invalid_wal ''short u8''))"

definition cursor_read_u32 :: "cursor \<Rightarrow> (u32 \<times> cursor) result" where
  "cursor_read_u32 c =
     and_then (read_u32_at (cur_payload c) (cur_offset c))
       (\<lambda>v. Ok (v, c\<lparr>cur_offset := cur_offset c + 4\<rparr>))"

definition cursor_read_u64 :: "cursor \<Rightarrow> (u64 \<times> cursor) result" where
  "cursor_read_u64 c =
     and_then (read_u64_at (cur_payload c) (cur_offset c))
       (\<lambda>v. Ok (v, c\<lparr>cur_offset := cur_offset c + 8\<rparr>))"

definition cursor_read_bytes :: "cursor \<Rightarrow> (bytes \<times> cursor) result" where
  "cursor_read_bytes c =
     and_then (cursor_read_u32 c) (\<lambda>(len, c).
     and_then (checked_add_invalid_format (cur_offset c) (unat len) ''WAL byte field length'') (\<lambda>stop.
     and_then (ok_or (invalid_wal ''short bytes'') (slice_get (cur_payload c) (cur_offset c) stop))
       (\<lambda>v. Ok (v, c\<lparr>cur_offset := stop\<rparr>))))"

definition cursor_read_bound :: "cursor \<Rightarrow> (bytes bound \<times> cursor) result" where
  "cursor_read_bound c =
     and_then (cursor_read_u8 c) (\<lambda>(tag, c).
       if tag = BOUND_UNBOUNDED then Ok (Unbounded, c)
       else if tag = BOUND_INCLUDED then and_then (cursor_read_bytes c) (\<lambda>(v, c). Ok (Included v, c))
       else if tag = BOUND_EXCLUDED then and_then (cursor_read_bytes c) (\<lambda>(v, c). Ok (Excluded v, c))
       else Err (InvalidFormat ''unknown WAL range bound tag''))"

definition cursor_is_finished :: "cursor \<Rightarrow> bool" where
  "cursor_is_finished c = (cur_offset c = length (cur_payload c))"

definition cursor_remaining_len :: "cursor \<Rightarrow> usize" where
  "cursor_remaining_len c = length (cur_payload c) - cur_offset c"

definition decode_operation :: "cursor \<Rightarrow> (batch_operation \<times> cursor) result" where
  "decode_operation c =
     and_then (cursor_read_u8 c) (\<lambda>(tag, c).
     and_then (cursor_read_bytes c) (\<lambda>(bucket, c).
     and_then (ensure (valid_utf8 bucket) (InvalidFormat ''WAL bucket name is not valid UTF-8''))
       (\<lambda>_.
       if tag = OP_INSERT then
         and_then (cursor_read_bytes c) (\<lambda>(key, c).
         and_then (cursor_read_bytes c) (\<lambda>(v, c). Ok (OpPut bucket key v, c)))
       else if tag = OP_REMOVE then
         and_then (cursor_read_bytes c) (\<lambda>(key, c). Ok (OpDelete bucket key, c))
       else if tag = OP_REMOVE_RANGE then
         and_then (cursor_read_bound c) (\<lambda>(s, c).
         and_then (cursor_read_bound c) (\<lambda>(e, c).
           Ok (OpDeleteRange bucket \<lparr>kr_start = s, kr_end = e\<rparr>, c)))
       else Err (InvalidFormat ''unknown WAL operation tag''))))"

fun decode_operations :: "nat \<Rightarrow> cursor \<Rightarrow> batch_operation list \<Rightarrow> (batch_operation list \<times> cursor) result" where
  "decode_operations 0 c ops = Ok (ops, c)"
| "decode_operations (Suc n) c ops =
     and_then (decode_operation c) (\<lambda>(op, c). decode_operations n c (ops @ [op]))"

definition decode_payload :: "bytes \<Rightarrow> wal_batch result" where
  "decode_payload payload =
     and_then (cursor_read_u64 (cursor_new payload)) (\<lambda>(seq, c).
     and_then (cursor_read_u32 c) (\<lambda>(n, c).
       let op_count = unat n
       in if op_count > cursor_remaining_len c div MIN_WAL_OPERATION_BYTES
          then Err (InvalidFormat ''WAL operation count exceeds payload bytes'')
          else and_then (decode_operations op_count c []) (\<lambda>(ops, c).
            if \<not> cursor_is_finished c then Err (InvalidFormat ''WAL payload has trailing bytes'')
            else Ok \<lparr>wb_sequence = seq, wb_operations = ops\<rparr>)))"

definition payload_sequence :: "bytes \<Rightarrow> sequence result" where
  "payload_sequence payload = read_u64_at payload 0"

text \<open>The header at an offset: the payload length and checksum it announces.\<close>
definition decode_header :: "bytes \<Rightarrow> usize \<Rightarrow> (u32 \<times> u32) result" where
  "decode_header bs offset =
     and_then (read_u32_at bs offset) (\<lambda>magic.
     and_then (read_u16_at bs (offset + 4)) (\<lambda>version.
     and_then (read_u32_at bs (offset + 6)) (\<lambda>payload_len.
     and_then (read_u32_at bs (offset + 10)) (\<lambda>actual_header_checksum.
     and_then (read_u32_at bs (offset + 14)) (\<lambda>payload_checksum.
       if magic \<noteq> WAL_MAGIC then Err (Corruption ''WAL magic mismatch'')
       else if version \<noteq> WAL_FORMAT_VERSION then Err (UnsupportedFormat ''unsupported WAL version'')
       else if actual_header_checksum \<noteq> header_checksum payload_len payload_checksum
       then Err (Corruption ''WAL header checksum mismatch'')
       else Ok (payload_len, payload_checksum))))))"

text \<open>One round of the frame loop: \<^const>\<open>None\<close> is the \<^verbatim>\<open>break\<close> at a torn tail, otherwise the batch to keep,
  if it is above the floor, and the offset of the next frame.\<close>
definition decode_frame_at :: "bytes \<Rightarrow> usize \<Rightarrow> sequence \<Rightarrow> (wal_batch list \<times> usize) option result" where
  "decode_frame_at bs offset replay_floor =
     (if length bs - offset < HEADER_LEN then Ok None
      else
        and_then (decode_header bs offset) (\<lambda>(len, payload_checksum).
        let payload_len = unat len in
        and_then (ensure_invalid_format_len payload_len MAX_WAL_FRAME_PAYLOAD_BYTES
          ''WAL payload length'') (\<lambda>_.
        and_then (checked_add_invalid_format offset HEADER_LEN ''WAL payload start'')
          (\<lambda>payload_start.
        and_then (checked_add_invalid_format payload_start payload_len ''WAL payload end'')
          (\<lambda>payload_end.
        if payload_end > length bs then Ok None
        else
          let payload = take (payload_end - payload_start) (drop payload_start bs)
          in if checksum payload \<noteq> payload_checksum
             then Err (Corruption ''WAL payload checksum mismatch'')
             else
               and_then (payload_sequence payload) (\<lambda>seq.
                 if seq > replay_floor
                 then and_then (decode_payload payload) (\<lambda>batch. Ok (Some ([batch], payload_end)))
                 else Ok (Some ([], payload_end))))))))"

text \<open>The bytes the encoders append, used to state the round trips.\<close>

definition field_bytes :: "bytes \<Rightarrow> bytes" where
  "field_bytes v = le_bytes 4 (length v) @ v"

fun bound_bytes :: "bytes bound \<Rightarrow> bytes" where
  "bound_bytes Unbounded = [BOUND_UNBOUNDED]"
| "bound_bytes (Included v) = BOUND_INCLUDED # field_bytes v"
| "bound_bytes (Excluded v) = BOUND_EXCLUDED # field_bytes v"

fun bound_fits :: "bytes bound \<Rightarrow> bool" where
  "bound_fits Unbounded = True"
| "bound_fits (Included v) = (length v < 2 ^ 32)"
| "bound_fits (Excluded v) = (length v < 2 ^ 32)"

fun op_bytes :: "batch_operation \<Rightarrow> bytes" where
  "op_bytes (OpPut bucket key v) = OP_INSERT # field_bytes bucket @ field_bytes key @ field_bytes v"
| "op_bytes (OpDelete bucket key) = OP_REMOVE # field_bytes bucket @ field_bytes key"
| "op_bytes (OpDeleteRange bucket r) =
     OP_REMOVE_RANGE # field_bytes bucket @ bound_bytes (kr_start r) @ bound_bytes (kr_end r)"

fun op_fits :: "batch_operation \<Rightarrow> bool" where
  "op_fits (OpPut bucket key v) = (length bucket < 2 ^ 32 \<and> length key < 2 ^ 32 \<and> length v < 2 ^ 32)"
| "op_fits (OpDelete bucket key) = (length bucket < 2 ^ 32 \<and> length key < 2 ^ 32)"
| "op_fits (OpDeleteRange bucket r) =
     (length bucket < 2 ^ 32 \<and> bound_fits (kr_start r) \<and> bound_fits (kr_end r))"

definition payload_bytes :: "sequence \<Rightarrow> batch_operation list \<Rightarrow> bytes" where
  "payload_bytes seq ops =
     le_bytes 8 (unat seq) @ le_bytes 4 (length ops) @ concat (map op_bytes ops)"

definition frame_bytes :: "bytes \<Rightarrow> bytes" where
  "frame_bytes payload =
     le_bytes 4 (unat WAL_MAGIC) @ le_bytes 2 (unat WAL_FORMAT_VERSION) @
     le_bytes 4 (length payload) @
     le_bytes 4 (unat (header_checksum (word_of_nat (length payload)) (checksum payload))) @
     le_bytes 4 (unat (checksum payload)) @ payload"

definition cursor_at :: "cursor \<Rightarrow> bytes \<Rightarrow> bool" where
  "cursor_at c rest \<longleftrightarrow>
     (\<exists>pre. cur_payload c = pre @ rest \<and> cur_offset c = length pre \<and>
            length pre + length rest \<le> usize_max)"

lemma decode_frame_at_advances:
  assumes "decode_frame_at bs offset replay_floor = Inr (Some (bts, stop))"
  shows "offset + HEADER_LEN \<le> stop" "stop \<le> length bs"
  using assms
  by (auto simp: decode_frame_at_def and_then_eq_Inr_iff checked_add_invalid_format_def Let_def
      checked_add_usize_def ok_or_def split: if_splits)

function decode_frames_loop :: "bytes \<Rightarrow> usize \<Rightarrow> sequence \<Rightarrow> wal_batch list \<Rightarrow> wal_batch list result" where
  "decode_frames_loop bs offset replay_floor batches =
     (if offset < length bs then
        case decode_frame_at bs offset replay_floor of
          Inl e \<Rightarrow> Err e
        | Inr None \<Rightarrow> Ok batches
        | Inr (Some (new_batches, next_offset)) \<Rightarrow>
            decode_frames_loop bs next_offset replay_floor (batches @ new_batches)
      else Ok batches)"
  by pat_completeness auto
termination
proof (relation "measure (\<lambda>(bs, offset, _). length bs - offset)", goal_cases)
  case (2 bs offset replay_floor batches a b x y)
  then have "decode_frame_at bs offset replay_floor = Inr (Some (x, y))"
    by simp
  from decode_frame_at_advances [OF this] show ?case
    using 2 by (simp add: HEADER_LEN_def)
qed simp

definition decode_frames_after :: "bytes \<Rightarrow> sequence \<Rightarrow> wal_batch list result" where
  "decode_frames_after bs replay_floor = decode_frames_loop bs 0 replay_floor []"

declare decode_frames_loop.simps [simp del]

section \<open>Round trip of a payload\<close>

lemma put_bytes_Ok: "put_bytes buf v = Inr buf' \<longleftrightarrow> length v < 2 ^ 32 \<and> buf' = buf @ field_bytes v"
  by (auto simp: put_bytes_def u32_try_from_def and_then_eq_Inr_iff put_u32_def field_bytes_def
      unat_of_nat)

lemma put_bound_Ok: "put_bound buf b = Inr buf' \<longleftrightarrow> bound_fits b \<and> buf' = buf @ bound_bytes b"
  by (cases b) (auto simp: put_bytes_Ok put_u8_def)

lemma encode_operation_Ok:
  "encode_operation op buf = Inr buf' \<longleftrightarrow> op_fits op \<and> buf' = buf @ op_bytes op"
  by (cases op) (auto simp: and_then_eq_Inr_iff put_bytes_Ok put_bound_Ok put_u8_def)

lemma fold_encode_operation_Ok:
  "fold_result encode_operation ops buf = Inr buf' \<longleftrightarrow>
     list_all op_fits ops \<and> buf' = buf @ concat (map op_bytes ops)"
  by (induction ops arbitrary: buf) (auto simp: and_then_eq_Inr_iff encode_operation_Ok)

lemma encode_payload_Ok:
  "encode_payload seq ops = Inr p \<longleftrightarrow>
     length ops < 2 ^ 32 \<and> list_all op_fits ops \<and> p = payload_bytes seq ops"
  by (auto simp: encode_payload_def u32_try_from_def and_then_eq_Inr_iff fold_encode_operation_Ok
      put_u32_def put_u64_def payload_bytes_def unat_of_nat)

lemma read_uint_at_append:
  assumes "length b = width" "length pre + width \<le> usize_max"
  shows "read_uint_at width f (pre @ b @ post) (length pre) = Inr (word_of_nat (le_value b))"
  using assms by (auto simp: read_uint_at_def checked_add_invalid_format_def checked_add_usize_def)

lemma cursor_read_u8_at:
  assumes "cursor_at c (b # rest)"
  obtains c' where "cursor_read_u8 c = Inr (b, c')" "cursor_at c' rest"
proof -
  obtain pre where "cur_payload c = pre @ b # rest" "cur_offset c = length pre"
    "length pre + length (b # rest) \<le> usize_max"
    using assms by (auto simp: cursor_at_def)
  then have "cursor_read_u8 c = Inr (b, c\<lparr>cur_offset := cur_offset c + 1\<rparr>)"
    "cursor_at (c\<lparr>cur_offset := cur_offset c + 1\<rparr>) rest"
    by (auto simp: cursor_read_u8_def cursor_at_def intro!: exI [of _ "pre @ [b]"])
  then show ?thesis
    by (rule that)
qed

lemma cursor_read_u32_at:
  assumes "cursor_at c (le_bytes 4 n @ rest)" "n < 2 ^ 32"
  obtains c' where "cursor_read_u32 c = Inr (word_of_nat n, c')" "cursor_at c' rest"
proof -
  obtain pre where pre: "cur_payload c = pre @ le_bytes 4 n @ rest" "cur_offset c = length pre"
    "length pre + length (le_bytes 4 n @ rest) \<le> usize_max"
    using assms(1) by (auto simp: cursor_at_def)
  have "cursor_read_u32 c = Inr (word_of_nat n, c\<lparr>cur_offset := cur_offset c + 4\<rparr>)"
    using pre assms(2) by (simp add: cursor_read_u32_def read_u32_at_def read_uint_at_append)
  moreover have "cursor_at (c\<lparr>cur_offset := cur_offset c + 4\<rparr>) rest"
    using pre by (auto simp: cursor_at_def intro!: exI [of _ "pre @ le_bytes 4 n"])
  ultimately show ?thesis
    by (rule that)
qed

lemma cursor_read_u64_at:
  assumes "cursor_at c (le_bytes 8 (unat (w :: u64)) @ rest)"
  obtains c' where "cursor_read_u64 c = Inr (w, c')" "cursor_at c' rest"
proof -
  obtain pre where pre: "cur_payload c = pre @ le_bytes 8 (unat w) @ rest" "cur_offset c = length pre"
    "length pre + length (le_bytes 8 (unat w) @ rest) \<le> usize_max"
    using assms by (auto simp: cursor_at_def)
  have "unat w < 2 ^ 64"
    using unsigned_less [of w, where ?'a = nat] by simp
  then have "cursor_read_u64 c = Inr (w, c\<lparr>cur_offset := cur_offset c + 8\<rparr>)"
    using pre by (simp add: cursor_read_u64_def read_u64_at_def read_uint_at_append)
  moreover have "cursor_at (c\<lparr>cur_offset := cur_offset c + 8\<rparr>) rest"
    using pre by (auto simp: cursor_at_def intro!: exI [of _ "pre @ le_bytes 8 (unat w)"])
  ultimately show ?thesis
    by (rule that)
qed

lemma cursor_read_bytes_at:
  assumes "cursor_at c (field_bytes v @ rest)" "length v < 2 ^ 32"
  obtains c' where "cursor_read_bytes c = Inr (v, c')" "cursor_at c' rest"
proof -
  have "cursor_at c (le_bytes 4 (length v) @ v @ rest)"
    using assms(1) by (simp add: field_bytes_def)
  then obtain c1 where c1: "cursor_read_u32 c = Inr (word_of_nat (length v), c1)" "cursor_at c1 (v @ rest)"
    using cursor_read_u32_at assms(2) by blast
  obtain pre where pre: "cur_payload c1 = pre @ v @ rest" "cur_offset c1 = length pre"
    "length pre + length (v @ rest) \<le> usize_max"
    using c1(2) by (auto simp: cursor_at_def)
  have "cursor_read_bytes c = Inr (v, c1\<lparr>cur_offset := length pre + length v\<rparr>)"
    using c1(1) pre assms(2)
    by (simp add: cursor_read_bytes_def unat_of_nat checked_add_invalid_format_def
        checked_add_usize_def)
  moreover have "cursor_at (c1\<lparr>cur_offset := length pre + length v\<rparr>) rest"
    using pre by (auto simp: cursor_at_def intro!: exI [of _ "pre @ v"])
  ultimately show ?thesis
    by (rule that)
qed

lemmas tag_defs = OP_INSERT_def OP_REMOVE_def OP_REMOVE_RANGE_def
  BOUND_UNBOUNDED_def BOUND_INCLUDED_def BOUND_EXCLUDED_def

lemma cursor_read_bound_at:
  assumes "cursor_at c (bound_bytes b @ rest)" "bound_fits b"
  obtains c' where "cursor_read_bound c = Inr (b, c')" "cursor_at c' rest"
proof (cases b)
  case Unbounded
  then obtain c1 where "cursor_read_u8 c = Inr (BOUND_UNBOUNDED, c1)" "cursor_at c1 rest"
    using assms cursor_read_u8_at by (metis append_Cons append_Nil bound_bytes.simps(1))
  then show ?thesis
    using that Unbounded by (simp add: cursor_read_bound_def)
next
  case (Included v)
  then obtain c1 where 1: "cursor_read_u8 c = Inr (BOUND_INCLUDED, c1)" "cursor_at c1 (field_bytes v @ rest)"
    using assms cursor_read_u8_at by (metis append_Cons bound_bytes.simps(2))
  obtain c2 where "cursor_read_bytes c1 = Inr (v, c2)" "cursor_at c2 rest"
    using cursor_read_bytes_at [OF 1(2)] assms(2) Included by auto
  then show ?thesis
    using that Included 1 by (simp add: cursor_read_bound_def tag_defs)
next
  case (Excluded v)
  then obtain c1 where 1: "cursor_read_u8 c = Inr (BOUND_EXCLUDED, c1)" "cursor_at c1 (field_bytes v @ rest)"
    using assms cursor_read_u8_at by (metis append_Cons bound_bytes.simps(3))
  obtain c2 where "cursor_read_bytes c1 = Inr (v, c2)" "cursor_at c2 rest"
    using cursor_read_bytes_at [OF 1(2)] assms(2) Excluded by auto
  then show ?thesis
    using that Excluded 1 by (simp add: cursor_read_bound_def tag_defs)
qed

lemma decode_operation_at:
  assumes "cursor_at c (op_bytes op @ rest)" "op_fits op" "valid_utf8 (op_bucket op)"
  obtains c' where "decode_operation c = Inr (op, c')" "cursor_at c' rest"
proof (cases op)
  case (OpPut bucket key v)
  obtain c1 where 1: "cursor_read_u8 c = Inr (OP_INSERT, c1)"
    "cursor_at c1 (field_bytes bucket @ field_bytes key @ field_bytes v @ rest)"
    using assms(1) OpPut by (auto elim: cursor_read_u8_at)
  obtain c2 where 2: "cursor_read_bytes c1 = Inr (bucket, c2)"
    "cursor_at c2 (field_bytes key @ field_bytes v @ rest)"
    using cursor_read_bytes_at [OF 1(2)] assms(2) OpPut by auto
  obtain c3 where 3: "cursor_read_bytes c2 = Inr (key, c3)" "cursor_at c3 (field_bytes v @ rest)"
    using cursor_read_bytes_at [OF 2(2)] assms(2) OpPut by auto
  obtain c4 where 4: "cursor_read_bytes c3 = Inr (v, c4)" "cursor_at c4 rest"
    using cursor_read_bytes_at [OF 3(2)] assms(2) OpPut by auto
  show ?thesis
    using that [of c4] 1 2 3 4 assms(3) OpPut by (simp add: decode_operation_def)
next
  case (OpDelete bucket key)
  obtain c1 where 1: "cursor_read_u8 c = Inr (OP_REMOVE, c1)"
    "cursor_at c1 (field_bytes bucket @ field_bytes key @ rest)"
    using assms(1) OpDelete by (auto elim: cursor_read_u8_at)
  obtain c2 where 2: "cursor_read_bytes c1 = Inr (bucket, c2)" "cursor_at c2 (field_bytes key @ rest)"
    using cursor_read_bytes_at [OF 1(2)] assms(2) OpDelete by auto
  obtain c3 where 3: "cursor_read_bytes c2 = Inr (key, c3)" "cursor_at c3 rest"
    using cursor_read_bytes_at [OF 2(2)] assms(2) OpDelete by auto
  show ?thesis
    using that [of c3] 1 2 3 assms(3) OpDelete by (simp add: decode_operation_def tag_defs)
next
  case (OpDeleteRange bucket r)
  obtain c1 where 1: "cursor_read_u8 c = Inr (OP_REMOVE_RANGE, c1)"
    "cursor_at c1 (field_bytes bucket @ bound_bytes (kr_start r) @ bound_bytes (kr_end r) @ rest)"
    using assms(1) OpDeleteRange by (auto elim: cursor_read_u8_at)
  obtain c2 where 2: "cursor_read_bytes c1 = Inr (bucket, c2)"
    "cursor_at c2 (bound_bytes (kr_start r) @ bound_bytes (kr_end r) @ rest)"
    using cursor_read_bytes_at [OF 1(2)] assms(2) OpDeleteRange by auto
  obtain c3 where 3: "cursor_read_bound c2 = Inr (kr_start r, c3)"
    "cursor_at c3 (bound_bytes (kr_end r) @ rest)"
    using cursor_read_bound_at [OF 2(2)] assms(2) OpDeleteRange by auto
  obtain c4 where 4: "cursor_read_bound c3 = Inr (kr_end r, c4)" "cursor_at c4 rest"
    using cursor_read_bound_at [OF 3(2)] assms(2) OpDeleteRange by auto
  show ?thesis
    using that [of c4] 1 2 3 4 assms(3) OpDeleteRange by (simp add: decode_operation_def tag_defs)
qed

lemma decode_operations_at:
  assumes "cursor_at c (concat (map op_bytes ops) @ rest)" "list_all op_fits ops"
    "list_all (\<lambda>op. valid_utf8 (op_bucket op)) ops"
  obtains c' where "decode_operations (length ops) c acc = Inr (acc @ ops, c')" "cursor_at c' rest"
  using assms
proof (induction ops arbitrary: c acc thesis)
  case (Cons op ops)
  obtain c1 where 1: "decode_operation c = Inr (op, c1)" "cursor_at c1 (concat (map op_bytes ops) @ rest)"
    using Cons.prems decode_operation_at [of c op "concat (map op_bytes ops) @ rest"] by auto
  obtain c2 where "decode_operations (length ops) c1 (acc @ [op]) = Inr ((acc @ [op]) @ ops, c2)"
    "cursor_at c2 rest"
    using Cons.IH [OF _ 1(2), of "acc @ [op]"] Cons.prems by auto
  then show ?case
    using Cons.prems(1) 1 by simp
qed simp

lemma op_bytes_min: "MIN_WAL_OPERATION_BYTES \<le> length (op_bytes op)"
proof -
  have "1 \<le> length (bound_bytes b)" for b
    by (cases b) simp_all
  from this [of "kr_start (case op of OpDeleteRange _ r \<Rightarrow> r)"]
    this [of "kr_end (case op of OpDeleteRange _ r \<Rightarrow> r)"]
  show ?thesis
    by (cases op) (auto simp: MIN_WAL_OPERATION_BYTES_def field_bytes_def)
qed

lemma length_concat_op_bytes: "length ops * MIN_WAL_OPERATION_BYTES \<le> length (concat (map op_bytes ops))"
  using op_bytes_min by (induction ops) (auto simp: add_mono)

lemma decode_payload_bytes:
  assumes "length ops < 2 ^ 32" "list_all op_fits ops" "list_all (\<lambda>op. valid_utf8 (op_bucket op)) ops"
    "length (payload_bytes seq ops) \<le> usize_max"
  shows "decode_payload (payload_bytes seq ops) = Inr \<lparr>wb_sequence = seq, wb_operations = ops\<rparr>"
proof -
  have "cursor_at (cursor_new (payload_bytes seq ops)) (payload_bytes seq ops)"
    using assms(4) by (auto simp: cursor_at_def cursor_new_def)
  then obtain c1 where 1: "cursor_read_u64 (cursor_new (payload_bytes seq ops)) = Inr (seq, c1)"
    "cursor_at c1 (le_bytes 4 (length ops) @ concat (map op_bytes ops))"
    using cursor_read_u64_at by (metis payload_bytes_def)
  obtain c2 where 2: "cursor_read_u32 c1 = Inr (word_of_nat (length ops), c2)"
    "cursor_at c2 (concat (map op_bytes ops) @ [])"
    using cursor_read_u32_at [OF 1(2) assms(1)] by auto
  obtain c3 where 3: "decode_operations (length ops) c2 [] = Inr ([] @ ops, c3)" "cursor_at c3 []"
    using decode_operations_at [OF 2(2) assms(2,3)] by blast
  have "cursor_remaining_len c2 = length (concat (map op_bytes ops))"
    using 2(2) by (auto simp: cursor_at_def cursor_remaining_len_def)
  then have "length ops \<le> cursor_remaining_len c2 div MIN_WAL_OPERATION_BYTES"
    using length_concat_op_bytes [of ops]
    by (simp add: less_eq_div_iff_mult_less_eq MIN_WAL_OPERATION_BYTES_def)
  moreover have "cursor_is_finished c3"
    using 3(2) by (auto simp: cursor_at_def cursor_is_finished_def)
  ultimately show ?thesis
    using 1 2 3 assms(1) by (simp add: decode_payload_def unat_of_nat Let_def not_less)
qed

text \<open>C30: Every commit whose payload encodes, and is at most the maximum frame payload, decodes to
  the same sequence and the same operations in the same order.\<close>
theorem wal_payload_roundtrip:
  assumes "encode_payload seq ops = Ok payload" "length payload \<le> MAX_WAL_FRAME_PAYLOAD_BYTES"
    and "list_all (\<lambda>op. valid_utf8 (op_bucket op)) ops"
  shows "decode_payload payload = Ok \<lparr>wb_sequence = seq, wb_operations = ops\<rparr>"
  using assms by (auto simp: encode_payload_Ok limit_defs usize_max_def intro!: decode_payload_bytes)

theorem wal_payload_roundtrip_witness:
  "\<exists>payload. encode_payload 7 [OpPut [98] [1] [2, 3], OpDeleteRange [98] key_range_all] = Ok payload \<and>
     decode_payload payload = Ok \<lparr>wb_sequence = 7,
       wb_operations = [OpPut [98] [1] [2, 3], OpDeleteRange [98] key_range_all]\<rparr>"
proof -
  let ?ops = "[OpPut [98] [1] [2, 3], OpDeleteRange [98] key_range_all]"
  have e: "encode_payload 7 ?ops = Ok (payload_bytes 7 ?ops)"
    by (simp add: encode_payload_Ok key_range_all_def)
  have "length (payload_bytes 7 ?ops) \<le> MAX_WAL_FRAME_PAYLOAD_BYTES"
    by (simp add: payload_bytes_def field_bytes_def key_range_all_def limit_defs)
  from wal_payload_roundtrip [OF e this] e show ?thesis
    by simp
qed

section \<open>Frames\<close>

lemma encode_batch_frame_Ok:
  "encode_batch_frame seq ops = Inr f \<longleftrightarrow>
     length ops < 2 ^ 32 \<and> list_all op_fits ops \<and>
     length (payload_bytes seq ops) \<le> MAX_WAL_FRAME_PAYLOAD_BYTES \<and>
     f = frame_bytes (payload_bytes seq ops)"
  by (auto simp: encode_batch_frame_def and_then_eq_Inr_iff encode_payload_Ok u32_try_from_def Let_def
      frame_bytes_def unat_of_nat limit_defs split: if_splits)

lemma length_frame_bytes: "length (frame_bytes p) = HEADER_LEN + length p"
  by (simp add: frame_bytes_def HEADER_LEN_def)

lemma header_checksum_bytes:
  assumes "length l = 4" "length p = 4"
  shows "header_checksum (word_of_nat (le_value l)) (word_of_nat (le_value p)) =
    checksum (le_bytes 4 (unat WAL_MAGIC) @ le_bytes 2 (unat WAL_FORMAT_VERSION) @ l @ p)"
proof -
  have "le_bytes 4 (unat (word_of_nat (le_value b) :: u32)) = b" if "length b = 4" for b
    using word_of_le_value_eq [of b "word_of_nat (le_value b) :: u32"] that by simp
  then show ?thesis
    using assms by (simp add: header_checksum_def)
qed

text \<open>Reading a header whose five fields are arbitrary bytes of the right lengths.\<close>
lemma decode_header_fields:
  assumes "length m = 4" "length v = 2" "length l = 4" "length h = 4" "length p = 4"
    and "length pre + HEADER_LEN \<le> usize_max"
  shows "decode_header (pre @ m @ v @ l @ h @ p @ post) (length pre) =
    (if m \<noteq> le_bytes 4 (unat WAL_MAGIC) then Inl (Corruption ''WAL magic mismatch'')
     else if v \<noteq> le_bytes 2 (unat WAL_FORMAT_VERSION) then Inl (UnsupportedFormat ''unsupported WAL version'')
     else if h \<noteq> le_bytes 4 (unat (checksum (m @ v @ l @ p)))
     then Inl (Corruption ''WAL header checksum mismatch'')
     else Inr (word_of_nat (le_value l), word_of_nat (le_value p)))"
proof -
  have r: "read_u32_at (pre @ m @ v @ l @ h @ p @ post) (length pre) = Inr (word_of_nat (le_value m))"
    "read_u16_at (pre @ m @ v @ l @ h @ p @ post) (length pre + 4) = Inr (word_of_nat (le_value v))"
    "read_u32_at (pre @ m @ v @ l @ h @ p @ post) (length pre + 6) = Inr (word_of_nat (le_value l))"
    "read_u32_at (pre @ m @ v @ l @ h @ p @ post) (length pre + 10) = Inr (word_of_nat (le_value h))"
    "read_u32_at (pre @ m @ v @ l @ h @ p @ post) (length pre + 14) = Inr (word_of_nat (le_value p))"
    using assms
      read_uint_at_append [of m 4 pre "''u32''" "v @ l @ h @ p @ post"]
      read_uint_at_append [of v 2 "pre @ m" "''u16''" "l @ h @ p @ post"]
      read_uint_at_append [of l 4 "pre @ m @ v" "''u32''" "h @ p @ post"]
      read_uint_at_append [of h 4 "pre @ m @ v @ l" "''u32''" "p @ post"]
      read_uint_at_append [of p 4 "pre @ m @ v @ l @ h" "''u32''" post]
    by (simp_all add: read_u32_at_def read_u16_at_def HEADER_LEN_def add.assoc)
  have w: "(word_of_nat (le_value m) = WAL_MAGIC) = (m = le_bytes 4 (unat WAL_MAGIC))"
    "(word_of_nat (le_value v) = WAL_FORMAT_VERSION) = (v = le_bytes 2 (unat WAL_FORMAT_VERSION))"
    "(word_of_nat (le_value h) = c) = (h = le_bytes 4 (unat c))" for c :: u32
    using assms by (simp_all add: word_of_le_value_eq)
  show ?thesis
    unfolding decode_header_def r and_then_simps w header_checksum_bytes [OF assms(3,5)] by auto
qed

text \<open>The header of an encoded frame announces its payload, whatever follows the header.\<close>
lemma decode_header_frame:
  assumes "length p \<le> MAX_WAL_FRAME_PAYLOAD_BYTES" "length pre + HEADER_LEN \<le> usize_max"
  shows "decode_header (pre @ take HEADER_LEN (frame_bytes p) @ post) (length pre) =
    Inr (word_of_nat (length p), checksum p)"
proof -
  define m v l h c where "m = le_bytes 4 (unat WAL_MAGIC)" and "v = le_bytes 2 (unat WAL_FORMAT_VERSION)"
    and "l = le_bytes 4 (length p)"
    and "h = le_bytes 4 (unat (header_checksum (word_of_nat (length p)) (checksum p)))"
    and "c = le_bytes 4 (unat (checksum p))"
  have lens: "length m = 4" "length v = 2" "length l = 4" "length h = 4" "length c = 4"
    by (simp_all add: m_def v_def l_def h_def c_def)
  have f: "take HEADER_LEN (frame_bytes p) = m @ v @ l @ h @ c"
    by (simp add: frame_bytes_def m_def v_def l_def h_def c_def HEADER_LEN_def)
  have lp: "le_value l = length p"
    using assms(1) by (simp add: l_def limit_defs)
  have lc: "word_of_nat (le_value c) = checksum p"
    using word_of_le_value_eq [of c "checksum p"] lens by (simp add: c_def)
  have "checksum (m @ v @ l @ c) = header_checksum (word_of_nat (length p)) (checksum p)"
    using header_checksum_bytes [of l c] lens lp lc by (simp add: m_def v_def)
  then show ?thesis
    using decode_header_fields [OF lens assms(2), of post] lp lc
    by (simp add: f m_def [symmetric] v_def [symmetric] h_def [symmetric])
qed

lemma frame_bytes_split: "frame_bytes p = take HEADER_LEN (frame_bytes p) @ p"
  by (simp add: frame_bytes_def HEADER_LEN_def)

lemma decode_frame_at_frame:
  assumes "encode_batch_frame seq ops = Inr frame" "list_all (\<lambda>op. valid_utf8 (op_bucket op)) ops"
    and "length pre + length frame + length post \<le> usize_max"
  shows "decode_frame_at (pre @ frame @ post) (length pre) replay_floor =
    Inr (Some (if seq > replay_floor then [\<lparr>wb_sequence = seq, wb_operations = ops\<rparr>] else [],
               length pre + length frame))"
proof -
  define p where "p = payload_bytes seq ops"
  have ok: "length ops < 2 ^ 32" "list_all op_fits ops" "length p \<le> MAX_WAL_FRAME_PAYLOAD_BYTES"
    and fr: "frame = frame_bytes p"
    using assms(1) by (auto simp: encode_batch_frame_Ok p_def)
  define h where "h = take HEADER_LEN (frame_bytes p)"
  have f: "frame = h @ p" "length h = HEADER_LEN"
    using frame_bytes_split [of p] length_frame_bytes [of p] by (simp_all add: fr h_def)
  have hd: "decode_header (pre @ frame @ post) (length pre) = Inr (word_of_nat (length p), checksum p)"
    using decode_header_frame [OF ok(3), of pre "p @ post"] assms(3) f by (simp add: h_def)
  have u: "unat (word_of_nat (length p) :: u32) = length p"
    using ok(3) by (simp add: unat_of_nat limit_defs)
  have "payload_sequence p = Inr seq"
    using le_bytes_word [of 8 seq]
    by (simp add: payload_sequence_def read_u64_at_def p_def payload_bytes_def usize_max_def
        read_uint_at_append [where pre = "[]", simplified])
  moreover have "decode_payload p = Inr \<lparr>wb_sequence = seq, wb_operations = ops\<rparr>"
    unfolding p_def using ok assms(2)
    by (intro decode_payload_bytes) (simp_all add: p_def limit_defs usize_max_def)
  ultimately show ?thesis
    using hd ok(3) assms(3) u f
    by (simp add: decode_frame_at_def Let_def ensure_invalid_format_len_def
        checked_add_invalid_format_def checked_add_usize_def)
qed

lemma decode_frame_at_torn:
  assumes "encode_batch_frame seq ops = Inr frame" "n < length frame"
    and "length pre + length frame \<le> usize_max"
  shows "decode_frame_at (pre @ take n frame) (length pre) replay_floor = Inr None"
proof (cases "n < HEADER_LEN")
  case True
  then show ?thesis
    using assms(2) by (simp add: decode_frame_at_def)
next
  case False
  define p where "p = payload_bytes seq ops"
  have ok: "length p \<le> MAX_WAL_FRAME_PAYLOAD_BYTES" and fr: "frame = frame_bytes p"
    using assms(1) by (auto simp: encode_batch_frame_Ok p_def)
  have len: "length frame = HEADER_LEN + length p"
    by (simp add: fr length_frame_bytes)
  have "take n frame = take HEADER_LEN frame @ take (n - HEADER_LEN) (drop HEADER_LEN frame)"
    using False by (metis le_add_diff_inverse not_le take_add)
  then have "decode_header (pre @ take n frame) (length pre) = Inr (word_of_nat (length p), checksum p)"
    using decode_header_frame [OF ok, of pre] assms(3) len by (simp add: fr)
  moreover have "unat (word_of_nat (length p) :: u32) = length p"
    using ok by (simp add: unat_of_nat limit_defs)
  ultimately show ?thesis
    using ok assms(2,3) False len
    by (simp add: decode_frame_at_def Let_def ensure_invalid_format_len_def
        checked_add_invalid_format_def checked_add_usize_def)
qed

lemma encode_batches_after_Ok:
  assumes "encode_batches_after batches replay_floor = Inr log"
  obtains frames where "log = concat frames"
    "list_all2 (\<lambda>b f. encode_batch_frame (wb_sequence b) (wb_operations b) = Inr f)
       (filter (\<lambda>b. wb_sequence b > replay_floor) batches) frames"
proof -
  have *: "\<exists>frames. log = acc @ concat frames \<and>
      list_all2 (\<lambda>b f. encode_batch_frame (wb_sequence b) (wb_operations b) = Inr f) bs frames"
    if "fold_result (\<lambda>batch acc. and_then (encode_batch_frame (wb_sequence batch) (wb_operations batch))
           (\<lambda>frame. Ok (acc @ frame))) bs acc = Inr log" for bs :: "wal_batch list" and acc
    using that
  proof (induction bs arbitrary: acc)
    case (Cons b bs)
    then obtain f where f: "encode_batch_frame (wb_sequence b) (wb_operations b) = Inr f"
      and r: "fold_result (\<lambda>batch acc. and_then (encode_batch_frame (wb_sequence batch) (wb_operations batch))
           (\<lambda>frame. Ok (acc @ frame))) bs (acc @ f) = Inr log"
      by (auto simp: and_then_eq_Inr_iff)
    from Cons.IH [OF r] obtain fs where "log = (acc @ f) @ concat fs"
      "list_all2 (\<lambda>b f. encode_batch_frame (wb_sequence b) (wb_operations b) = Inr f) bs fs"
      by blast
    then show ?case
      using f by (intro exI [of _ "f # fs"]) simp
  qed simp
  show ?thesis
    using * [of _ "[]"] assms that unfolding encode_batches_after_def by auto
qed

lemma frame_nonempty: "encode_batch_frame seq ops = Inr f \<Longrightarrow> 0 < length f"
  by (auto simp: encode_batch_frame_Ok length_frame_bytes HEADER_LEN_def)

text \<open>Decoding a run of encoded frames reaches the bytes after them with exactly the batches above
  the floor collected.\<close>
lemma decode_frames_loop_frames:
  assumes "list_all2 (\<lambda>b f. encode_batch_frame (wb_sequence b) (wb_operations b) = Inr f) bs frames"
    and "list_all (\<lambda>b. list_all (\<lambda>op. valid_utf8 (op_bucket op)) (wb_operations b)) bs"
    and "length pre + length (concat frames) + length post \<le> usize_max"
  shows "decode_frames_loop (pre @ concat frames @ post) (length pre) replay_floor acc =
    decode_frames_loop (pre @ concat frames @ post) (length pre + length (concat frames)) replay_floor
      (acc @ filter (\<lambda>b. wb_sequence b > replay_floor) bs)"
  using assms
proof (induction bs frames arbitrary: pre acc rule: list_all2_induct)
  case (Cons b bs f frames)
  have fr: "decode_frame_at (pre @ f @ concat frames @ post) (length pre) replay_floor =
    Inr (Some (if wb_sequence b > replay_floor then [b] else [], length pre + length f))"
    using decode_frame_at_frame [OF Cons.hyps(1), of pre "concat frames @ post"] Cons.prems by simp
  have "decode_frames_loop (pre @ concat (f # frames) @ post) (length pre) replay_floor acc =
    decode_frames_loop ((pre @ f) @ concat frames @ post) (length (pre @ f)) replay_floor
      (acc @ (if wb_sequence b > replay_floor then [b] else []))"
    using frame_nonempty [OF Cons.hyps(1)] fr
    by (subst decode_frames_loop.simps) simp
  also have "\<dots> = decode_frames_loop ((pre @ f) @ concat frames @ post)
      (length (pre @ f) + length (concat frames)) replay_floor
      ((acc @ (if wb_sequence b > replay_floor then [b] else []))
        @ filter (\<lambda>b. wb_sequence b > replay_floor) bs)"
    using Cons.prems by (intro Cons.IH) simp_all
  finally show ?case
    by (simp add: add.assoc)
qed simp

text \<open>C9: Crash recovery of a log. For any commits written with one floor and read with another, and
  for a crash that cut the next frame at any byte, decoding succeeds and returns exactly the complete
  commits above both floors, in order.\<close>
theorem wal_torn_log_roundtrip:
  assumes "encode_batches_after batches write_floor = Ok log"
    and "list_all (\<lambda>b. list_all (\<lambda>op. valid_utf8 (op_bucket op)) (wb_operations b)) batches"
    and "encode_batch_frame seq ops = Ok torn" "n < length torn"
    and "length log + length torn \<le> usize_max"
  shows "decode_frames_after (log @ take n torn) replay_floor =
    Ok (filter (\<lambda>b. wb_sequence b > write_floor \<and> wb_sequence b > replay_floor) batches)"
proof -
  let ?bs = "filter (\<lambda>b. wb_sequence b > write_floor) batches"
  obtain frames where fs: "log = concat frames"
    "list_all2 (\<lambda>b f. encode_batch_frame (wb_sequence b) (wb_operations b) = Inr f) ?bs frames"
    using encode_batches_after_Ok [OF assms(1)] .
  have v: "list_all (\<lambda>b. list_all (\<lambda>op. valid_utf8 (op_bucket op)) (wb_operations b)) ?bs"
    using assms(2) by (auto simp: list_all_iff)
  have "decode_frames_after (log @ take n torn) replay_floor =
    decode_frames_loop (log @ take n torn) (length log) replay_floor
      (filter (\<lambda>b. wb_sequence b > replay_floor) ?bs)"
    using decode_frames_loop_frames [OF fs(2) v, of "[]" "take n torn"] assms(4,5)
    by (simp add: decode_frames_after_def fs(1))
  also have "\<dots> = Ok (filter (\<lambda>b. wb_sequence b > replay_floor) ?bs)"
    using decode_frame_at_torn [OF assms(3,4), of log] assms(5)
    by (subst decode_frames_loop.simps) simp
  finally show ?thesis
    by (simp add: conj_commute)
qed

theorem wal_torn_log_roundtrip_witness:
  "\<exists>log torn. encode_batches_after [\<lparr>wb_sequence = 1, wb_operations = [OpPut [98] [1] [2]]\<rparr>,
       \<lparr>wb_sequence = 2, wb_operations = [OpDelete [98] [1]]\<rparr>] 0 = Ok log \<and>
     encode_batch_frame 3 [OpDelete [98] [2]] = Ok torn \<and> 20 < length torn \<and>
     decode_frames_after (log @ take 20 torn) 1 =
       Ok [\<lparr>wb_sequence = 2, wb_operations = [OpDelete [98] [1]]\<rparr>]"
proof -
  let ?b1 = "\<lparr>wb_sequence = 1, wb_operations = [OpPut [98] [1] [2]]\<rparr>"
  let ?b2 = "\<lparr>wb_sequence = 2, wb_operations = [OpDelete [98] [1]]\<rparr>"
  let ?f = "\<lambda>b. frame_bytes (payload_bytes (wb_sequence b) (wb_operations b))"
  let ?torn = "frame_bytes (payload_bytes 3 [OpDelete [98] [2]])"
  have f: "encode_batch_frame (wb_sequence b) (wb_operations b) = Ok (?f b)" if "b \<in> {?b1, ?b2}" for b
    using that by (auto simp: encode_batch_frame_Ok payload_bytes_def field_bytes_def limit_defs)
  have l: "encode_batches_after [?b1, ?b2] 0 = Ok (?f ?b1 @ ?f ?b2)"
    using f [of ?b1] f [of ?b2] by (simp add: encode_batches_after_def)
  have t: "encode_batch_frame 3 [OpDelete [98] [2]] = Ok ?torn"
    by (simp add: encode_batch_frame_Ok payload_bytes_def field_bytes_def limit_defs)
  have n: "20 < length ?torn" "length (?f ?b1 @ ?f ?b2) + length ?torn \<le> usize_max"
    by (simp_all add: length_frame_bytes HEADER_LEN_def payload_bytes_def field_bytes_def usize_max_def)
  show ?thesis
    using wal_torn_log_roundtrip [OF l _ t n, of 1] l t n by (intro exI conjI) auto
qed

section \<open>Detection of corrupted frames\<close>

lemma le_bytes_u32_inject: "le_bytes 4 (unat (a :: u32)) = le_bytes 4 (unat b) \<Longrightarrow> a = b"
proof -
  assume e: "le_bytes 4 (unat a) = le_bytes 4 (unat b)"
  have "le_value (le_bytes 4 (unat w)) = unat w" for w :: u32
    by (rule le_bytes_word) simp
  then show "a = b"
    using e by (metis word_unat_eq_iff)
qed

text \<open>One changed byte in the header of a frame fails one of the three header checks.\<close>
lemma decode_header_corrupt:
  assumes "length p \<le> MAX_WAL_FRAME_PAYLOAD_BYTES" "length pre + HEADER_LEN \<le> usize_max"
    and "i < HEADER_LEN" "b \<noteq> frame_bytes p ! i"
  shows "\<exists>e. decode_header (pre @ (frame_bytes p)[i := b] @ post) (length pre) = Inl e"
proof -
  define m v l h c where "m = le_bytes 4 (unat WAL_MAGIC)" and "v = le_bytes 2 (unat WAL_FORMAT_VERSION)"
    and "l = le_bytes 4 (length p)"
    and "h = le_bytes 4 (unat (header_checksum (word_of_nat (length p)) (checksum p)))"
    and "c = le_bytes 4 (unat (checksum p))"
  have lens: "length m = 4" "length v = 2" "length l = 4" "length h = 4" "length c = 4"
    by (simp_all add: m_def v_def l_def h_def c_def)
  have f: "frame_bytes p = m @ v @ l @ h @ c @ p"
    by (simp add: frame_bytes_def m_def v_def l_def h_def c_def)
  have hc: "h = le_bytes 4 (unat (crc32c (m @ v @ l @ c)))"
  proof -
    have "word_of_nat (le_value c) = checksum p" "le_value l = length p"
      using word_of_le_value_eq [of c "checksum p"] lens assms(1)
      by (simp_all add: c_def l_def limit_defs)
    then show ?thesis
      using header_checksum_bytes [of l c] lens by (simp add: h_def m_def v_def checksum_def)
  qed
  note dh = decode_header_fields [OF _ _ _ _ _ assms(2)]
  consider "i < 4" | "4 \<le> i" "i < 6" | "6 \<le> i" "i < 10" | "10 \<le> i" "i < 14" | "14 \<le> i" "i < 18"
    using assms(3) unfolding HEADER_LEN_def by linarith
  then show ?thesis
  proof cases
    case 1
    then have e: "(frame_bytes p)[i := b] = m[i := b] @ v @ l @ h @ c @ p" "m[i := b] \<noteq> m"
      using assms(4) lens by (auto simp: f list_update_append nth_append list_update_same_conv split: if_splits)
    show ?thesis
      using dh [of "m[i := b]" v l h c "p @ post"] e lens by (simp add: m_def)
  next
    case 2
    then have e: "(frame_bytes p)[i := b] = m @ v[i - 4 := b] @ l @ h @ c @ p" "v[i - 4 := b] \<noteq> v"
      using assms(4) lens by (auto simp: f list_update_append nth_append list_update_same_conv split: if_splits)
    show ?thesis
      using dh [of m "v[i - 4 := b]" l h c "p @ post"] e lens by (simp add: m_def v_def)
  next
    case 3
    then have e: "(frame_bytes p)[i := b] = m @ v @ l[i - 6 := b] @ h @ c @ p"
      and x: "m @ v @ l[i - 6 := b] @ c = (m @ v @ l @ c)[i := b]" "b \<noteq> (m @ v @ l @ c) ! i"
      using assms(4) lens by (auto simp: f list_update_append nth_append split: if_splits)
    have "crc32c (m @ v @ l[i - 6 := b] @ c) \<noteq> crc32c (m @ v @ l @ c)"
      unfolding x(1) using x(2) 3 lens by (intro crc32c_list_update) simp_all
    then have "h \<noteq> le_bytes 4 (unat (checksum (m @ v @ l[i - 6 := b] @ c)))"
      using hc le_bytes_u32_inject by (metis checksum_def)
    then show ?thesis
      using dh [of m v "l[i - 6 := b]" h c "p @ post"] e lens
      by (simp add: m_def [symmetric] v_def [symmetric])
  next
    case 4
    then have e: "(frame_bytes p)[i := b] = m @ v @ l @ h[i - 10 := b] @ c @ p" "h[i - 10 := b] \<noteq> h"
      using assms(4) lens by (auto simp: f list_update_append nth_append list_update_same_conv split: if_splits)
    then show ?thesis
      using dh [of m v l "h[i - 10 := b]" c "p @ post"] lens hc
      by (simp add: checksum_def m_def [symmetric] v_def [symmetric])
  next
    case 5
    then have e: "(frame_bytes p)[i := b] = m @ v @ l @ h @ c[i - 14 := b] @ p"
      and x: "m @ v @ l @ c[i - 14 := b] = (m @ v @ l @ c)[i - 4 := b]" "b \<noteq> (m @ v @ l @ c) ! (i - 4)"
      using assms(4) lens by (auto simp: f list_update_append nth_append split: if_splits)
    have "crc32c (m @ v @ l @ c[i - 14 := b]) \<noteq> crc32c (m @ v @ l @ c)"
      unfolding x(1) using x(2) 5 lens by (intro crc32c_list_update) simp_all
    then have "h \<noteq> le_bytes 4 (unat (checksum (m @ v @ l @ c[i - 14 := b])))"
      using hc le_bytes_u32_inject by (metis checksum_def)
    then show ?thesis
      using dh [of m v l h "c[i - 14 := b]" "p @ post"] e lens
      by (simp add: m_def [symmetric] v_def [symmetric])
  qed
qed

lemma decode_frame_at_corrupt:
  assumes "encode_batch_frame seq ops = Inr frame" "i < length frame" "b \<noteq> frame ! i"
    and "length pre + length frame + length post \<le> usize_max"
  shows "\<exists>e. decode_frame_at (pre @ frame[i := b] @ post) (length pre) replay_floor = Inl e"
proof -
  define p where "p = payload_bytes seq ops"
  have ok: "length p \<le> MAX_WAL_FRAME_PAYLOAD_BYTES" and fr: "frame = frame_bytes p"
    using assms(1) by (auto simp: encode_batch_frame_Ok p_def)
  have len: "length frame = HEADER_LEN + length p"
    by (simp add: fr length_frame_bytes)
  have pre: "length pre + HEADER_LEN \<le> usize_max"
    using assms(4) len by simp
  show ?thesis
  proof (cases "i < HEADER_LEN")
    case True
    then obtain e where "decode_header (pre @ frame[i := b] @ post) (length pre) = Inl e"
      using decode_header_corrupt [OF ok pre True] assms(3) fr by blast
    then show ?thesis
      using len by (simp add: decode_frame_at_def)
  next
    case False
    define j where "j = i - HEADER_LEN"
    define h where "h = take HEADER_LEN frame"
    have h: "frame = h @ p" "length h = HEADER_LEN"
      using frame_bytes_split [of p] len by (simp_all add: h_def fr)
    then have f: "frame[i := b] = h @ p[j := b]" "j < length p" "b \<noteq> p ! j"
      using False assms(2,3) len by (auto simp: j_def list_update_append nth_append)
    have hd: "decode_header (pre @ frame[i := b] @ post) (length pre) = Inr (word_of_nat (length p), checksum p)"
      using decode_header_frame [OF ok pre, of "p[j := b] @ post"] unfolding f(1)
      by (simp add: h_def fr)
    have "checksum (p[j := b]) \<noteq> checksum p"
      unfolding checksum_def using f(2,3) by (rule crc32c_list_update)
    moreover have "unat (word_of_nat (length p) :: u32) = length p"
      using ok by (simp add: unat_of_nat limit_defs)
    ultimately show ?thesis
      using hd ok assms(4) f h
      by (simp add: decode_frame_at_def Let_def ensure_invalid_format_len_def
          checked_add_invalid_format_def checked_add_usize_def)
  qed
qed

text \<open>C23: Corruption is never silent: in a log of complete commits, replacing any single byte of any
  complete frame by another byte makes decoding of the log fail, wherever in the log the frame is and
  whatever follows it.\<close>
theorem wal_byte_corruption_detected:
  assumes "encode_batches_after batches write_floor = Ok log"
    and "list_all (\<lambda>b. list_all (\<lambda>op. valid_utf8 (op_bucket op)) (wb_operations b)) batches"
    and "encode_batch_frame seq ops = Ok frame" "i < length frame" "b \<noteq> frame ! i"
    and "length log + length frame + length rest \<le> usize_max"
  shows "\<exists>e. decode_frames_after (log @ frame[i := b] @ rest) replay_floor = Err e"
proof -
  let ?bs = "filter (\<lambda>b. wb_sequence b > write_floor) batches"
  obtain frames where fs: "log = concat frames"
    "list_all2 (\<lambda>b f. encode_batch_frame (wb_sequence b) (wb_operations b) = Inr f) ?bs frames"
    using encode_batches_after_Ok [OF assms(1)] .
  have v: "list_all (\<lambda>b. list_all (\<lambda>op. valid_utf8 (op_bucket op)) (wb_operations b)) ?bs"
    using assms(2) by (auto simp: list_all_iff)
  obtain e where e: "decode_frame_at (log @ frame[i := b] @ rest) (length log) replay_floor = Inl e"
    using decode_frame_at_corrupt [OF assms(3-6)] by blast
  have "decode_frames_after (log @ frame[i := b] @ rest) replay_floor =
    decode_frames_loop (log @ frame[i := b] @ rest) (length log) replay_floor
      (filter (\<lambda>b. wb_sequence b > replay_floor) ?bs)"
    using decode_frames_loop_frames [OF fs(2) v, of "[]" "frame[i := b] @ rest"] assms(6)
    by (simp add: decode_frames_after_def fs(1))
  also have "\<dots> = Err e"
    using e assms(4) by (subst decode_frames_loop.simps) auto
  finally show ?thesis
    by blast
qed

theorem wal_byte_corruption_detected_witness:
  "\<exists>frame. encode_batch_frame 3 [OpDelete [98] [2]] = Ok frame \<and> 25 < length frame \<and>
     (\<exists>e. decode_frames_after ([] @ frame[25 := frame ! 25 + 1] @ []) 0 = Err e)"
proof -
  let ?f = "frame_bytes (payload_bytes 3 [OpDelete [98] [2]])"
  have t: "encode_batch_frame 3 [OpDelete [98] [2]] = Ok ?f"
    by (simp add: encode_batch_frame_Ok payload_bytes_def field_bytes_def limit_defs)
  have n: "25 < length ?f" "length ([] :: bytes) + length ?f + length ([] :: bytes) \<le> usize_max"
    by (simp_all add: length_frame_bytes HEADER_LEN_def payload_bytes_def field_bytes_def usize_max_def)
  have "encode_batches_after [] 0 = Ok []"
    by (simp add: encode_batches_after_def)
  from wal_byte_corruption_detected [OF this _ t n(1) _ n(2), of "?f ! 25 + 1" 0] show ?thesis
    using t n by (intro exI [of _ ?f]) simp
qed

end
