(* ===== verification/Wal_Recovery.thy ===== *)
theory Wal_Recovery
  imports Wal_Codec
begin

text \<open>
  Recovery of the write-ahead log (\<^verbatim>\<open>src/src/wal/recovery.rs\<close>, \<^verbatim>\<open>src/src/wal/lane.rs\<close> and the file-name
  part of \<^verbatim>\<open>src/src/wal/codec.rs\<close>): order checks and the merge of the per-shard streams, the confirmed
  sequence marker, and the names of the log files. A path is its last component; reading the file
  itself is the argument of the functions that decode it.

  Shown here: the merge succeeds exactly on strictly increasing, pairwise disjoint streams and then
  returns all commits in sequence order; the marker survives encoding and rejects every changed byte;
  generated file names parse back to what they were generated from.
\<close>

section \<open>Streams\<close>

fun validate_wal_stream_order_from :: "sequence \<Rightarrow> wal_batch list \<Rightarrow> unit result" where
  "validate_wal_stream_order_from last_seen [] = Ok ()"
| "validate_wal_stream_order_from last_seen (batch # batches) =
     (if wb_sequence batch \<le> last_seen
      then Err (invalid_wal ''WAL stream sequence did not increase'')
      else validate_wal_stream_order_from (wb_sequence batch) batches)"

definition validate_wal_stream_order :: "wal_batch list \<Rightarrow> unit result" where
  "validate_wal_stream_order batches = validate_wal_stream_order_from 0 batches"

fun has_duplicate_neighbours :: "wal_batch list \<Rightarrow> bool" where
  "has_duplicate_neighbours (a # b # r) =
     (wb_sequence a = wb_sequence b \<or> has_duplicate_neighbours (b # r))"
| "has_duplicate_neighbours _ = False"

definition merge_batch_streams_by_sequence :: "wal_batch list list \<Rightarrow> wal_batch list result" where
  "merge_batch_streams_by_sequence streams =
     and_then (fold_result (\<lambda>stream merged.
         and_then (validate_wal_stream_order stream) (\<lambda>_. Ok (merged @ stream))) streams [])
       (\<lambda>merged.
         let sorted_batches = sort_key wb_sequence merged
         in if has_duplicate_neighbours sorted_batches
            then Err (invalid_wal ''duplicate WAL sequence across streams'')
            else Ok sorted_batches)"

section \<open>The confirmed marker\<close>

definition WAL_CONFIRMED_MAGIC :: u32 where "WAL_CONFIRMED_MAGIC = 0x54525743"
definition WAL_CONFIRMED_VERSION :: u16 where "WAL_CONFIRMED_VERSION = 1"
definition WAL_CONFIRMED_LEN :: usize where "WAL_CONFIRMED_LEN = 18"

definition validate_confirmed_wal_coverage ::
  "sequence \<Rightarrow> sequence option \<Rightarrow> wal_batch list \<Rightarrow> unit result" where
  "validate_confirmed_wal_coverage replay_floor confirmed batches =
     (case confirmed of
        None \<Rightarrow> Ok ()
      | Some confirmed_sequence \<Rightarrow>
          if confirmed_sequence \<le> replay_floor then Ok ()
          else
            let last_sequence =
              (if batches = [] then replay_floor else Max (set (map wb_sequence batches)))
            in if last_sequence \<ge> confirmed_sequence then Ok ()
               else Err (Corruption ''WAL ended before confirmed sequence''))"

definition encode_confirmed_wal_marker :: "sequence \<Rightarrow> bytes" where
  "encode_confirmed_wal_marker seq =
     (let bs = le_bytes 4 (unat WAL_CONFIRMED_MAGIC) @ le_bytes 2 (unat WAL_CONFIRMED_VERSION) @
               le_bytes 8 (unat seq)
      in bs @ le_bytes 4 (unat (checksum bs)))"

definition decode_confirmed_wal_marker :: "bytes \<Rightarrow> sequence result" where
  "decode_confirmed_wal_marker bs =
     (if length bs \<noteq> WAL_CONFIRMED_LEN
      then Err (invalid_wal ''confirmed WAL marker length mismatch'')
      else
        and_then (read_u32_at bs 0) (\<lambda>magic.
        and_then (read_u16_at bs 4) (\<lambda>version.
        and_then (read_u64_at bs 6) (\<lambda>seq.
        and_then (read_u32_at bs 14) (\<lambda>actual_checksum.
          if magic \<noteq> WAL_CONFIRMED_MAGIC
          then Err (invalid_wal ''confirmed WAL marker magic mismatch'')
          else if version \<noteq> WAL_CONFIRMED_VERSION
          then Err (UnsupportedFormat ''unsupported confirmed WAL marker version'')
          else if checksum (take 14 bs) \<noteq> actual_checksum
          then Err (invalid_wal ''confirmed WAL marker checksum mismatch'')
          else Ok seq)))))"

text \<open>Reading one log file: its marker and its bytes are what the storage backend returned.\<close>
definition read_batches_after ::
  "bytes option \<Rightarrow> bytes option \<Rightarrow> sequence \<Rightarrow> wal_batch list result" where
  "read_batches_after marker_bytes wal_bytes replay_floor =
     and_then (case marker_bytes of
         None \<Rightarrow> Ok None
       | Some bs \<Rightarrow> and_then (decode_confirmed_wal_marker bs) (\<lambda>s. Ok (Some s))) (\<lambda>confirmed.
       case wal_bytes of
         None \<Rightarrow> and_then (validate_confirmed_wal_coverage replay_floor confirmed []) (\<lambda>_. Ok [])
       | Some bs \<Rightarrow>
           and_then (decode_frames_after bs replay_floor) (\<lambda>batches.
           and_then (validate_confirmed_wal_coverage replay_floor confirmed batches)
             (\<lambda>_. Ok batches)))"

definition read_recovery_streams_after ::
  "(bytes option \<times> bytes option) list \<Rightarrow> sequence \<Rightarrow> wal_batch list list result" where
  "read_recovery_streams_after files replay_floor =
     map_result (\<lambda>(marker, wal). read_batches_after marker wal replay_floor) files"

section \<open>File names\<close>

definition WAL_FILE_NAME :: string where "WAL_FILE_NAME = ''trine.wal''"
definition WAL_REWRITE_TMP_FILE_NAME :: string where "WAL_REWRITE_TMP_FILE_NAME = ''trine.wal.tmp''"
definition WAL_SHARD_FILE_PREFIX :: string where "WAL_SHARD_FILE_PREFIX = ''trine.wal.shard-''"
definition WAL_SHARD_FILE_DIGITS :: usize where "WAL_SHARD_FILE_DIGITS = 4"
definition WAL_CONFIRMED_FILE_PREFIX :: string where
  "WAL_CONFIRMED_FILE_PREFIX = ''trine.wal.confirmed-''"
definition OBJECT_WAL_FILE_PREFIX :: string where "OBJECT_WAL_FILE_PREFIX = ''trine.wal.epoch-''"
definition OBJECT_WAL_COMMIT_MARKER :: string where "OBJECT_WAL_COMMIT_MARKER = ''.commit-''"
definition OBJECT_WAL_REWRITE_PREFIX :: string where
  "OBJECT_WAL_REWRITE_PREFIX = ''trine.wal.rewrite-epoch-''"
definition OBJECT_WAL_REWRITE_MARKER :: string where "OBJECT_WAL_REWRITE_MARKER = ''.after-''"
definition OBJECT_WAL_FILE_SUFFIX :: string where "OBJECT_WAL_FILE_SUFFIX = ''.trinewal''"
definition OBJECT_WAL_SEQUENCE_DIGITS :: usize where "OBJECT_WAL_SEQUENCE_DIGITS = 20"

text \<open>The string operations of the standard library that the parsers use.\<close>

definition strip_prefix :: "string \<Rightarrow> string \<Rightarrow> string option" where
  "strip_prefix p s = (if take (length p) s = p then Some (drop (length p) s) else None)"

definition strip_suffix :: "string \<Rightarrow> string \<Rightarrow> string option" where
  "strip_suffix p s = map_option rev (strip_prefix (rev p) (rev s))"

fun split_once :: "string \<Rightarrow> string \<Rightarrow> (string \<times> string) option" where
  "split_once sep s =
     (case strip_prefix sep s of
        Some rest \<Rightarrow> Some ([], rest)
      | None \<Rightarrow> (case s of [] \<Rightarrow> None
                  | c # cs \<Rightarrow> map_option (\<lambda>(a, b). (c # a, b)) (split_once sep cs)))"

definition is_ascii_digit :: "char \<Rightarrow> bool" where
  "is_ascii_digit c = (48 \<le> (of_char c :: nat) \<and> (of_char c :: nat) \<le> 57)"

definition is_ascii_hexdigit :: "char \<Rightarrow> bool" where
  "is_ascii_hexdigit c =
     (is_ascii_digit c \<or> (97 \<le> (of_char c :: nat) \<and> (of_char c :: nat) \<le> 102) \<or>
      (65 \<le> (of_char c :: nat) \<and> (of_char c :: nat) \<le> 70))"

definition parse_digits :: "string \<Rightarrow> nat" where
  "parse_digits s = fold (\<lambda>c n. n * 10 + ((of_char c :: nat) - 48)) s 0"

text \<open>\<^verbatim>\<open>format!("{n:0width$}")\<close>: at least \<open>width\<close> decimal digits.\<close>
fun digits_of :: "nat \<Rightarrow> nat \<Rightarrow> string" where
  "digits_of 0 n = []"
| "digits_of (Suc w) n = digits_of w (n div 10) @ [char_of (48 + n mod 10)]"

fun decimal_digits :: "nat \<Rightarrow> nat" where
  "decimal_digits n = (if n < 10 then 1 else Suc (decimal_digits (n div 10)))"

definition format_padded :: "nat \<Rightarrow> nat \<Rightarrow> string" where
  "format_padded width n = digits_of (max width (decimal_digits n)) n"

definition wal_shard_file_name :: "usize \<Rightarrow> string" where
  "wal_shard_file_name shard_index =
     (if shard_index = 0 then WAL_FILE_NAME
      else WAL_SHARD_FILE_PREFIX @ format_padded WAL_SHARD_FILE_DIGITS shard_index)"

definition wal_shard_index_from_final_file_name :: "string \<Rightarrow> usize option result" where
  "wal_shard_index_from_final_file_name file_name =
     (case strip_prefix WAL_SHARD_FILE_PREFIX file_name of
        None \<Rightarrow> Ok None
      | Some suffix \<Rightarrow>
          if length suffix \<noteq> WAL_SHARD_FILE_DIGITS \<or> \<not> list_all is_ascii_digit suffix
          then Err (Corruption ''malformed WAL shard file name'')
          else if parse_digits suffix = 0
          then Err (Corruption ''WAL shard 0 must use the legacy trine.wal file name'')
          else Ok (Some (parse_digits suffix)))"

definition is_wal_rewrite_temporary_file_name :: "string \<Rightarrow> bool" where
  "is_wal_rewrite_temporary_file_name file_name =
     (if file_name = WAL_REWRITE_TMP_FILE_NAME then True
      else case strip_suffix ''.tmp'' file_name of
        None \<Rightarrow> False
      | Some final_name \<Rightarrow>
          (case wal_shard_index_from_final_file_name final_name of
             Inr (Some _) \<Rightarrow> True | _ \<Rightarrow> False))"

definition wal_shard_index_from_file_name :: "string \<Rightarrow> usize option result" where
  "wal_shard_index_from_file_name file_name =
     (if file_name = WAL_FILE_NAME then Ok (Some 0)
      else if is_wal_rewrite_temporary_file_name file_name then Ok None
      else wal_shard_index_from_final_file_name file_name)"

definition discover_wal_paths_from_directory_entries :: "string list \<Rightarrow> string list result" where
  "discover_wal_paths_from_directory_entries files =
     and_then (fold_result (\<lambda>file_name paths.
         and_then (wal_shard_index_from_file_name file_name) (\<lambda>index.
           case index of
             None \<Rightarrow> Ok paths
           | Some shard_index \<Rightarrow>
               if map_of paths shard_index \<noteq> None then Err (invalid_wal ''duplicate WAL shard file'')
               else Ok (btree_insert shard_index file_name paths))) files [])
       (\<lambda>paths. Ok (map snd paths))"

definition wal_rewrite_tmp_file_name :: "string \<Rightarrow> string" where
  "wal_rewrite_tmp_file_name file_name =
     (if file_name = WAL_FILE_NAME then WAL_REWRITE_TMP_FILE_NAME else file_name @ ''.tmp'')"

definition wal_confirmed_marker_file_name :: "string \<Rightarrow> string option result" where
  "wal_confirmed_marker_file_name file_name =
     and_then (wal_shard_index_from_file_name file_name) (\<lambda>index.
       Ok (map_option (\<lambda>shard_index.
         WAL_CONFIRMED_FILE_PREFIX @ format_padded WAL_SHARD_FILE_DIGITS shard_index) index))"

definition object_wal_commit_file_name :: "u64 \<Rightarrow> sequence \<Rightarrow> string \<Rightarrow> string" where
  "object_wal_commit_file_name epoch seq identity =
     OBJECT_WAL_FILE_PREFIX @ format_padded OBJECT_WAL_SEQUENCE_DIGITS (unat epoch) @
     OBJECT_WAL_COMMIT_MARKER @ format_padded OBJECT_WAL_SEQUENCE_DIGITS (unat seq) @
     ''-'' @ identity @ OBJECT_WAL_FILE_SUFFIX"

definition object_wal_rewrite_file_name :: "u64 \<Rightarrow> sequence \<Rightarrow> string \<Rightarrow> string" where
  "object_wal_rewrite_file_name epoch seq identity =
     OBJECT_WAL_REWRITE_PREFIX @ format_padded OBJECT_WAL_SEQUENCE_DIGITS (unat epoch) @
     OBJECT_WAL_REWRITE_MARKER @ format_padded OBJECT_WAL_SEQUENCE_DIGITS (unat seq) @
     ''-'' @ identity @ OBJECT_WAL_FILE_SUFFIX"

definition object_wal_tail :: "string \<Rightarrow> sequence option result" where
  "object_wal_tail rest =
     (case strip_suffix OBJECT_WAL_FILE_SUFFIX rest of
        None \<Rightarrow> Ok None
      | Some sequence_and_identity \<Rightarrow>
          (case split_once ''-'' sequence_and_identity of
             None \<Rightarrow> Err (Corruption ''object WAL file name lacks a content identity'')
           | Some (seq, identity) \<Rightarrow>
               if length identity \<noteq> 64 \<or> \<not> list_all is_ascii_hexdigit identity
               then Err (Corruption ''malformed object WAL file name'')
               else if length seq \<noteq> OBJECT_WAL_SEQUENCE_DIGITS \<or> \<not> list_all is_ascii_digit seq
               then Err (Corruption ''malformed object WAL file name'')
               else if parse_digits seq \<ge> 2 ^ 64
               then Err (Corruption ''malformed object WAL file name'')
               else Ok (Some (word_of_nat (parse_digits seq)))))"

definition object_wal_sequence_from_path :: "string \<Rightarrow> sequence option result" where
  "object_wal_sequence_from_path file_name =
     (case strip_prefix OBJECT_WAL_FILE_PREFIX file_name of
        Some rest \<Rightarrow>
          (case split_once OBJECT_WAL_COMMIT_MARKER rest of
             None \<Rightarrow> Ok None
           | Some (_, r) \<Rightarrow> object_wal_tail r)
      | None \<Rightarrow>
          (case strip_prefix OBJECT_WAL_REWRITE_PREFIX file_name of
             Some rest \<Rightarrow>
               (case split_once OBJECT_WAL_REWRITE_MARKER rest of
                  None \<Rightarrow> Ok None
                | Some (_, r) \<Rightarrow> object_wal_tail r)
           | None \<Rightarrow> Ok None))"

section \<open>Lemmas on streams\<close>

declare split_once.simps [simp del] decimal_digits.simps [simp del]

lemma validate_order_from_Ok:
  "validate_wal_stream_order_from s bs = Inr u \<longleftrightarrow> sorted_wrt (<) (s # map wb_sequence bs)"
proof (induction bs arbitrary: s)
  case (Cons b bs)
  then show ?case
    by (auto simp: not_le intro: less_trans)
qed simp

lemma validate_wal_stream_order_Ok:
  "validate_wal_stream_order bs = Inr u \<longleftrightarrow>
     sorted_wrt (<) (map wb_sequence bs) \<and> (\<forall>b\<in>set bs. 0 < wb_sequence b)"
  by (auto simp: validate_wal_stream_order_def validate_order_from_Ok)

lemma fold_validate_Ok:
  "fold_result (\<lambda>stream merged.
      and_then (validate_wal_stream_order stream) (\<lambda>_. Ok (merged @ stream))) streams acc = Inr merged \<longleftrightarrow>
   (\<forall>s\<in>set streams. is_ok (validate_wal_stream_order s)) \<and> merged = acc @ concat streams"
  by (induction streams arbitrary: acc) (auto simp: and_then_eq_Inr_iff is_ok_iff)

lemma no_duplicate_neighbours:
  "sorted (map wb_sequence bs) \<Longrightarrow>
     \<not> has_duplicate_neighbours bs \<longleftrightarrow> distinct (map wb_sequence bs)"
proof (induction bs rule: has_duplicate_neighbours.induct)
  case (1 a b r)
  then have "\<forall>c\<in>set r. wb_sequence b \<le> wb_sequence c"
    by simp
  then show ?case
    using 1 by (force simp: order.order_iff_strict)
qed auto

lemma merge_streams_Ok:
  "merge_batch_streams_by_sequence streams = Inr merged \<longleftrightarrow>
     (\<forall>s\<in>set streams. is_ok (validate_wal_stream_order s)) \<and>
     distinct (map wb_sequence (concat streams)) \<and>
     merged = sort_key wb_sequence (concat streams)"
proof -
  have "distinct (map wb_sequence (sort_key wb_sequence xs)) \<longleftrightarrow> distinct (map wb_sequence xs)"
    for xs :: "wal_batch list"
    by (rule mset_eq_imp_distinct_iff) simp
  then have "\<not> has_duplicate_neighbours (sort_key wb_sequence xs) \<longleftrightarrow> distinct (map wb_sequence xs)" for xs
    using no_duplicate_neighbours [of "sort_key wb_sequence xs"] by simp
  then show ?thesis
    by (auto simp: merge_batch_streams_by_sequence_def and_then_eq_Inr_iff fold_validate_Ok Let_def)
qed

text \<open>C10: Merging the recovered shard streams succeeds exactly when each stream is strictly
  increasing from a positive sequence and no sequence occurs twice; the result is then the strictly
  increasing list of all commits of all streams.\<close>
theorem merge_streams_exact:
  "(case merge_batch_streams_by_sequence streams of
      Inl _ \<Rightarrow> \<not> (list_all (\<lambda>s. sorted_wrt (<) (0 # map wb_sequence s)) streams \<and>
                 distinct (map wb_sequence (concat streams)))
    | Inr merged \<Rightarrow>
        list_all (\<lambda>s. sorted_wrt (<) (0 # map wb_sequence s)) streams \<and>
        sorted_wrt (<) (0 # map wb_sequence merged) \<and> mset merged = mset (concat streams))"
proof -
  let ?m = "sort_key wb_sequence (concat streams)"
  have ok: "is_ok (validate_wal_stream_order s) \<longleftrightarrow> sorted_wrt (<) (0 # map wb_sequence s)" for s
    by (simp add: validate_wal_stream_order_def is_ok_iff validate_order_from_Ok)
  show ?thesis
  proof (cases "merge_batch_streams_by_sequence streams")
    case (Inl e)
    then show ?thesis
      using merge_streams_Ok [of streams ?m] ok by (auto simp: list_all_iff)
  next
    case (Inr merged)
    then have m: "\<forall>s\<in>set streams. is_ok (validate_wal_stream_order s)"
      "distinct (map wb_sequence (concat streams))" "merged = ?m"
      by (simp_all add: merge_streams_Ok)
    have "distinct (map wb_sequence ?m)"
      using m(2) mset_eq_imp_distinct_iff [of "map wb_sequence ?m" "map wb_sequence (concat streams)"]
      by simp
    then have "sorted_wrt (<) (map wb_sequence merged)"
      by (simp add: m(3) strict_sorted_iff)
    moreover have "\<forall>b\<in>set merged. 0 < wb_sequence b"
      using m(1) by (auto simp: m(3) is_ok_iff validate_wal_stream_order_Ok)
    ultimately show ?thesis
      using Inr m ok by (simp add: list_all_iff)
  qed
qed

section \<open>Lemmas on the marker\<close>

lemma decode_marker_fields:
  assumes "length m = 4" "length v = 2" "length q = 8" "length c = 4"
  shows "decode_confirmed_wal_marker (m @ v @ q @ c) =
    (if m \<noteq> le_bytes 4 (unat WAL_CONFIRMED_MAGIC)
     then Inl (invalid_wal ''confirmed WAL marker magic mismatch'')
     else if v \<noteq> le_bytes 2 (unat WAL_CONFIRMED_VERSION)
     then Inl (UnsupportedFormat ''unsupported confirmed WAL marker version'')
     else if c \<noteq> le_bytes 4 (unat (checksum (m @ v @ q)))
     then Inl (invalid_wal ''confirmed WAL marker checksum mismatch'')
     else Inr (word_of_nat (le_value q)))"
proof -
  have r: "read_u32_at (m @ v @ q @ c) 0 = Inr (word_of_nat (le_value m))"
    "read_u16_at (m @ v @ q @ c) 4 = Inr (word_of_nat (le_value v))"
    "read_u64_at (m @ v @ q @ c) 6 = Inr (word_of_nat (le_value q))"
    "read_u32_at (m @ v @ q @ c) 14 = Inr (word_of_nat (le_value c))"
    using assms
      read_uint_at_append [of m 4 "[]" "''u32''" "v @ q @ c"]
      read_uint_at_append [of v 2 m "''u16''" "q @ c"]
      read_uint_at_append [of q 8 "m @ v" "''u64''" c]
      read_uint_at_append [of c 4 "m @ v @ q" "''u32''" "[]"]
    by (simp_all add: read_u32_at_def read_u16_at_def read_u64_at_def usize_max_def)
  have w: "(word_of_nat (le_value m) = WAL_CONFIRMED_MAGIC) = (m = le_bytes 4 (unat WAL_CONFIRMED_MAGIC))"
    "(word_of_nat (le_value v) = WAL_CONFIRMED_VERSION) = (v = le_bytes 2 (unat WAL_CONFIRMED_VERSION))"
    using assms by (simp_all add: word_of_le_value_eq)
  have x: "(x = word_of_nat (le_value c)) = (c = le_bytes 4 (unat x))" for x :: u32
    using assms word_of_le_value_eq [of c x] by (subst eq_commute) simp
  have l: "length (m @ v @ q @ c) = WAL_CONFIRMED_LEN" "take 14 (m @ v @ q @ c) = m @ v @ q"
    using assms by (simp_all add: WAL_CONFIRMED_LEN_def)
  show ?thesis
    unfolding decode_confirmed_wal_marker_def l r and_then_simps w x by auto
qed

lemma encode_marker_eq:
  "encode_confirmed_wal_marker seq =
     (let m = le_bytes 4 (unat WAL_CONFIRMED_MAGIC); v = le_bytes 2 (unat WAL_CONFIRMED_VERSION);
          q = le_bytes 8 (unat seq)
      in m @ v @ q @ le_bytes 4 (unat (checksum (m @ v @ q))))"
  by (simp add: encode_confirmed_wal_marker_def Let_def)

lemma decode_marker_encode:
  "decode_confirmed_wal_marker (encode_confirmed_wal_marker seq) = Inr seq"
proof -
  have "word_of_nat (le_value (le_bytes 8 (unat seq))) = seq"
    using word_of_le_value_eq [of "le_bytes 8 (unat seq)" seq] by simp
  then show ?thesis
    using decode_marker_fields [of "le_bytes 4 (unat WAL_CONFIRMED_MAGIC)"
        "le_bytes 2 (unat WAL_CONFIRMED_VERSION)" "le_bytes 8 (unat seq)"
        "le_bytes 4 (unat (checksum (le_bytes 4 (unat WAL_CONFIRMED_MAGIC) @
           le_bytes 2 (unat WAL_CONFIRMED_VERSION) @ le_bytes 8 (unat seq))))"]
    by (simp only: encode_marker_eq Let_def length_le_bytes simp_thms if_False)
qed

text \<open>C31: The decoder of the confirmed-sequence marker of a shard is exact: a file is accepted as the marker
  for a sequence if and only if it is, byte for byte and in its length, what the encoder writes for this
  sequence, so every truncated, extended or altered marker is rejected or is the marker of another
  sequence.\<close>
theorem confirmed_marker_exact:
  "decode_confirmed_wal_marker bs = Ok seq \<longleftrightarrow> bs = encode_confirmed_wal_marker seq"
proof
  assume d: "decode_confirmed_wal_marker bs = Ok seq"
  define m v q c where "m = take 4 bs" and "v = take 2 (drop 4 bs)" and "q = take 8 (drop 6 bs)" and "c = drop 14 bs"
  have "length bs = 18" using d by (simp add: decode_confirmed_wal_marker_def WAL_CONFIRMED_LEN_def split: if_splits)
  then have lens: "length m = 4" "length v = 2" "length q = 8" "length c = 4"
    by (simp_all add: m_def v_def q_def c_def)
  have "bs = take 4 bs @ take 2 (drop 4 bs) @ take 8 (drop 2 (drop 4 bs)) @ drop 8 (drop 2 (drop 4 bs))"
    by (simp only: append_take_drop_id)
  then have bs: "bs = m @ v @ q @ c" by (simp add: m_def v_def q_def c_def)
  have f: "m = le_bytes 4 (unat WAL_CONFIRMED_MAGIC)" "v = le_bytes 2 (unat WAL_CONFIRMED_VERSION)"
    "c = le_bytes 4 (unat (checksum (m @ v @ q)))" "word_of_nat (le_value q) = seq"
    using d unfolding bs decode_marker_fields [OF lens] by (auto split: if_splits)
  have "q = le_bytes 8 (unat seq)" using f(4) word_of_le_value_eq [of q seq] lens(3) by simp
  then show "bs = encode_confirmed_wal_marker seq"
    using f(1-3) unfolding bs encode_marker_eq Let_def by simp
next
  assume "bs = encode_confirmed_wal_marker seq"
  then show "decode_confirmed_wal_marker bs = Ok seq" by (simp add: decode_marker_encode)
qed

section \<open>Lemmas on file names\<close>

lemma strip_prefix_append [simp]: "strip_prefix p (p @ s) = Some s"
  by (simp add: strip_prefix_def)

lemma strip_suffix_append [simp]: "strip_suffix p (s @ p) = Some s"
  by (simp add: strip_suffix_def)

lemma split_once_append:
  assumes "c \<notin> set a"
  shows "split_once (c # cs) (a @ (c # cs) @ b) = Some (a, b)"
  using assms
proof (induction a)
  case Nil
  then show ?case
    by (subst split_once.simps) (simp add: strip_prefix_def)
next
  case (Cons x xs)
  then have "strip_prefix (c # cs) ((x # xs) @ (c # cs) @ b) = None"
    by (auto simp: strip_prefix_def)
  then show ?case
    using Cons by (subst split_once.simps) simp
qed

lemma length_digits_of [simp]: "length (digits_of w n) = w"
  by (induction w arbitrary: n) simp_all

lemma of_char_digit: "(of_char (char_of (48 + n mod 10 :: nat) :: char) :: nat) = 48 + n mod 10"
  by simp

lemma digits_of_are_digits: "c \<in> set (digits_of w n) \<Longrightarrow> is_ascii_digit c"
proof (induction w arbitrary: n)
  case (Suc w)
  have "n mod 10 \<le> 9"
    using mod_less_divisor [of 10 n] by simp
  then have "is_ascii_digit (char_of (48 + n mod 10))"
    by (simp add: is_ascii_digit_def)
  then show ?case
    using Suc by auto
qed simp

lemma parse_digits_snoc: "parse_digits (s @ [c]) = parse_digits s * 10 + (of_char c - 48)"
  by (simp add: parse_digits_def)

lemma parse_digits_digits_of: "parse_digits (digits_of w n) = n mod 10 ^ w"
proof (induction w arbitrary: n)
  case (Suc w)
  have "parse_digits (digits_of (Suc w) n) = (n div 10) mod 10 ^ w * 10 + n mod 10"
    using Suc by (simp add: parse_digits_snoc)
  also have "\<dots> = n mod 10 ^ Suc w"
    by (simp add: mod_mult2_eq)
  finally show ?case .
qed (simp add: parse_digits_def)

lemma decimal_digits_bound: "n < 10 ^ Suc w \<Longrightarrow> decimal_digits n \<le> Suc w"
proof (induction w arbitrary: n)
  case 0
  then show ?case
    by (subst decimal_digits.simps) simp
next
  case (Suc w)
  then have "n div 10 < 10 ^ Suc w"
    by (simp add: div_less_iff_less_mult)
  then show ?case
    using Suc by (subst decimal_digits.simps) auto
qed

lemma format_padded_small:
  assumes "n < 10 ^ Suc w"
  shows "format_padded (Suc w) n = digits_of (Suc w) n" "parse_digits (format_padded (Suc w) n) = n"
proof -
  show "format_padded (Suc w) n = digits_of (Suc w) n"
    using decimal_digits_bound [OF assms] by (simp add: format_padded_def max_def)
  then show "parse_digits (format_padded (Suc w) n) = n"
    using assms parse_digits_digits_of [of "Suc w" n] by simp
qed

lemma wal_shard_name_roundtrip:
  assumes "shard_index < 10000"
  shows "wal_shard_index_from_file_name (wal_shard_file_name shard_index) = Inr (Some shard_index)"
proof (cases "shard_index = 0")
  case True
  then show ?thesis
    by (simp add: wal_shard_file_name_def wal_shard_index_from_file_name_def)
next
  case False
  define d where "d = digits_of (Suc 3) shard_index"
  have e: "WAL_SHARD_FILE_DIGITS = Suc 3" "shard_index < 10 ^ Suc 3"
    using assms by (simp_all add: WAL_SHARD_FILE_DIGITS_def)
  have n: "wal_shard_file_name shard_index = WAL_SHARD_FILE_PREFIX @ d"
    "parse_digits d = shard_index" "length d = 4"
    using format_padded_small [OF e(2)] False
    unfolding wal_shard_file_name_def d_def e(1) length_digits_of by simp_all
  have dig: "list_all is_ascii_digit d"
    by (auto simp: list_all_iff d_def dest: digits_of_are_digits)
  have "last d \<noteq> CHR ''p''"
    using dig n(3) by (cases d rule: rev_cases) (auto simp: is_ascii_digit_def)
  then have "strip_suffix ''.tmp'' (WAL_SHARD_FILE_PREFIX @ d) = None"
    using n(3) by (cases d rule: rev_cases) (auto simp: strip_suffix_def strip_prefix_def)
  moreover have "WAL_SHARD_FILE_PREFIX @ d \<noteq> WAL_FILE_NAME"
    "WAL_SHARD_FILE_PREFIX @ d \<noteq> WAL_REWRITE_TMP_FILE_NAME"
    by (simp_all add: WAL_SHARD_FILE_PREFIX_def WAL_FILE_NAME_def WAL_REWRITE_TMP_FILE_NAME_def)
  ultimately show ?thesis
    using n dig False
    by (simp add: wal_shard_index_from_file_name_def is_wal_rewrite_temporary_file_name_def
        wal_shard_index_from_final_file_name_def WAL_SHARD_FILE_DIGITS_def)
qed

lemma format_padded_u64:
  "parse_digits (format_padded OBJECT_WAL_SEQUENCE_DIGITS (unat (w :: u64))) = unat w"
  "length (format_padded OBJECT_WAL_SEQUENCE_DIGITS (unat w)) = OBJECT_WAL_SEQUENCE_DIGITS"
  "list_all is_ascii_digit (format_padded OBJECT_WAL_SEQUENCE_DIGITS (unat w))"
proof -
  have e: "OBJECT_WAL_SEQUENCE_DIGITS = Suc 19"
    by (simp add: OBJECT_WAL_SEQUENCE_DIGITS_def)
  have "unat w < 2 ^ 64"
    using unsigned_less [of w, where ?'a = nat] by simp
  then have "unat w < 10 ^ Suc 19"
    by simp
  note f = format_padded_small [OF this]
  show "parse_digits (format_padded OBJECT_WAL_SEQUENCE_DIGITS (unat w)) = unat w"
    "length (format_padded OBJECT_WAL_SEQUENCE_DIGITS (unat w)) = OBJECT_WAL_SEQUENCE_DIGITS"
    "list_all is_ascii_digit (format_padded OBJECT_WAL_SEQUENCE_DIGITS (unat w))"
    unfolding e using f by (auto simp: list_all_iff dest: digits_of_are_digits)
qed

lemma digits_exclude:
  "list_all is_ascii_digit s \<Longrightarrow> CHR ''.'' \<notin> set s" "list_all is_ascii_digit s \<Longrightarrow> CHR ''-'' \<notin> set s"
  by (auto simp: list_all_iff is_ascii_digit_def)

lemma object_wal_tail_name:
  assumes "length identity = 64" "list_all is_ascii_hexdigit identity"
  shows "object_wal_tail (format_padded OBJECT_WAL_SEQUENCE_DIGITS (unat seq) @ ''-'' @ identity @
    OBJECT_WAL_FILE_SUFFIX) = Inr (Some seq)"
proof -
  let ?d = "format_padded OBJECT_WAL_SEQUENCE_DIGITS (unat seq)"
  have "split_once ''-'' (?d @ ''-'' @ identity) = Some (?d, identity)"
    using split_once_append [OF digits_exclude(2) [OF format_padded_u64(3)], of "[]"] by simp
  moreover have "strip_suffix OBJECT_WAL_FILE_SUFFIX (?d @ ''-'' @ identity @ OBJECT_WAL_FILE_SUFFIX) =
      Some (?d @ ''-'' @ identity)"
    using strip_suffix_append [of OBJECT_WAL_FILE_SUFFIX "?d @ ''-'' @ identity"] by simp
  moreover have "unat seq < 2 ^ 64"
    using unsigned_less [of seq, where ?'a = nat] by simp
  ultimately show ?thesis
    using assms format_padded_u64 [of seq] by (simp add: object_wal_tail_def)
qed

text \<open>File names carry their identity: the name generated for a shard below 10000 parses back to
  that shard, and both kinds of object-store log names parse back to the commit sequence they were
  generated with.\<close>
theorem wal_file_names_roundtrip:
  assumes "shard_index < 10000" "length identity = 64" "list_all is_ascii_hexdigit identity"
  shows "wal_shard_index_from_file_name (wal_shard_file_name shard_index) = Ok (Some shard_index) \<and>
    object_wal_sequence_from_path (object_wal_commit_file_name epoch seq identity) = Ok (Some seq) \<and>
    object_wal_sequence_from_path (object_wal_rewrite_file_name epoch seq identity) = Ok (Some seq)"
proof (intro conjI)
  let ?e = "format_padded OBJECT_WAL_SEQUENCE_DIGITS (unat epoch)"
  let ?t = "format_padded OBJECT_WAL_SEQUENCE_DIGITS (unat seq) @ ''-'' @ identity @ OBJECT_WAL_FILE_SUFFIX"
  note dot = digits_exclude(1) [OF format_padded_u64(3) [of epoch]]
  show "wal_shard_index_from_file_name (wal_shard_file_name shard_index) = Ok (Some shard_index)"
    using wal_shard_name_roundtrip [OF assms(1)] .
  have "split_once OBJECT_WAL_COMMIT_MARKER (?e @ OBJECT_WAL_COMMIT_MARKER @ ?t) = Some (?e, ?t)"
    unfolding OBJECT_WAL_COMMIT_MARKER_def by (rule split_once_append [OF dot])
  then show "object_wal_sequence_from_path (object_wal_commit_file_name epoch seq identity) = Ok (Some seq)"
    using object_wal_tail_name [OF assms(2,3), of seq]
    by (simp add: object_wal_sequence_from_path_def object_wal_commit_file_name_def)
  have "split_once OBJECT_WAL_REWRITE_MARKER (?e @ OBJECT_WAL_REWRITE_MARKER @ ?t) = Some (?e, ?t)"
    unfolding OBJECT_WAL_REWRITE_MARKER_def by (rule split_once_append [OF dot])
  moreover have "strip_prefix OBJECT_WAL_FILE_PREFIX (OBJECT_WAL_REWRITE_PREFIX @ x) = None" for x
    by (simp add: strip_prefix_def OBJECT_WAL_FILE_PREFIX_def OBJECT_WAL_REWRITE_PREFIX_def)
  ultimately show "object_wal_sequence_from_path (object_wal_rewrite_file_name epoch seq identity) = Ok (Some seq)"
    using object_wal_tail_name [OF assms(2,3), of seq]
    by (simp add: object_wal_sequence_from_path_def object_wal_rewrite_file_name_def)
qed

theorem wal_file_names_roundtrip_witness:
  "wal_shard_index_from_file_name (wal_shard_file_name 3) = Ok (Some 3) \<and>
   object_wal_sequence_from_path (object_wal_commit_file_name 1 7 (replicate 64 CHR ''a'')) = Ok (Some 7) \<and>
   object_wal_sequence_from_path (object_wal_rewrite_file_name 1 7 (replicate 64 CHR ''a'')) = Ok (Some 7)"
  by (rule wal_file_names_roundtrip) (simp_all add: is_ascii_hexdigit_def list_all_iff)

end
