(* ===== verification/Commit_Tracker.thy ===== *)
theory Commit_Tracker
  imports Keys
begin

text \<open>
  Commit visibility sequencing and the publication barrier (\<^verbatim>\<open>src/src/db/commit_tracker.rs\<close>). The
  tracker's atomics and its slot map are the fields of one record. A method that locks once is one
  function; \<^verbatim>\<open>reserve_slot\<close> takes two atomic steps (the counter, then the slot map), so it is also
  given as its two halves, and \<open>tracker_run\<close> interleaves the halves of any number of threads. Wakers
  and condition variables only decide when a waiter looks again; the wait condition is
  \<open>is_visible\<close>.

  Shown here: the visible sequence is always the end of the contiguous prefix of finished commits, it
  never moves back, no slot is reserved or finished twice, and when every reservation has finished
  the visible sequence has caught up; a barrier is closed only when every
  activity has ended, and admits none from then on.
\<close>

section \<open>The tracker\<close>

datatype commit_slot_state = OpenSlot | VisibleSlot | SkippedSlot

record commit_tracker =
  last_reserved_sequence :: u64
  visible_sequence :: u64
  skipped_slots :: u64
  slots :: "(u64 \<times> commit_slot_state) list"

definition tracker_new :: "sequence \<Rightarrow> commit_tracker" where
  "tracker_new seq =
     \<lparr>last_reserved_sequence = seq, visible_sequence = seq, skipped_slots = 0, slots = []\<rparr>"

definition reset_visible_boundary :: "sequence \<Rightarrow> commit_tracker \<Rightarrow> commit_tracker" where
  "reset_visible_boundary seq t =
     t\<lparr>slots := [], visible_sequence := seq, last_reserved_sequence := seq, skipped_slots := 0\<rparr>"

definition open_slot_count :: "commit_tracker \<Rightarrow> usize" where
  "open_slot_count t = length (filter (\<lambda>(_, state). state = OpenSlot) (slots t))"

definition reserve_sequence :: "commit_tracker \<Rightarrow> (u64 \<times> commit_tracker) result" where
  "reserve_sequence t =
     (case checked_sequence_successor (last_reserved_sequence t) of
        None \<Rightarrow> Err (Corruption ''sequence counter overflow'')
      | Some reserved \<Rightarrow> Ok (reserved, t\<lparr>last_reserved_sequence := reserved\<rparr>))"

definition insert_slot :: "u64 \<Rightarrow> commit_tracker \<Rightarrow> commit_tracker result" where
  "insert_slot reserved t =
     (if map_of (slots t) reserved \<noteq> None
      then Err (Corruption ''commit slot was reserved twice'')
      else Ok (t\<lparr>slots := btree_insert reserved OpenSlot (slots t)\<rparr>))"

definition reserve_slot :: "commit_tracker \<Rightarrow> (u64 \<times> commit_tracker) result" where
  "reserve_slot t =
     and_then (reserve_sequence t) (\<lambda>(reserved, t).
     and_then (insert_slot reserved t) (\<lambda>t. Ok (reserved, t)))"

function advance_visible_loop ::
  "u64 \<Rightarrow> (u64 \<times> commit_slot_state) list \<Rightarrow> u64 \<times> (u64 \<times> commit_slot_state) list" where
  "advance_visible_loop visible sl =
     (case checked_sequence_successor visible of
        None \<Rightarrow> (visible, sl)
      | Some next_sequence \<Rightarrow>
          (case map_of sl next_sequence of
             Some VisibleSlot \<Rightarrow> advance_visible_loop next_sequence (btree_remove next_sequence sl)
           | Some SkippedSlot \<Rightarrow> advance_visible_loop next_sequence (btree_remove next_sequence sl)
           | Some OpenSlot \<Rightarrow> (visible, sl)
           | None \<Rightarrow> (visible, sl)))"
  by pat_completeness auto
termination
proof (relation "measure (\<lambda>(visible, _). 2 ^ 64 - unat visible)", goal_cases)
  case (2 visible sl n x)
  then show ?case
    using checked_sequence_successor_gt [of visible n] unsigned_less [of n, where ?'a = nat] by simp
next
  case (3 visible sl n x)
  then show ?case
    using checked_sequence_successor_gt [of visible n] unsigned_less [of n, where ?'a = nat] by simp
qed simp

definition advance_visible_sequence :: "commit_tracker \<Rightarrow> commit_tracker" where
  "advance_visible_sequence t =
     (let (visible, sl) = advance_visible_loop (visible_sequence t) (slots t)
      in t\<lparr>visible_sequence := visible, slots := sl\<rparr>)"

definition mark_terminal :: "u64 \<Rightarrow> commit_slot_state \<Rightarrow> commit_tracker \<Rightarrow> commit_tracker result" where
  "mark_terminal slot terminal_state t =
     (case map_of (slots t) slot of
        None \<Rightarrow> Err (Corruption ''commit slot is missing'')
      | Some OpenSlot \<Rightarrow>
          Ok (advance_visible_sequence
                (t\<lparr>slots := btree_insert slot terminal_state (slots t),
                   skipped_slots := skipped_slots t +
                     (if terminal_state = SkippedSlot then 1 else 0)\<rparr>))
      | Some _ \<Rightarrow> Err (Corruption ''commit slot is already terminal''))"

definition mark_visible :: "u64 \<Rightarrow> commit_tracker \<Rightarrow> commit_tracker result" where
  "mark_visible slot t = mark_terminal slot VisibleSlot t"

definition mark_skipped :: "u64 \<Rightarrow> commit_tracker \<Rightarrow> commit_tracker result" where
  "mark_skipped slot t = mark_terminal slot SkippedSlot t"

definition is_visible :: "sequence \<Rightarrow> commit_tracker \<Rightarrow> bool" where
  "is_visible seq t = (visible_sequence t \<ge> seq)"

section \<open>The publication barrier\<close>

record publish_barrier_activity =
  active :: usize
  closing :: bool

definition begin_activity :: "publish_barrier_activity \<Rightarrow> publish_barrier_activity result" where
  "begin_activity a =
     (if closing a then Err ClosedError
      else and_then (ok_or (Corruption ''publish activity counter overflow'')
             (checked_add_usize (active a) 1)) (\<lambda>n. Ok (a\<lparr>active := n\<rparr>)))"

definition end_activity :: "publish_barrier_activity \<Rightarrow> publish_barrier_activity" where
  "end_activity a = (if active a = 0 then a else a\<lparr>active := active a - 1\<rparr>)"

text \<open>\<^verbatim>\<open>close\<close> sets the flag and then waits on the condition variable as long as \<open>close_waits\<close>, the test of
  its loop; the mutex is free while it waits.\<close>
definition begin_close :: "publish_barrier_activity \<Rightarrow> publish_barrier_activity" where
  "begin_close a = a\<lparr>closing := True\<rparr>"

definition close_waits :: "publish_barrier_activity \<Rightarrow> bool" where
  "close_waits a = (active a \<noteq> 0)"

section \<open>Interleavings\<close>

text \<open>The states any number of threads can reach: \<open>P\<close> are the sequences taken from the counter whose
  slot is not yet in the map, \<open>D\<close> the sequences marked visible or skipped. A run starts with a new tracker
  or with the reset that opening a database performs before the first commit.\<close>

inductive tracker_run :: "sequence \<Rightarrow> commit_tracker \<Rightarrow> u64 set \<Rightarrow> u64 set \<Rightarrow> bool"
  for v0 :: sequence where
  start: "tracker_run v0 (tracker_new v0) {} {}"
| reset: "tracker_run v0 (reset_visible_boundary v0 t) {} {}"
| reserve: "tracker_run v0 t P D \<Longrightarrow> reserve_sequence t = Inr (s, t') \<Longrightarrow>
    tracker_run v0 t' (insert s P) D"
| slot: "tracker_run v0 t P D \<Longrightarrow> s \<in> P \<Longrightarrow> insert_slot s t = Inr t' \<Longrightarrow>
    tracker_run v0 t' (P - {s}) D"
| terminal: "tracker_run v0 t P D \<Longrightarrow> mark_terminal s st t = Inr t' \<Longrightarrow> st \<noteq> OpenSlot \<Longrightarrow>
    tracker_run v0 t' P (insert s D)"

text \<open>Threads at the barrier: \<open>G\<close> are the guards handed out and not yet dropped, and the phase tells how far
  calls of \<^verbatim>\<open>close\<close> have come: none has taken the mutex, at least one is in its loop, or at least one has
  returned.\<close>

datatype close_phase = NotClosing | CloseWaiting | CloseReturned

inductive barrier_step ::
  "publish_barrier_activity \<times> nat set \<times> close_phase \<Rightarrow> publish_barrier_activity \<times> nat set \<times> close_phase \<Rightarrow> bool" where
  begin_step: "begin_activity a = Inr b \<Longrightarrow> g \<notin> G \<Longrightarrow> barrier_step (a, G, p) (b, insert g G, p)"
| end_step: "g \<in> G \<Longrightarrow> barrier_step (a, G, p) (end_activity a, G - {g}, p)"
| close_step: "barrier_step (a, G, p) (begin_close a, G, if p = NotClosing then CloseWaiting else p)"
| wake_step: "\<not> close_waits a \<Longrightarrow> barrier_step (a, G, CloseWaiting) (a, G, CloseReturned)"

definition barrier_start :: "publish_barrier_activity \<times> nat set \<times> close_phase" where
  "barrier_start = (\<lparr>active = 0, closing = False\<rparr>, {}, NotClosing)"

section \<open>Lemmas\<close>

declare advance_visible_loop.simps [simp del]

inductive_cases barrier_stepE: "barrier_step a b"

text \<open>The invariant that ties the slot map to the finished sequences.\<close>
definition tracker_inv :: "sequence \<Rightarrow> commit_tracker \<Rightarrow> u64 set \<Rightarrow> u64 set \<Rightarrow> bool" where
  "tracker_inv v0 t P D \<longleftrightarrow>
     v0 \<le> visible_sequence t \<and> visible_sequence t \<le> last_reserved_sequence t \<and>
     btree_ok (slots t) \<and>
     (\<forall>s. s \<in> P \<longrightarrow> map_of (slots t) s = None \<and> s \<notin> D \<and>
            visible_sequence t < s \<and> s \<le> last_reserved_sequence t) \<and>
     (\<forall>s st. map_of (slots t) s = Some st \<longrightarrow>
            visible_sequence t < s \<and> s \<le> last_reserved_sequence t \<and> (st \<noteq> OpenSlot \<longleftrightarrow> s \<in> D)) \<and>
     (\<forall>s. visible_sequence t < s \<and> s \<le> last_reserved_sequence t \<longrightarrow>
            s \<in> P \<or> map_of (slots t) s \<noteq> None) \<and>
     (\<forall>s. v0 < s \<and> s \<le> visible_sequence t \<longrightarrow> s \<in> D) \<and>
     (\<forall>s\<in>D. v0 < s \<and> s \<le> last_reserved_sequence t)"

text \<open>The next sequence is not finished: nothing is left to advance over.\<close>
definition tracker_settled :: "commit_tracker \<Rightarrow> bool" where
  "tracker_settled t \<longleftrightarrow>
     (\<forall>s. checked_sequence_successor (visible_sequence t) = Some s \<longrightarrow>
        map_of (slots t) s \<in> {None, Some OpenSlot})"

lemma word_succ_le_iff:
  assumes "checked_sequence_successor v = Some n"
  shows "s \<le> n \<longleftrightarrow> s \<le> v \<or> s = n" "n < s \<longleftrightarrow> v < s \<and> s \<noteq> n" "n \<le> s \<longleftrightarrow> v < s"
proof -
  have u: "unat n = unat v + 1"
    using checked_sequence_successor_gt(2) [OF assms] .
  show "s \<le> n \<longleftrightarrow> s \<le> v \<or> s = n"
    using u by (auto simp: word_le_nat_alt word_unat_eq_iff)
  show "n < s \<longleftrightarrow> v < s \<and> s \<noteq> n"
    using u by (auto simp: word_less_nat_alt word_unat_eq_iff)
  show "n \<le> s \<longleftrightarrow> v < s"
    using u by (auto simp: word_le_nat_alt word_less_nat_alt)
qed

lemma advance_one_inv:
  assumes "tracker_inv v0 (t\<lparr>visible_sequence := v, slots := sl\<rparr>) P D"
    and "checked_sequence_successor v = Some n" "map_of sl n = Some st" "st \<noteq> OpenSlot"
  shows "tracker_inv v0 (t\<lparr>visible_sequence := n, slots := btree_remove n sl\<rparr>) P D"
  using assms word_succ_le_iff [OF assms(2)] checked_sequence_successor_gt(1) [OF assms(2)]
  unfolding tracker_inv_def by (auto simp: map_of_btree_remove)

lemma advance_loop_inv:
  assumes "tracker_inv v0 (t\<lparr>visible_sequence := v, slots := sl\<rparr>) P D"
  shows "\<exists>v' sl'. advance_visible_loop v sl = (v', sl') \<and> v \<le> v' \<and>
    tracker_inv v0 (t\<lparr>visible_sequence := v', slots := sl'\<rparr>) P D \<and>
    tracker_settled (t\<lparr>visible_sequence := v', slots := sl'\<rparr>)"
  using assms
proof (induction v sl rule: advance_visible_loop.induct)
  case (1 v sl)
  show ?case
  proof (cases "\<exists>n st. checked_sequence_successor v = Some n \<and> map_of sl n = Some st \<and> st \<noteq> OpenSlot")
    case True
    then obtain n st where n: "checked_sequence_successor v = Some n" "map_of sl n = Some st"
      "st \<noteq> OpenSlot"
      by blast
    have step: "advance_visible_loop v sl = advance_visible_loop n (btree_remove n sl)"
      using n by (subst advance_visible_loop.simps) (auto split: commit_slot_state.split)
    note inv = advance_one_inv [OF "1.prems" n]
    have "v \<le> n"
      using checked_sequence_successor_gt(1) [OF n(1)] by simp
    moreover have "\<exists>v' sl'. advance_visible_loop n (btree_remove n sl) = (v', sl') \<and> n \<le> v' \<and>
      tracker_inv v0 (t\<lparr>visible_sequence := v', slots := sl'\<rparr>) P D \<and>
      tracker_settled (t\<lparr>visible_sequence := v', slots := sl'\<rparr>)"
      using "1.IH" [OF n(1) n(2)] n(3) inv by (cases st) auto
    ultimately show ?thesis
      unfolding step by (meson order_trans)
  next
    case False
    then have step: "advance_visible_loop v sl = (v, sl)"
      by (subst advance_visible_loop.simps) (auto split: option.split commit_slot_state.split)
    show ?thesis
      using False "1.prems" unfolding step
      by (auto simp: tracker_settled_def) (metis option.exhaust)
  qed
qed

lemma advance_inv:
  assumes "tracker_inv v0 t P D"
  shows "tracker_inv v0 (advance_visible_sequence t) P D"
    and "tracker_settled (advance_visible_sequence t)"
    and "visible_sequence t \<le> visible_sequence (advance_visible_sequence t)"
    and "last_reserved_sequence (advance_visible_sequence t) = last_reserved_sequence t"
proof -
  have "tracker_inv v0 (t\<lparr>visible_sequence := visible_sequence t, slots := slots t\<rparr>) P D"
    using assms by simp
  from advance_loop_inv [OF this] obtain v' sl' where
    "advance_visible_loop (visible_sequence t) (slots t) = (v', sl')" "visible_sequence t \<le> v'"
    "tracker_inv v0 (t\<lparr>visible_sequence := v', slots := sl'\<rparr>) P D"
    "tracker_settled (t\<lparr>visible_sequence := v', slots := sl'\<rparr>)"
    by blast
  then show "tracker_inv v0 (advance_visible_sequence t) P D"
    "tracker_settled (advance_visible_sequence t)"
    "visible_sequence t \<le> visible_sequence (advance_visible_sequence t)"
    "last_reserved_sequence (advance_visible_sequence t) = last_reserved_sequence t"
    by (simp_all add: advance_visible_sequence_def)
qed

lemma mark_terminal_OkD:
  assumes "mark_terminal s st t = Inr t'"
  shows "map_of (slots t) s = Some OpenSlot"
    and "t' = advance_visible_sequence (t\<lparr>slots := btree_insert s st (slots t),
      skipped_slots := skipped_slots t + (if st = SkippedSlot then 1 else 0)\<rparr>)"
  using assms by (auto simp: mark_terminal_def split: option.splits commit_slot_state.splits)

lemma reserve_inv:
  assumes "tracker_inv v0 t P D" "tracker_settled t" "reserve_sequence t = Inr (s, t')"
  shows "tracker_inv v0 t' (insert s P) D" "tracker_settled t'"
    "visible_sequence t' = visible_sequence t" "s \<notin> P"
proof -
  have s: "checked_sequence_successor (last_reserved_sequence t) = Some s"
    "t' = t\<lparr>last_reserved_sequence := s\<rparr>"
    using assms(3) by (auto simp: reserve_sequence_def split: option.splits)
  note le = word_succ_le_iff [OF s(1)]
  have gt: "last_reserved_sequence t < s"
    using checked_sequence_successor_gt(1) [OF s(1)] .
  have "map_of (slots t) s = None"
  proof (cases "map_of (slots t) s")
    case (Some st)
    then have "s \<le> last_reserved_sequence t"
      using assms(1) by (auto simp: tracker_inv_def)
    then show ?thesis
      using gt by simp
  qed
  moreover have "s \<notin> D" "s \<notin> P"
    using assms(1) gt by (auto simp: tracker_inv_def)
  ultimately show "tracker_inv v0 t' (insert s P) D" "tracker_settled t'"
    "visible_sequence t' = visible_sequence t" "s \<notin> P"
    using assms(1,2) s(2) le gt unfolding tracker_inv_def by (auto simp: tracker_settled_def)
qed

lemma slot_inv:
  assumes "tracker_inv v0 t P D" "tracker_settled t" "s \<in> P"
  shows "\<exists>t'. insert_slot s t = Inr t' \<and> tracker_inv v0 t' (P - {s}) D \<and> tracker_settled t' \<and>
    visible_sequence t' = visible_sequence t"
proof -
  have n: "map_of (slots t) s = None" and ok: "btree_ok (slots t)"
    using assms by (auto simp: tracker_inv_def)
  then show ?thesis
    using assms unfolding tracker_inv_def
    by (auto simp: insert_slot_def map_of_btree_insert tracker_settled_def)
qed

lemma terminal_inv:
  assumes "tracker_inv v0 t P D" "mark_terminal s st t = Inr t'" "st \<noteq> OpenSlot"
  shows "tracker_inv v0 t' P (insert s D)" "tracker_settled t'"
    "visible_sequence t \<le> visible_sequence t'" "s \<notin> D"
proof -
  define u where "u = t\<lparr>slots := btree_insert s st (slots t),
      skipped_slots := skipped_slots t + (if st = SkippedSlot then 1 else 0)\<rparr>"
  note m = mark_terminal_OkD [OF assms(2)]
  have ok: "btree_ok (slots t)"
    using assms(1) by (auto simp: tracker_inv_def)
  have "v0 < s"
    using assms(1) m(1) unfolding tracker_inv_def by (meson le_less_trans)
  then have "tracker_inv v0 u P (insert s D)"
    using assms(1,3) m(1) ok unfolding tracker_inv_def u_def
    by (auto simp: map_of_btree_insert)
  from advance_inv [OF this] show "tracker_inv v0 t' P (insert s D)" "tracker_settled t'"
    "visible_sequence t \<le> visible_sequence t'"
    by (simp_all add: m(2) u_def)
  show "s \<notin> D"
    using assms(1) m(1) by (auto simp: tracker_inv_def)
qed

lemma tracker_run_inv:
  "tracker_run v0 t P D \<Longrightarrow> tracker_inv v0 t P D \<and> tracker_settled t"
proof (induction rule: tracker_run.induct)
  case start
  then show ?case
    by (auto simp: tracker_inv_def tracker_settled_def tracker_new_def)
next
  case (reset t)
  then show ?case
    by (auto simp: tracker_inv_def tracker_settled_def reset_visible_boundary_def)
next
  case (reserve t P D s t')
  then show ?case
    using reserve_inv by blast
next
  case (slot t P D s t')
  then show ?case
    using slot_inv [of v0 t P D s] by auto
next
  case (terminal t P D s st t')
  then show ?case
    using terminal_inv by blast
qed

text \<open>C4: In every interleaving of reservations, slot insertions and completions, the visible sequence
  is exactly the end of the contiguous run of finished commits: every sequence after the start up to
  it is finished, and the next reserved one, if there is one, is not. A reader at the visible
  sequence therefore never sees a commit whose predecessors are still being published.\<close>
theorem visible_is_finished_prefix:
  assumes "tracker_run v0 t P D"
  shows "visible_sequence t \<le> last_reserved_sequence t \<and>
    (\<forall>s. v0 < s \<longrightarrow> s \<le> visible_sequence t \<longrightarrow> s \<in> D) \<and>
    (visible_sequence t < last_reserved_sequence t \<longrightarrow> visible_sequence t + 1 \<notin> D)"
proof -
  have inv: "tracker_inv v0 t P D" and set: "tracker_settled t"
    using tracker_run_inv [OF assms] by auto
  have "visible_sequence t + 1 \<notin> D" if lt: "visible_sequence t < last_reserved_sequence t"
  proof -
    have "visible_sequence t \<noteq> u64_max"
      using lt by (metis u64_max_ge leD)
    then have n: "checked_sequence_successor (visible_sequence t) = Some (visible_sequence t + 1)"
      by (simp add: checked_sequence_successor_Some)
    have r: "visible_sequence t < visible_sequence t + 1" "visible_sequence t + 1 \<le> last_reserved_sequence t"
      using checked_sequence_successor_gt(1) [OF n] word_succ_le_iff(3) [OF n] lt by auto
    have "map_of (slots t) (visible_sequence t + 1) \<in> {None, Some OpenSlot}"
      using set n by (auto simp: tracker_settled_def)
    then show ?thesis
      using inv r unfolding tracker_inv_def by fastforce
  qed
  then show ?thesis
    using inv by (auto simp: tracker_inv_def)
qed

theorem visible_is_finished_prefix_witness:
  "\<exists>t. tracker_run 0 t {} {2} \<and> visible_sequence t = 0 \<and> last_reserved_sequence t = 2 \<and>
     visible_sequence t + 1 \<notin> {2 :: u64}"
proof -
  let ?t1 = "\<lparr>last_reserved_sequence = 1, visible_sequence = 0, skipped_slots = 0, slots = []\<rparr>"
  let ?t2 = "\<lparr>last_reserved_sequence = 2, visible_sequence = 0, skipped_slots = 0, slots = []\<rparr>"
  let ?t3 = "\<lparr>last_reserved_sequence = 2, visible_sequence = 0, skipped_slots = 0,
    slots = [(2, OpenSlot)]\<rparr>"
  let ?t4 = "\<lparr>last_reserved_sequence = 2, visible_sequence = 0, skipped_slots = 0,
    slots = [(1, OpenSlot), (2, OpenSlot)]\<rparr>"
  let ?t5 = "\<lparr>last_reserved_sequence = 2, visible_sequence = 0, skipped_slots = 0,
    slots = [(1, OpenSlot), (2, VisibleSlot)]\<rparr>"
  have s1: "reserve_sequence (tracker_new 0) = Inr (1, ?t1)"
    by (simp add: reserve_sequence_def tracker_new_def checked_sequence_successor_def
        checked_add_word_def)
  have s2: "reserve_sequence ?t1 = Inr (2, ?t2)"
    by (simp add: reserve_sequence_def checked_sequence_successor_def checked_add_word_def)
  have s3: "insert_slot 2 ?t2 = Inr ?t3"
    by (simp add: insert_slot_def)
  have s4: "insert_slot 1 ?t3 = Inr ?t4"
    by (simp add: insert_slot_def word_less_nat_alt)
  have s5: "mark_terminal 2 VisibleSlot ?t4 = Inr ?t5"
    by (simp add: mark_terminal_def advance_visible_sequence_def advance_visible_loop.simps
        checked_sequence_successor_def checked_add_word_def word_less_nat_alt)
  note r2 = tracker_run.reserve [OF tracker_run.reserve [OF tracker_run.start s1] s2]
  have r3: "tracker_run 0 ?t3 (insert 2 {1} - {2}) {}"
    by (rule tracker_run.slot [OF r2 _ s3]) simp
  have r4: "tracker_run 0 ?t4 (insert 2 {1} - {2} - {1}) {}"
    by (rule tracker_run.slot [OF r3 _ s4]) simp
  have run: "tracker_run 0 ?t5 ({2, 1} - {2} - {1}) {2}"
    by (rule tracker_run.terminal [OF r4 s5]) simp
  moreover have "{2, 1} - {2} - {1 :: u64} = {}"
    by auto
  ultimately show ?thesis
    using run visible_is_finished_prefix [OF run] by (intro exI [of _ ?t5]) auto
qed

text \<open>C20: Sequencing never fails and never stalls by itself: a reserved sequence can always enter the
  slot map, a finished one cannot be finished again, and once every reserved sequence is finished the
  visible sequence equals the last reserved one, so every waiting committer returns.\<close>
theorem tracker_progress:
  assumes "tracker_run v0 t P D"
  shows "(s \<in> P \<longrightarrow> is_ok (insert_slot s t)) \<and>
    (s \<in> D \<longrightarrow> \<not> is_ok (mark_terminal s st t)) \<and>
    (P = {} \<and> (\<forall>r. v0 < r \<longrightarrow> r \<le> last_reserved_sequence t \<longrightarrow> r \<in> D) \<longrightarrow>
       visible_sequence t = last_reserved_sequence t)"
proof (intro conjI impI)
  have inv: "tracker_inv v0 t P D" and set: "tracker_settled t"
    using tracker_run_inv [OF assms] by auto
  show "is_ok (insert_slot s t)" if "s \<in> P"
    using slot_inv [OF inv set that] by (auto simp: is_ok_iff)
  show "\<not> is_ok (mark_terminal s st t)" if "s \<in> D"
    using mark_terminal_OkD(1) [of s st t] inv that by (auto simp: is_ok_iff tracker_inv_def)
  assume all: "P = {} \<and> (\<forall>r. v0 < r \<longrightarrow> r \<le> last_reserved_sequence t \<longrightarrow> r \<in> D)"
  show "visible_sequence t = last_reserved_sequence t"
  proof (rule ccontr)
    assume "visible_sequence t \<noteq> last_reserved_sequence t"
    then have lt: "visible_sequence t < last_reserved_sequence t"
      using inv by (auto simp: tracker_inv_def)
    then have "visible_sequence t \<noteq> u64_max"
      by (metis u64_max_ge leD)
    then have n: "checked_sequence_successor (visible_sequence t) = Some (visible_sequence t + 1)"
      by (simp add: checked_sequence_successor_Some)
    have r: "visible_sequence t < visible_sequence t + 1" "visible_sequence t + 1 \<le> last_reserved_sequence t"
      using checked_sequence_successor_gt(1) [OF n] word_succ_le_iff(3) [OF n] lt by auto
    have "map_of (slots t) (visible_sequence t + 1) \<noteq> None"
      using inv r all unfolding tracker_inv_def by blast
    then have "map_of (slots t) (visible_sequence t + 1) = Some OpenSlot"
      using set n unfolding tracker_settled_def by auto
    moreover have "v0 < visible_sequence t + 1"
      using inv r(1) by (auto simp: tracker_inv_def intro: le_less_trans)
    ultimately show False
      using inv all r(2) unfolding tracker_inv_def by blast
  qed
qed

theorem tracker_progress_witness:
  "\<exists>t. tracker_run 7 t {} {8} \<and> visible_sequence t = 8 \<and> last_reserved_sequence t = 8"
proof -
  let ?t1 = "\<lparr>last_reserved_sequence = 8, visible_sequence = 7, skipped_slots = 0, slots = []\<rparr>"
  let ?t2 = "\<lparr>last_reserved_sequence = 8, visible_sequence = 7, skipped_slots = 0,
    slots = [(8, OpenSlot)]\<rparr>"
  let ?t3 = "\<lparr>last_reserved_sequence = 8, visible_sequence = 8, skipped_slots = 0, slots = []\<rparr>"
  have s1: "reserve_sequence (tracker_new 7) = Inr (8, ?t1)"
    by (simp add: reserve_sequence_def tracker_new_def checked_sequence_successor_def
        checked_add_word_def)
  have s2: "insert_slot 8 ?t1 = Inr ?t2"
    by (simp add: insert_slot_def)
  have s3: "mark_terminal 8 VisibleSlot ?t2 = Inr ?t3"
    by (simp add: mark_terminal_def advance_visible_sequence_def advance_visible_loop.simps
        checked_sequence_successor_def checked_add_word_def btree_remove_def)
  note r1 = tracker_run.reserve [OF tracker_run.start s1]
  have r2: "tracker_run 7 ?t2 ({8} - {8}) {}"
    by (rule tracker_run.slot [OF r1 _ s2]) simp
  have r3: "tracker_run 7 ?t3 {} {8}"
    using tracker_run.terminal [OF r2 s3] by simp
  have "\<forall>r :: u64. 7 < r \<longrightarrow> r \<le> 8 \<longrightarrow> r \<in> {8}"
    by (auto simp: word_less_nat_alt word_le_nat_alt word_unat_eq_iff)
  then show ?thesis
    using r3 tracker_progress [OF r3] by (intro exI [of _ ?t3]) simp
qed

section \<open>The barrier\<close>

definition barrier_inv :: "publish_barrier_activity \<times> nat set \<times> close_phase \<Rightarrow> bool" where
  "barrier_inv st = (case st of (a, G, p) \<Rightarrow>
     finite G \<and> active a = card G \<and> (closing a \<longleftrightarrow> p \<noteq> NotClosing) \<and> (p = CloseReturned \<longrightarrow> G = {}))"

lemma begin_activity_OkD: "begin_activity a = Inr b \<Longrightarrow> \<not> closing a \<and> closing b = closing a \<and> active b = active a + 1"
  by (auto simp: begin_activity_def checked_add_usize_def and_then_eq_Inr_iff split: if_splits)

lemma barrier_step_inv: "barrier_step st st' \<Longrightarrow> barrier_inv st \<Longrightarrow> barrier_inv st'"
  by (induction rule: barrier_step.induct)
     (auto simp: barrier_inv_def end_activity_def begin_close_def close_waits_def card_Diff_singleton dest: begin_activity_OkD)

lemma barrier_steps_inv: "barrier_step\<^sup>*\<^sup>* st st' \<Longrightarrow> barrier_inv st \<Longrightarrow> barrier_inv st'"
  by (induction rule: rtranclp_induct) (auto dest: barrier_step_inv)

lemma barrier_returned_stays:
  "barrier_step\<^sup>*\<^sup>* st st' \<Longrightarrow> snd (snd st) = CloseReturned \<Longrightarrow> snd (snd st') = CloseReturned"
  by (induction rule: rtranclp_induct) (auto elim: barrier_stepE)

lemma end_activity_iterate: "active ((end_activity ^^ n) a) = active a - n"
  by (induction n) (auto simp: end_activity_def)

text \<open>C32: However threads interleave at the barrier, the counter is the number of guards that are held, so
  that dropping one never underflows it; when a call of \<^verbatim>\<open>close\<close> returns, no guard is held, none is handed
  out any more, and both stay so in every later state; from the moment \<^verbatim>\<open>close\<close> has taken the mutex new
  activities are refused; and a waiting \<^verbatim>\<open>close\<close> can return exactly when the guards held then have been
  dropped.\<close>
theorem barrier_close_drains:
  assumes "barrier_step\<^sup>*\<^sup>* barrier_start (a, G, p)"
  shows "active a = card G \<and> finite G \<and>
    (p = CloseReturned \<longrightarrow> G = {} \<and>
      (\<forall>a' G' p'. barrier_step\<^sup>*\<^sup>* (a, G, p) (a', G', p') \<longrightarrow> G' = {} \<and> p' = CloseReturned \<and> begin_activity a' = Err ClosedError)) \<and>
    (p \<noteq> NotClosing \<longrightarrow> begin_activity a = Err ClosedError) \<and>
    (p = CloseWaiting \<longrightarrow> (barrier_step (a, G, p) (a, G, CloseReturned) \<longleftrightarrow> G = {})) \<and>
    (p = CloseWaiting \<longrightarrow> \<not> close_waits ((end_activity ^^ card G) a))"
proof -
  have "barrier_inv barrier_start" by (simp add: barrier_inv_def barrier_start_def)
  then have inv: "barrier_inv (a, G, p)" using barrier_steps_inv [OF assms] by blast
  have closed: "begin_activity x = Err ClosedError" if "closing x" for x using that by (simp add: begin_activity_def)
  have later: "G' = {} \<and> p' = CloseReturned \<and> begin_activity a' = Err ClosedError"
    if "p = CloseReturned" "barrier_step\<^sup>*\<^sup>* (a, G, p) (a', G', p')" for a' G' p'
    using barrier_returned_stays [OF that(2)] barrier_steps_inv [OF that(2) inv] that(1) closed
    by (simp add: barrier_inv_def)
  have wake: "barrier_step (a, G, CloseWaiting) (a, G, CloseReturned) \<longleftrightarrow> \<not> close_waits a"
    by (auto intro: barrier_step.wake_step elim: barrier_stepE)
  show ?thesis
    using inv later closed [of a] wake end_activity_iterate [of "card G" a]
    by (auto simp: barrier_inv_def close_waits_def)
qed

theorem barrier_close_drains_witness:
  "\<exists>a. barrier_step\<^sup>*\<^sup>* barrier_start (a, {}, CloseReturned) \<and> begin_activity a = Err ClosedError"
proof -
  let ?a1 = "\<lparr>active = 1, closing = False\<rparr>" and ?a2 = "\<lparr>active = 1, closing = True\<rparr>" and ?a3 = "\<lparr>active = 0, closing = True\<rparr>"
  have "barrier_step barrier_start (?a1, {7}, NotClosing)"
    using barrier_step.begin_step [of "\<lparr>active = 0, closing = False\<rparr>" ?a1 7 "{}" NotClosing]
    by (simp add: barrier_start_def begin_activity_def checked_add_usize_def usize_max_def)
  moreover have "barrier_step (?a1, {7}, NotClosing) (?a2, {7}, CloseWaiting)"
    using barrier_step.close_step [of ?a1 "{7}" NotClosing] by (simp add: begin_close_def)
  moreover have "barrier_step (?a2, {7}, CloseWaiting) (?a3, {}, CloseWaiting)"
    using barrier_step.end_step [of 7 "{7}" ?a2 CloseWaiting] by (simp add: end_activity_def)
  moreover have "barrier_step (?a3, {}, CloseWaiting) (?a3, {}, CloseReturned)"
    by (rule barrier_step.wake_step) (simp add: close_waits_def)
  ultimately have run: "barrier_step\<^sup>*\<^sup>* barrier_start (?a3, {}, CloseReturned)"
    by (meson converse_rtranclp_into_rtranclp rtranclp.rtrancl_refl)
  then show ?thesis using barrier_close_drains [OF run] by blast
qed

end
