(* ===== verification/Point_Records.thy ===== *)
theory Point_Records
  imports Range_Tombstones
begin

text \<open>
  Versioned point records, range tombstones and what a read at a sequence should return. The
  candidate selection of \<^verbatim>\<open>src/src/lsm/read.rs\<close> and the tombstone coverage test of
  \<^verbatim>\<open>src/src/lsm/tree.rs\<close> are modelled here; the rest is the reference semantics: among
  the records of a user key that the read sequence can see, the newest decides, and a newer visible
  range tombstone over the key hides it.

  The locale \<open>point_source\<close> is the contract every holder of point records (memtable, in-memory
  delta, table) offers to the tree: a lookup returns a newest visible record. Its client lemma shows
  that folding the lookups of many sources, with the sources that cannot contribute skipped, yields a
  newest visible record of their union.
\<close>

named_theorems record_simps "records and tombstones held by a component"

section \<open>Records, tombstones and candidates\<close>

type_synonym point_record = "internal_key \<times> value_ref option"

record range_tombstone =
  rt_range :: key_range
  rt_sequence :: sequence
  rt_batch_index :: u32

definition covers_visible_point ::
  "range_tombstone \<Rightarrow> bytes \<Rightarrow> sequence \<Rightarrow> u32 \<Rightarrow> sequence \<Rightarrow> bool" where
  "covers_visible_point t key point_sequence point_batch_index read_sequence =
     (if rt_sequence t > read_sequence \<or> \<not> key_is_in_range key (rt_range t) then False
      else rt_sequence t > point_sequence \<or>
        (rt_sequence t = point_sequence \<and> rt_batch_index t > point_batch_index))"

definition keep_newer_point_candidate ::
  "point_record option \<Rightarrow> internal_key \<Rightarrow> value_ref option \<Rightarrow> point_record option" where
  "keep_newer_point_candidate candidate ik v =
     (case candidate of
        None \<Rightarrow> Some (ik, v)
      | Some current \<Rightarrow> if ik < fst current then Some (ik, v) else candidate)"

text \<open>The value of a \<^verbatim>\<open>Put\<close> record. \<open>read_blob\<close> stands for the blob file read of
  \<^verbatim>\<open>blob::read_value_for_internal_key\<close>; it is absent for a database without a path.\<close>

definition point_value ::
  "(value_ref \<Rightarrow> internal_key \<Rightarrow> bytes result) option \<Rightarrow> value_ref option \<Rightarrow> internal_key \<Rightarrow> bytes result" where
  "point_value read_blob v ik =
     and_then (ok_or (Corruption ''put record is missing value bytes'') v) (\<lambda>v.
     case v of
       Inline bs \<Rightarrow> Ok bs
     | BlobIndex _ \<Rightarrow>
         and_then (ok_or (Corruption ''in-memory database cannot read blob value references'') read_blob)
           (\<lambda>read_blob. read_blob v ik))"

section \<open>Reference semantics\<close>

definition visible_records :: "bytes \<Rightarrow> sequence \<Rightarrow> point_record set \<Rightarrow> point_record set" where
  "visible_records key s R = {e \<in> R. user_key (fst e) = key \<and> can_see s (ik_sequence (fst e))}"

text \<open>\<open>newest_of c S\<close>: the candidate \<open>c\<close> is a record of \<open>S\<close> that comes first in internal key order,
  that is with the largest sequence and, within it, the largest batch index; there is none exactly
  when \<open>S\<close> is empty.\<close>

definition newest_of :: "point_record option \<Rightarrow> point_record set \<Rightarrow> bool" where
  "newest_of c S = (case c of None \<Rightarrow> S = {} | Some e \<Rightarrow> e \<in> S \<and> (\<forall>e'\<in>S. fst e \<le> fst e'))"

definition hidden_by :: "range_tombstone set \<Rightarrow> internal_key \<Rightarrow> sequence \<Rightarrow> bool" where
  "hidden_by T ik s \<longleftrightarrow>
     (\<exists>t\<in>T. covers_visible_point t (user_key ik) (ik_sequence ik) (batch_index ik) s)"

text \<open>What a read returns once the newest visible record is known.\<close>

definition mvcc_result ::
  "(value_ref \<Rightarrow> internal_key \<Rightarrow> bytes result) option \<Rightarrow> range_tombstone set \<Rightarrow> sequence \<Rightarrow>
   point_record option \<Rightarrow> bytes option result" where
  "mvcc_result read_blob T s c =
     (case c of
        None \<Rightarrow> Ok None
      | Some (ik, v) \<Rightarrow>
          if ik_kind ik \<noteq> Put \<or> hidden_by T ik s then Ok None
          else and_then (point_value read_blob v ik) (\<lambda>bs. Ok (Some bs)))"

text \<open>\<open>mvcc_read\<close>: \<open>r\<close> is an answer of the store with records \<open>R\<close> and tombstones \<open>T\<close>. Several records
  with one internal key may differ in how they hold the same value, inline or in a blob file, so the
  answer is a relation.\<close>

definition mvcc_read ::
  "(value_ref \<Rightarrow> internal_key \<Rightarrow> bytes result) option \<Rightarrow> point_record set \<Rightarrow> range_tombstone set \<Rightarrow>
   bytes \<Rightarrow> sequence \<Rightarrow> bytes option result \<Rightarrow> bool" where
  "mvcc_read read_blob R T key s r \<longleftrightarrow>
     (\<exists>c. newest_of c (visible_records key s R) \<and> r = mvcc_result read_blob T s c)"

section \<open>Lemmas\<close>

lemma covers_visible_point_iff:
  "covers_visible_point t key ps pb s \<longleftrightarrow>
     rt_sequence t \<le> s \<and> key_is_in_range key (rt_range t) \<and>
     (rt_sequence t > ps \<or> rt_sequence t = ps \<and> rt_batch_index t > pb)"
  by (auto simp: covers_visible_point_def)

lemma visible_records_iff [record_simps]:
  "e \<in> visible_records key s R \<longleftrightarrow> e \<in> R \<and> user_key (fst e) = key \<and> ik_sequence (fst e) \<le> s"
  by (auto simp: visible_records_def can_see_def)

lemma visible_records_Un [record_simps]:
  "visible_records key s (A \<union> B) = visible_records key s A \<union> visible_records key s B"
  "visible_records key s (\<Union>x\<in>X. f x) = (\<Union>x\<in>X. visible_records key s (f x))"
  "visible_records key s {} = {}"
  by (auto simp: visible_records_def)

lemma visible_records_mono: "A \<subseteq> B \<Longrightarrow> visible_records key s A \<subseteq> visible_records key s B"
  by (auto simp: visible_records_def)

lemma newest_of_simps [simp]:
  "newest_of None S \<longleftrightarrow> S = {}" "newest_of (Some e) S \<longleftrightarrow> e \<in> S \<and> (\<forall>e'\<in>S. fst e \<le> fst e')"
  by (simp_all add: newest_of_def)

lemma newest_of_in: "newest_of (Some e) S \<Longrightarrow> e \<in> S"
  by simp

lemma newest_le: "newest_of (Some e) S \<Longrightarrow> x \<in> S \<Longrightarrow> fst e \<le> fst x"
  by simp

lemma newest_Some: "newest_of c S \<Longrightarrow> x \<in> S \<Longrightarrow> \<exists>e. c = Some e \<and> e \<in> S \<and> fst e \<le> fst x"
  by (cases c) auto

lemma newest_exists:
  assumes "finite S"
  shows "\<exists>c. newest_of c S"
proof (cases "S = {}")
  case False
  then have m: "Min (fst ` S) \<in> fst ` S" "\<forall>e\<in>S. Min (fst ` S) \<le> fst e" using assms by auto
  then obtain e where "e \<in> S" "Min (fst ` S) = fst e" by blast
  then show ?thesis using m(2) by (intro exI [of _ "Some e"]) simp
qed (auto intro: exI [of _ None])

lemma newest_of_same_key: "newest_of (Some a) S \<Longrightarrow> newest_of (Some b) S \<Longrightarrow> fst a = fst b"
  by (rule antisym) (simp_all only: newest_of_simps)

lemma keep_newer_newest:
  assumes "newest_of c S" "newest_of (Some e) T"
  shows "newest_of (keep_newer_point_candidate c (fst e) (snd e)) (S \<union> T)"
  using assms
  by (cases c) (auto simp: keep_newer_point_candidate_def not_less intro: order_trans less_imp_le)

lemma newest_of_skip:
  assumes "newest_of c S" "\<And>e. e \<in> T \<Longrightarrow> \<exists>e0. c = Some e0 \<and> fst e0 \<le> fst e"
  shows "newest_of c (S \<union> T)"
  using assms by (cases c) auto

text \<open>On a sorted list the newest record with a property is the first one.\<close>

lemma find_newest:
  assumes "sorted (map fst xs)"
  shows "newest_of (find P xs) {e \<in> set xs. P e}"
  using assms
proof (induction xs)
  case (Cons x xs)
  have "{e \<in> set (x # xs). P e} = {e \<in> set xs. P e}" if "\<not> P x"
    using that by auto
  then show ?case
    using Cons by (cases "P x") (auto simp: newest_of_simps(2))
qed simp

lemma mvcc_readI:
  "newest_of c (visible_records key s R) \<Longrightarrow> r = mvcc_result rb T s c \<Longrightarrow> mvcc_read rb R T key s r"
  unfolding mvcc_read_def by blast

section \<open>Sources of point records\<close>

text \<open>Folding one lookup result into the candidate.\<close>

definition merge_candidate :: "point_record option \<Rightarrow> point_record option \<Rightarrow> point_record option" where
  "merge_candidate c d =
     (case d of None \<Rightarrow> c | Some e \<Rightarrow> keep_newer_point_candidate c (fst e) (snd e))"

lemma merge_candidate_newest:
  "newest_of c S \<Longrightarrow> newest_of d T \<Longrightarrow> newest_of (merge_candidate c d) (S \<union> T)"
  using keep_newer_newest by (cases d) (auto simp: merge_candidate_def)

lemma merge_candidate_None [simp]: "merge_candidate None d = d" "merge_candidate c None = c"
  by (cases d) (simp_all add: merge_candidate_def keep_newer_point_candidate_def)

locale point_source =
  fixes wf :: "'s \<Rightarrow> bool"
    and records_of :: "'s \<Rightarrow> point_record set"
    and lookup :: "'s \<Rightarrow> bytes \<Rightarrow> sequence \<Rightarrow> point_record option result"
  assumes lookup_newest:
    "wf s \<Longrightarrow> \<exists>c. lookup s key r = Inr c \<and> newest_of c (visible_records key r (records_of s))"
begin

lemma lookup_total: "wf s \<Longrightarrow> is_ok (lookup s key r)"
  using lookup_newest by (fastforce simp: is_ok_iff)

lemma lookup_None_iff:
  "wf s \<Longrightarrow> lookup s key r = Inr None \<longleftrightarrow> visible_records key r (records_of s) = {}"
  using lookup_newest [of s key r] by (metis Inr_inject newest_of_simps empty_iff option.exhaust)

lemma fold_lookup_newest:
  assumes "\<forall>s\<in>set ss. wf s" "newest_of c S"
    and skip_none: "\<And>s e. s \<in> set ss \<Longrightarrow> \<not> probe s None \<Longrightarrow>
      e \<notin> visible_records key r (records_of s)"
    and skip_some: "\<And>xs s ys e0 e. ss = xs @ s # ys \<Longrightarrow>
      e0 \<in> S \<union> (\<Union>x\<in>set xs. visible_records key r (records_of x)) \<Longrightarrow>
      e \<in> visible_records key r (records_of s) \<Longrightarrow> \<not> probe s (Some e0) \<Longrightarrow> fst e0 \<le> fst e"
  shows "\<exists>c'. fold_result (\<lambda>s c. if probe s c
      then and_then (lookup s key r) (\<lambda>d. Inr (merge_candidate c d)) else Inr c) ss c = Inr c' \<and>
    newest_of c' (S \<union> (\<Union>x\<in>set ss. visible_records key r (records_of x)))"
  using assms
proof (induction ss arbitrary: c S)
  case (Cons s ss)
  let ?V = "\<lambda>x. visible_records key r (records_of x)"
  let ?f = "\<lambda>s c. if probe s c
      then and_then (lookup s key r) (\<lambda>d. Inr (merge_candidate c d)) else Inr c"
  have "\<exists>c1. ?f s c = Inr c1 \<and> newest_of c1 (S \<union> ?V s)"
  proof (cases "probe s c")
    case True
    obtain d where "lookup s key r = Inr d" "newest_of d (?V s)"
      using lookup_newest [of s key r] Cons.prems(1) by auto
    then show ?thesis
      using True merge_candidate_newest [OF Cons.prems(2)] by simp
  next
    case False
    have "newest_of c (S \<union> ?V s)"
    proof (rule newest_of_skip [OF Cons.prems(2)])
      fix e
      assume e: "e \<in> ?V s"
      show "\<exists>e0. c = Some e0 \<and> fst e0 \<le> fst e"
      proof (cases c)
        case None
        then show ?thesis
          using e False Cons.prems(3) [of s e] by simp
      next
        case (Some e0)
        then show ?thesis
          using e False Cons.prems(2) Cons.prems(4) [of "[]" s ss e0 e] by simp
      qed
    qed
    then show ?thesis
      using False by simp
  qed
  then obtain c1 where c1: "?f s c = Inr c1" "newest_of c1 (S \<union> ?V s)"
    by blast
  have "\<exists>c'. fold_result ?f ss c1 = Inr c' \<and>
      newest_of c' ((S \<union> ?V s) \<union> (\<Union>x\<in>set ss. ?V x))"
  proof (rule Cons.IH [OF _ c1(2)])
    show "\<forall>s\<in>set ss. wf s"
      using Cons.prems(1) by simp
    show "e \<notin> ?V x" if "x \<in> set ss" "\<not> probe x None" for x e
      using Cons.prems(3) that by simp
    show "fst e0 \<le> fst e"
      if "ss = xs @ x # ys" "e0 \<in> S \<union> ?V s \<union> (\<Union>x\<in>set xs. ?V x)" "e \<in> ?V x" "\<not> probe x (Some e0)"
      for xs x ys e0 e
      using Cons.prems(4) [of "s # xs" x ys e0 e] that by auto
  qed
  then show ?case
    unfolding fold_result.simps c1(1) and_then_simps list.set UN_insert Un_assoc .
qed simp

end

end
