(* ===== verification/Memtable.thy ===== *)
theory Memtable
  imports Point_Records
begin

text \<open>
  The memtable (\<^verbatim>\<open>src/src/memtable.rs\<close>): an ordered map from internal keys to values with a running
  byte estimate, and the memtable lookup of a point read
  (\<^verbatim>\<open>keep_newest_visible_memtable_point_candidate\<close> of \<^verbatim>\<open>src/src/lsm/read.rs\<close>). The
  atomic counter is a \<open>u64\<close> that wraps, as \<^verbatim>\<open>fetch_add\<close> and \<^verbatim>\<open>fetch_sub\<close> do.

  Shown here: the estimate equals the sum of the entry sizes after any insert or replace, and the
  lookup, which skips memtables whose estimate is zero or whose key span misses the key and then
  walks the bracket of the user key, returns a newest visible record.
\<close>

section \<open>The memtable\<close>

record memtable =
  mt_entries :: "(internal_key \<times> value_ref option) list"
  mt_estimated_bytes :: u64

definition memtable_default :: memtable where
  "memtable_default = \<lparr>mt_entries = [], mt_estimated_bytes = 0\<rparr>"

definition entry_bytes :: "internal_key \<Rightarrow> value_ref option \<Rightarrow> u64" where
  "entry_bytes ik v =
     (let vl = (case v of None \<Rightarrow> 0 | Some r \<Rightarrow> value_ref_len r)
      in saturating_add_word
           (saturating_add_word (usize_to_u64_saturating (length (user_key ik))) vl) 16)"

definition memtable_insert :: "memtable \<Rightarrow> internal_key \<Rightarrow> value_ref option \<Rightarrow> memtable" where
  "memtable_insert m key v =
     (let new_bytes = entry_bytes key v;
          old_value = map_of (mt_entries m) key;
          estimate = (case old_value of
              None \<Rightarrow> mt_estimated_bytes m
            | Some old \<Rightarrow> mt_estimated_bytes m - entry_bytes key old)
      in \<lparr>mt_entries = btree_insert key v (mt_entries m),
          mt_estimated_bytes = estimate + new_bytes\<rparr>)"

definition memtable_is_empty :: "memtable \<Rightarrow> bool" where
  "memtable_is_empty m = (mt_entries m = [])"

section \<open>Point lookup\<close>

definition entries_in_bracket :: "memtable \<Rightarrow> bytes \<Rightarrow> point_record list" where
  "entries_in_bracket m key =
     filter (\<lambda>e. first_internal_key_for_user key \<le> fst e \<and> fst e \<le> last_internal_key_for_user key)
       (mt_entries m)"

definition keep_newest_visible_memtable_point_candidate ::
  "point_record option \<Rightarrow> memtable \<Rightarrow> bytes \<Rightarrow> sequence \<Rightarrow> point_record option" where
  "keep_newest_visible_memtable_point_candidate candidate m key read_sequence =
     (if mt_estimated_bytes m = 0 then candidate
      else if mt_entries m = [] then candidate
      else if key < user_key (fst (hd (mt_entries m))) \<or> key > user_key (fst (last (mt_entries m)))
      then candidate
      else case find (\<lambda>e. \<not> ik_sequence (fst e) > read_sequence) (entries_in_bracket m key) of
             None \<Rightarrow> candidate
           | Some e \<Rightarrow> keep_newer_point_candidate candidate (fst e) (snd e))"

section \<open>Invariant and lemmas\<close>

definition entries_bytes :: "point_record list \<Rightarrow> nat" where
  "entries_bytes es = (\<Sum>e\<leftarrow>es. unat (entry_bytes (fst e) (snd e)))"

text \<open>The map is ordered and the estimate is the total size of the entries, which fits the counter.\<close>

definition memtable_ok :: "memtable \<Rightarrow> bool" where
  "memtable_ok m \<longleftrightarrow>
     btree_ok (mt_entries m) \<and> unat (mt_estimated_bytes m) = entries_bytes (mt_entries m)"

lemma memtable_ok_default [simp]: "memtable_ok memtable_default"
  by (simp add: memtable_ok_def memtable_default_def entries_bytes_def)

lemma memtable_default_entries [simp]: "mt_entries memtable_default = []"
  by (simp add: memtable_default_def)

lemma unat_saturating_add_word:
  "unat (saturating_add_word a (b :: 'a::len word)) = min (unat a + unat b) (2 ^ LENGTH('a) - 1)"
proof (cases "unat a + unat b < 2 ^ LENGTH('a)")
  case True
  then show ?thesis
    by (simp add: saturating_add_word_def unat_word_ariths)
next
  case False
  then show ?thesis
    by (simp add: saturating_add_word_def unsigned_minus_1_eq_mask mask_eq_exp_minus_1)
qed

lemma entry_bytes_ge: "16 \<le> unat (entry_bytes ik v)"
  by (simp add: entry_bytes_def Let_def unat_saturating_add_word)

lemma entries_bytes_simps [simp]:
  "entries_bytes [] = 0"
  "entries_bytes (e # es) = unat (entry_bytes (fst e) (snd e)) + entries_bytes es"
  by (simp_all add: entries_bytes_def)

lemma entries_bytes_zero: "entries_bytes es = 0 \<longleftrightarrow> es = []"
proof (cases es)
  case (Cons e es')
  then show ?thesis
    using entry_bytes_ge [of "fst e" "snd e"] by simp
qed simp

lemma entries_bytes_btree_insert:
  assumes "btree_ok es"
  shows "entries_bytes (btree_insert k v es) +
      (case map_of es k of None \<Rightarrow> 0 | Some old \<Rightarrow> unat (entry_bytes k old)) =
    entries_bytes es + unat (entry_bytes k v)"
  using assms
proof (induction k v es rule: btree_insert.induct)
  case (2 k v k' v' m)
  consider "k < k'" | "k = k'" | "k' < k"
    by (rule linorder_cases)
  then show ?case
  proof cases
    case 1
    then have "map_of ((k', v') # m) k = None"
      using "2.prems" by (auto simp: btree_ok_Cons map_of_eq_None_iff)
    then show ?thesis
      using 1 by simp
  next
    case 2
    then show ?thesis
      by simp
  next
    case 3
    then show ?thesis
      using "2.IH" "2.prems" by (auto simp: btree_ok_Cons split: option.splits)
  qed
qed simp

lemma entries_bytes_member:
  "map_of es k = Some v \<Longrightarrow> unat (entry_bytes k v) \<le> entries_bytes es"
  by (induction es) (auto split: if_splits)

lemma estimate_update:
  assumes "unat est = n" "old \<le> n" "n - old + new < 2 ^ 64"
  shows "unat (est - word_of_nat old + word_of_nat new :: u64) = n - old + new"
proof -
  have "est = word_of_nat n"
    using assms(1) by auto
  then have "est - word_of_nat old + word_of_nat new = (word_of_nat (n - old + new) :: u64)"
    using assms(2) by (simp add: of_nat_diff)
  then show ?thesis
    using assms(3) by (simp only: unat_of_nat) simp
qed

lemma memtable_insert_ok:
  assumes "memtable_ok m" "entries_bytes (mt_entries (memtable_insert m k v)) < 2 ^ 64"
  shows "memtable_ok (memtable_insert m k v)"
proof -
  let ?old = "case map_of (mt_entries m) k of None \<Rightarrow> 0 | Some old \<Rightarrow> unat (entry_bytes k old)"
  have ok: "btree_ok (mt_entries m)" "unat (mt_estimated_bytes m) = entries_bytes (mt_entries m)"
    using assms(1) by (simp_all add: memtable_ok_def)
  have le: "?old \<le> entries_bytes (mt_entries m)"
    using entries_bytes_member [of "mt_entries m" k] by (auto split: option.splits)
  have eq: "entries_bytes (btree_insert k v (mt_entries m)) =
      entries_bytes (mt_entries m) - ?old + unat (entry_bytes k v)"
    using entries_bytes_btree_insert [OF ok(1), of k v] le by simp
  have "mt_estimated_bytes (memtable_insert m k v) =
      mt_estimated_bytes m - word_of_nat ?old + word_of_nat (unat (entry_bytes k v))"
    by (simp add: memtable_insert_def Let_def split: option.splits)
  then have "unat (mt_estimated_bytes (memtable_insert m k v)) =
      entries_bytes (mt_entries m) - ?old + unat (entry_bytes k v)"
    using estimate_update [OF ok(2) le, of "unat (entry_bytes k v)"] assms(2) eq
    by (simp add: memtable_insert_def Let_def)
  then show ?thesis
    using ok(1) eq by (simp add: memtable_ok_def memtable_insert_def Let_def)
qed

lemma memtable_insert_entries:
  "btree_ok (mt_entries m) \<Longrightarrow>
    set (mt_entries (memtable_insert m k v)) = insert (k, v) {e \<in> set (mt_entries m). fst e \<noteq> k}"
  by (simp add: memtable_insert_def Let_def set_btree_insert)

section \<open>The lookup is a point source\<close>

lemma bracket_iff:
  "first_internal_key_for_user key \<le> ik \<and> ik \<le> last_internal_key_for_user key \<longleftrightarrow> user_key ik = key"
proof
  assume "first_internal_key_for_user key \<le> ik \<and> ik \<le> last_internal_key_for_user key"
  then have "key \<le> user_key ik" "user_key ik \<le> key"
    using less_eq_internal_key_user_key by (metis user_key_probe)+
  then show "user_key ik = key"
    by simp
qed (use first_internal_key_le last_internal_key_ge in auto)

lemma entries_in_bracket_eq:
  "entries_in_bracket m key = filter (\<lambda>e. user_key (fst e) = key) (mt_entries m)"
  unfolding entries_in_bracket_def by (rule filter_cong) (auto simp: bracket_iff)

text \<open>Entries outside the span of the first and the last entry.\<close>

lemma sorted_span:
  assumes "sorted (map fst es)" "e \<in> set es"
  shows "user_key (fst (hd es)) \<le> user_key (fst e)" "user_key (fst e) \<le> user_key (fst (last es))"
proof -
  have "fst (hd es) \<le> fst e"
    using assms by (cases es) auto
  then show "user_key (fst (hd es)) \<le> user_key (fst e)"
    by (rule less_eq_internal_key_user_key)
  have "fst e \<le> fst (last es)"
    using assms by (induction es rule: rev_induct) (auto simp: sorted_append)
  then show "user_key (fst e) \<le> user_key (fst (last es))"
    by (rule less_eq_internal_key_user_key)
qed

lemma memtable_candidate_newest:
  assumes "memtable_ok m"
  shows "newest_of (keep_newest_visible_memtable_point_candidate None m key s)
    (visible_records key s (set (mt_entries m)))"
proof -
  let ?es = "mt_entries m"
  let ?f = "find (\<lambda>e. \<not> ik_sequence (fst e) > s) (entries_in_bracket m key)"
  have ok: "btree_ok ?es" "mt_estimated_bytes m = 0 \<longleftrightarrow> ?es = []"
    using assms entries_bytes_zero [of ?es] by (auto simp: memtable_ok_def unat_eq_0)
  have srt: "sorted (map fst ?es)"
    using btree_ok_sorted [OF ok(1)] .
  have "newest_of ?f {e \<in> set (entries_in_bracket m key). \<not> ik_sequence (fst e) > s}"
    using btree_ok_sorted [OF btree_ok_filter [OF ok(1)]]
    by (intro find_newest) (simp add: entries_in_bracket_def)
  moreover have "{e \<in> set (entries_in_bracket m key). \<not> ik_sequence (fst e) > s} =
      visible_records key s (set ?es)"
    by (auto simp: entries_in_bracket_eq record_simps not_less)
  ultimately have n: "newest_of ?f (visible_records key s (set ?es))"
    by simp
  have "keep_newest_visible_memtable_point_candidate None m key s = ?f"
  proof (cases "?es = [] \<or> key < user_key (fst (hd ?es)) \<or> key > user_key (fst (last ?es))")
    case True
    then have "visible_records key s (set ?es) = {}"
      using sorted_span [OF srt] by (fastforce simp: record_simps)
    then have "?f = None"
      using n by (cases ?f) auto
    then show ?thesis
      using True by (simp add: keep_newest_visible_memtable_point_candidate_def)
  next
    case False
    then show ?thesis
      using ok(2) by (auto simp: keep_newest_visible_memtable_point_candidate_def
          keep_newer_point_candidate_def split: option.splits)
  qed
  then show ?thesis
    using n by simp
qed

lemma memtable_candidate_merge:
  "keep_newest_visible_memtable_point_candidate c m key s =
     merge_candidate c (keep_newest_visible_memtable_point_candidate None m key s)"
  by (auto simp: keep_newest_visible_memtable_point_candidate_def merge_candidate_def
      keep_newer_point_candidate_def split: option.splits)

definition memtable_lookup :: "memtable \<Rightarrow> bytes \<Rightarrow> sequence \<Rightarrow> point_record option result" where
  "memtable_lookup m key s = Inr (keep_newest_visible_memtable_point_candidate None m key s)"

interpretation mem: point_source memtable_ok "\<lambda>m. set (mt_entries m)" memtable_lookup
  by unfold_locales (simp add: memtable_lookup_def memtable_candidate_newest)

text \<open>C33: Inserting a record keeps the memtable ordered and its byte estimate exact, replaces exactly
  the record with the same internal key, and the next point lookup of the key at or above the new
  record's sequence returns it or a record of the key that is newer still.\<close>
theorem memtable_insert_lookup:
  assumes "memtable_ok m" "entries_bytes (mt_entries (memtable_insert m k v)) < 2 ^ 64"
    and "ik_sequence k \<le> s"
  shows "memtable_ok (memtable_insert m k v) \<and>
    set (mt_entries (memtable_insert m k v)) = insert (k, v) {e \<in> set (mt_entries m). fst e \<noteq> k} \<and>
    (\<exists>e. keep_newest_visible_memtable_point_candidate None (memtable_insert m k v) (user_key k) s =
       Some e \<and> (e = (k, v) \<or> fst e < k \<and> e \<in> set (mt_entries m)))"
proof -
  note ok = memtable_insert_ok [OF assms(1,2)]
  have set: "set (mt_entries (memtable_insert m k v)) =
      insert (k, v) {e \<in> set (mt_entries m). fst e \<noteq> k}"
    using assms(1) memtable_insert_entries by (simp add: memtable_ok_def)
  let ?c = "keep_newest_visible_memtable_point_candidate None (memtable_insert m k v) (user_key k) s"
  have n: "newest_of ?c (visible_records (user_key k) s (set (mt_entries (memtable_insert m k v))))"
    using memtable_candidate_newest [OF ok] .
  have kv: "(k, v) \<in> visible_records (user_key k) s (set (mt_entries (memtable_insert m k v)))"
    using set assms(3) by (simp add: record_simps)
  obtain e where e: "?c = Some e"
    using n kv by (cases ?c) auto
  have "e = (k, v) \<or> fst e < k \<and> e \<in> set (mt_entries m)"
    using n kv unfolding e newest_of_simps set by (fastforce simp: record_simps set)
  then show ?thesis
    using ok set e by blast
qed

theorem memtable_insert_lookup_witness:
  "keep_newest_visible_memtable_point_candidate None
     (memtable_insert memtable_default (InternalKey [1] 5 Put 0) (Some (Inline [9]))) [1] 7 =
   Some (InternalKey [1] 5 Put 0, Some (Inline [9]))"
  using memtable_insert_lookup [OF memtable_ok_default, of "InternalKey [1] 5 Put 0" "Some (Inline [9])" 7]
  by (simp add: memtable_insert_def memtable_default_def entry_bytes_def saturating_add_word_def
      usize_to_u64_saturating_def word_le_nat_alt)

end
