(* ===== verification/Data_Block.thy ===== *)
theory Data_Block
  imports Point_Records Search
begin

text \<open>
  Decoded data blocks of a table (\<^verbatim>\<open>DecodedDataBlock\<close>, \<^verbatim>\<open>DataBlockPointLookupIndex\<close> of
  \<^verbatim>\<open>src/src/table.rs\<close>) and the block-level lookups of \<^verbatim>\<open>src/src/table/cursor.rs\<close>: the hash index
  that maps the hash of a user key to its run of records, and the restart points, one every sixteen
  records, at which a range scan enters the block. A block is represented by its records, its restart
  record indexes and its hash entries, the content that decoding its bytes yields.

  Shown here: the hash index finds exactly the records of a key in spite of hash collisions, the newest
  visible record it returns is the newest one, and a range scan returns every record in the range
  except, possibly, versions of the key at its lower bound; whenever a restart
  point and a record in front of it are versions of that key, the newest versions are skipped.
\<close>

section \<open>Blocks and their hash index\<close>

definition DATA_BLOCK_RESTART_INTERVAL :: usize where "DATA_BLOCK_RESTART_INTERVAL = 16"

definition invalid_table :: "string \<Rightarrow> error" where
  "invalid_table message = InvalidFormat (''invalid table: '' @ message)"

definition usize_to_u32 :: "usize \<Rightarrow> string \<Rightarrow> u32 result" where
  "usize_to_u32 n field =
     (if n < 2 ^ 32 then Ok (word_of_nat n) else Err (InvalidOptions (field @ '' exceeds u32::MAX'')))"

definition user_key_hash :: "bytes \<Rightarrow> u64" where
  "user_key_hash bs =
     foldl (\<lambda>hash b. (xor hash (ucast b)) * 0x100000001b3) 0xcbf29ce484222325 bs"

record block_hash_entry =
  key_hash :: u64
  start_record :: u32
  end_record :: u32

definition compare_hash_entries :: "block_hash_entry \<Rightarrow> block_hash_entry \<Rightarrow> ordering" where
  "compare_hash_entries a b =
     then_with (cmp (key_hash a) (key_hash b)) (cmp (start_record a) (start_record b))"

definition from_entries :: "block_hash_entry list \<Rightarrow> block_hash_entry list" where
  "from_entries entries = sort_by compare_hash_entries entries"

text \<open>The two nested loops over the records: one entry per run of equal user keys.\<close>

function hash_entries_from :: "usize \<Rightarrow> point_record list \<Rightarrow> block_hash_entry list result" where
  "hash_entries_from start [] = Ok []"
| "hash_entries_from start (r # rs) =
     (let key = user_key (fst r);
          stop = start + 1 + length (takeWhile (\<lambda>x. user_key (fst x) = key) rs)
      in and_then (usize_to_u32 start ''data block hash range start'') (\<lambda>s.
         and_then (usize_to_u32 stop ''data block hash range end'') (\<lambda>e.
         and_then (hash_entries_from stop (dropWhile (\<lambda>x. user_key (fst x) = key) rs)) (\<lambda>es.
         Ok (\<lparr>key_hash = user_key_hash key, start_record = s, end_record = e\<rparr> # es)))))"
  by pat_completeness auto
termination
  by (relation "measure (\<lambda>(_, rs). length rs)") (auto simp: le_imp_less_Suc length_dropWhile_le)

definition lookup_index_from_records :: "point_record list \<Rightarrow> block_hash_entry list result" where
  "lookup_index_from_records rs =
     and_then (hash_entries_from 0 rs) (\<lambda>entries. Ok (from_entries entries))"

definition matching_entries :: "block_hash_entry list \<Rightarrow> u64 \<Rightarrow> block_hash_entry list" where
  "matching_entries entries h =
     (let start = partition_point (\<lambda>entry. key_hash entry < h) entries;
          stop = start + partition_point (\<lambda>entry. key_hash entry = h) (drop start entries)
      in take (stop - start) (drop start entries))"

record decoded_data_block =
  db_records :: "point_record list"
  restart_indices :: "u32 list"
  point_lookup_index :: "block_hash_entry list"

definition restart_points :: "usize \<Rightarrow> usize list" where
  "restart_points n = filter (\<lambda>i. i mod DATA_BLOCK_RESTART_INTERVAL = 0) [0..<n]"

definition decoded_from_records :: "point_record list \<Rightarrow> decoded_data_block result" where
  "decoded_from_records rs =
     and_then (lookup_index_from_records rs) (\<lambda>index.
     and_then (map_result (\<lambda>i. usize_to_u32 i ''data block restart record index'')
         (restart_points (length rs))) (\<lambda>restarts.
     Ok \<lparr>db_records = rs, restart_indices = restarts, point_lookup_index = index\<rparr>))"

definition record_at :: "decoded_data_block \<Rightarrow> usize \<Rightarrow> point_record result" where
  "record_at b i =
     (if i < length (db_records b) then Ok (db_records b ! i)
      else Err (invalid_table ''record index outside data block''))"

section \<open>Point lookups in a block\<close>

fun record_range_in_entries ::
  "decoded_data_block \<Rightarrow> bytes \<Rightarrow> block_hash_entry list \<Rightarrow> (usize \<times> usize) result" where
  "record_range_in_entries b key [] = Ok (0, 0)"
| "record_range_in_entries b key (entry # es) =
     and_then (record_at b (unat (start_record entry))) (\<lambda>first.
     if user_key (fst first) = key
     then Ok (unat (start_record entry), unat (end_record entry))
     else record_range_in_entries b key es)"

definition data_block_point_record_range_for_key ::
  "decoded_data_block \<Rightarrow> bytes \<Rightarrow> (usize \<times> usize) result" where
  "data_block_point_record_range_for_key b key =
     record_range_in_entries b key (matching_entries (point_lookup_index b) (user_key_hash key))"

definition data_block_point_records_for_key ::
  "decoded_data_block \<Rightarrow> bytes \<Rightarrow> point_record list result" where
  "data_block_point_records_for_key b key =
     and_then (data_block_point_record_range_for_key b key) (\<lambda>(start, stop).
     map_result (record_at b) [start..<stop])"

fun first_visible_record ::
  "decoded_data_block \<Rightarrow> sequence \<Rightarrow> usize list \<Rightarrow> point_record option result" where
  "first_visible_record b s [] = Ok None"
| "first_visible_record b s (i # is) =
     and_then (record_at b i) (\<lambda>r.
     if ik_sequence (fst r) \<le> s then Ok (Some r) else first_visible_record b s is)"

fun newest_visible_in_entries ::
  "decoded_data_block \<Rightarrow> bytes \<Rightarrow> sequence \<Rightarrow> block_hash_entry list \<Rightarrow> (bool \<times> point_record option) result" where
  "newest_visible_in_entries b key s [] = Ok (False, None)"
| "newest_visible_in_entries b key s (entry # es) =
     (let start = unat (start_record entry); stop = unat (end_record entry)
      in and_then (record_at b start) (\<lambda>first.
         if user_key (fst first) \<noteq> key then newest_visible_in_entries b key s es
         else if ik_sequence (fst first) \<le> s then Ok (True, Some first)
         else and_then (first_visible_record b s [start + 1..<stop]) (\<lambda>r. Ok (True, r))))"

definition data_block_newest_visible_point_value_record_for_key ::
  "decoded_data_block \<Rightarrow> bytes \<Rightarrow> sequence \<Rightarrow> (bool \<times> point_record option) result" where
  "data_block_newest_visible_point_value_record_for_key b key s =
     newest_visible_in_entries b key s (matching_entries (point_lookup_index b) (user_key_hash key))"

section \<open>Range scans in a block\<close>

fun linear_restart_from :: "decoded_data_block \<Rightarrow> bytes \<Rightarrow> usize \<Rightarrow> u32 list \<Rightarrow> usize result" where
  "linear_restart_from b key index [] = Ok index"
| "linear_restart_from b key index (restart # rest) =
     and_then (record_at b (unat restart)) (\<lambda>r.
     if user_key (fst r) > key then Ok index else linear_restart_from b key (index + 1) rest)"

definition data_block_linear_restart_partition_point ::
  "decoded_data_block \<Rightarrow> bytes \<Rightarrow> usize result" where
  "data_block_linear_restart_partition_point b key = linear_restart_from b key 0 (restart_indices b)"

function binary_restart_loop ::
  "decoded_data_block \<Rightarrow> bytes \<Rightarrow> usize \<Rightarrow> usize \<Rightarrow> usize result" where
  "binary_restart_loop b key left right =
     (if left < right then
        let middle = left + (right - left) div 2
        in and_then (record_at b (unat (restart_indices b ! middle))) (\<lambda>r.
           if user_key (fst r) \<le> key then binary_restart_loop b key (middle + 1) right
           else binary_restart_loop b key left middle)
      else Ok left)"
  by pat_completeness auto
termination
  by (relation "measure (\<lambda>(_, _, left, right). right - left)") auto

definition data_block_binary_restart_partition_point ::
  "decoded_data_block \<Rightarrow> bytes \<Rightarrow> usize result" where
  "data_block_binary_restart_partition_point b key =
     binary_restart_loop b key 0 (length (restart_indices b))"

definition data_block_restart_index_for_key ::
  "decoded_data_block \<Rightarrow> bytes \<Rightarrow> index_search_policy \<Rightarrow> usize result" where
  "data_block_restart_index_for_key b key policy =
     and_then (case policy of
         Linear \<Rightarrow> data_block_linear_restart_partition_point b key
       | Auto \<Rightarrow> (if length (restart_indices b) \<le> 8
                  then data_block_linear_restart_partition_point b key
                  else data_block_binary_restart_partition_point b key)
       | Binary \<Rightarrow> data_block_binary_restart_partition_point b key) (\<lambda>upper.
     if upper = 0 then Ok 0 else Ok (unat (restart_indices b ! (upper - 1))))"

fun data_block_restart_index_for_bound ::
  "decoded_data_block \<Rightarrow> bytes bound \<Rightarrow> index_search_policy \<Rightarrow> usize result" where
  "data_block_restart_index_for_bound b (Included key) policy = data_block_restart_index_for_key b key policy"
| "data_block_restart_index_for_bound b (Excluded key) policy = data_block_restart_index_for_key b key policy"
| "data_block_restart_index_for_bound b Unbounded policy = Ok 0"

fun collect_records_in_range ::
  "decoded_data_block \<Rightarrow> key_range \<Rightarrow> usize list \<Rightarrow> point_record list result" where
  "collect_records_in_range b r [] = Ok []"
| "collect_records_in_range b r (i # is) =
     and_then (record_at b i) (\<lambda>e.
     if key_is_before_start (user_key (fst e)) (kr_start r) then collect_records_in_range b r is
     else if key_is_after_end (user_key (fst e)) (kr_end r) then Ok []
     else and_then (collect_records_in_range b r is) (\<lambda>es. Ok (e # es)))"

definition data_block_point_records_in_range ::
  "decoded_data_block \<Rightarrow> key_range \<Rightarrow> index_search_policy \<Rightarrow> point_record list result" where
  "data_block_point_records_in_range b r policy =
     and_then (data_block_restart_index_for_bound b (kr_start r) policy) (\<lambda>start.
     collect_records_in_range b r [start..<length (db_records b)])"

section \<open>The hash index finds the run of a key\<close>

declare binary_restart_loop.simps [simp del]

text \<open>A block as the decoder accepts it: strictly ordered records, the hash index of its runs, and
  restart record indexes in ascending order inside the block.\<close>

definition block_ok :: "decoded_data_block \<Rightarrow> bool" where
  "block_ok b \<longleftrightarrow>
     btree_ok (db_records b) \<and>
     lookup_index_from_records (db_records b) = Inr (point_lookup_index b) \<and>
     sorted_wrt (<) (map unat (restart_indices b)) \<and>
     (\<forall>i\<in>set (restart_indices b). unat i < length (db_records b))"

definition entry_ok :: "point_record list \<Rightarrow> block_hash_entry \<Rightarrow> bool" where
  "entry_ok rs e \<longleftrightarrow>
     unat (start_record e) < unat (end_record e) \<and> unat (end_record e) \<le> length rs \<and>
     key_hash e = user_key_hash (user_key (fst (rs ! unat (start_record e)))) \<and>
     take (unat (end_record e) - unat (start_record e)) (drop (unat (start_record e)) rs) =
       filter (\<lambda>r. user_key (fst r) = user_key (fst (rs ! unat (start_record e)))) rs"

lemma find_filter: "find P (filter Q xs) = find (\<lambda>x. Q x \<and> P x) xs"
  by (induction xs) auto

lemma usize_to_u32_Ok: "usize_to_u32 n field = Inr w \<Longrightarrow> unat w = n"
  by (auto simp: usize_to_u32_def unat_of_nat split: if_splits)

lemma btree_ok_user_keys: "btree_ok rs \<Longrightarrow> sorted (map (\<lambda>r. user_key (fst r)) rs)"
  unfolding btree_ok_def sorted_wrt_map
  by (rule sorted_wrt_mono_rel) (auto intro: less_internal_key_user_key)

lemma run_rest_keys:
  assumes "sorted (map (\<lambda>r. user_key (fst r)) (r # rs))" "key = user_key (fst r)"
    "y \<in> set (dropWhile (\<lambda>x. user_key (fst x) = key) rs)"
  shows "key < user_key (fst y)"
  using assms(1,3) unfolding assms(2)
proof (induction rs)
  case (Cons x rs)
  then show ?case
    by (cases "user_key (fst x) = user_key (fst r)") fastforce+
qed simp

lemma hash_entries_ok:
  assumes "hash_entries_from start rs = Inr es" "drop start recs = rs" "start \<le> length recs"
    "sorted (map (\<lambda>r. user_key (fst r)) recs)"
    "\<forall>x\<in>set (take start recs). \<forall>y\<in>set rs. user_key (fst x) \<noteq> user_key (fst y)"
  shows "(\<forall>e\<in>set es. entry_ok recs e) \<and>
    (\<forall>r\<in>set rs. \<exists>e\<in>set es. user_key (fst (recs ! unat (start_record e))) = user_key (fst r))"
  using assms
proof (induction start rs arbitrary: es rule: hash_entries_from.induct)
  case (2 start r rs)
  let ?same = "\<lambda>x. user_key (fst x) = user_key (fst r)"
  let ?run = "takeWhile ?same rs" and ?rest = "dropWhile ?same rs"
  let ?stop = "start + 1 + length ?run"
  obtain pre where pre: "pre = take start recs"
    by blast
  have rs: "recs = pre @ (r # ?run) @ ?rest"
    using "2.prems"(2) unfolding pre by (metis append_Cons append_take_drop_id takeWhile_dropWhile_id)
  obtain s e es' where se: "usize_to_u32 start ''data block hash range start'' = Inr s"
      "usize_to_u32 ?stop ''data block hash range end'' = Inr e"
      "hash_entries_from ?stop ?rest = Inr es'"
    and es: "es = \<lparr>key_hash = user_key_hash (user_key (fst r)), start_record = s, end_record = e\<rparr> # es'"
    using "2.prems"(1) by (auto simp: Let_def and_then_eq_Inr_iff)
  note u = usize_to_u32_Ok [OF se(1)] usize_to_u32_Ok [OF se(2)]
  have len: "length pre = start"
    using "2.prems"(3) by (simp add: pre)
  have stop: "take ?stop recs = pre @ r # ?run" "drop ?stop recs = ?rest" "?stop \<le> length recs"
    unfolding rs len [symmetric]
    by (simp_all add: takeWhile_eq_take [symmetric] dropWhile_eq_drop [symmetric] length_takeWhile_le)
  have srt: "sorted (map (\<lambda>r. user_key (fst r)) (r # rs))"
    using "2.prems"(2,4) sorted_wrt_drop [of "(\<le>)" "map (\<lambda>r. user_key (fst r)) recs" start]
    by (simp add: drop_map)
  have rest: "\<And>y. y \<in> set ?rest \<Longrightarrow> user_key (fst r) \<noteq> user_key (fst y)"
    using run_rest_keys [OF srt refl] by fastforce
  have run: "\<And>x. x \<in> set ?run \<Longrightarrow> user_key (fst x) = user_key (fst r)"
    by (auto dest: set_takeWhileD)
  have fst_ok: "entry_ok recs
      \<lparr>key_hash = user_key_hash (user_key (fst r)), start_record = s, end_record = e\<rparr>"
  proof -
    have nth: "recs ! start = r"
      unfolding rs len [symmetric] by simp
    have "filter ?same recs = r # ?run"
    proof -
      have "filter ?same pre = []"
        using "2.prems"(5) by (auto simp: filter_empty_conv pre)
      moreover have "filter ?same ?rest = []"
        unfolding filter_empty_conv using rest by metis
      moreover have "filter ?same ?run = ?run"
        unfolding filter_id_conv using run by blast
      ultimately show ?thesis
        unfolding rs filter_append by simp
    qed
    moreover have "take (?stop - start) (drop start recs) = r # ?run"
      unfolding rs len [symmetric] by (simp add: takeWhile_eq_take [symmetric])
    ultimately show ?thesis
      using nth u stop(3) by (simp add: entry_ok_def)
  qed
  have ih: "(\<forall>e\<in>set es'. entry_ok recs e) \<and>
    (\<forall>r\<in>set ?rest. \<exists>e\<in>set es'. user_key (fst (recs ! unat (start_record e))) = user_key (fst r))"
  proof (rule "2.IH" [OF refl refl se(1,2) se(3) stop(2,3) "2.prems"(4)])
    show "\<forall>x\<in>set (take ?stop recs). \<forall>y\<in>set ?rest. user_key (fst x) \<noteq> user_key (fst y)"
    proof (intro ballI)
      fix x y
      assume x: "x \<in> set (take ?stop recs)" and y: "y \<in> set ?rest"
      have "x \<in> set pre \<or> user_key (fst x) = user_key (fst r)"
        using x unfolding stop(1) set_append list.set(2) Un_iff insert_iff using run by blast
      then show "user_key (fst x) \<noteq> user_key (fst y)"
        using "2.prems"(5) rest [OF y] set_dropWhileD [OF y] unfolding pre by auto
    qed
  qed
  have nth: "recs ! unat s = r"
    unfolding u(1) rs len [symmetric] by simp
  have rs_set: "set rs = set ?run \<union> set ?rest"
    by (metis set_append takeWhile_dropWhile_id)
  show ?case
  proof (intro conjI ballI)
    show "entry_ok recs x" if "x \<in> set es" for x
      using that fst_ok ih unfolding es by auto
    fix x
    assume "x \<in> set (r # rs)"
    then consider "user_key (fst x) = user_key (fst r)" | "x \<in> set ?rest"
      unfolding list.set(2) rs_set using run by blast
    then show "\<exists>e\<in>set es. user_key (fst (recs ! unat (start_record e))) = user_key (fst x)"
    proof cases
      case 1
      then show ?thesis
        using nth by (simp add: es)
    next
      case 2
      then show ?thesis
        using ih unfolding es list.set(2) by blast
    qed
  qed
qed simp


lemma matching_entries_filter:
  assumes "sorted_by compare_hash_entries entries"
  shows "matching_entries entries h = filter (\<lambda>e. key_hash e = h) entries"
proof -
  have "sorted_wrt (\<lambda>a b. key_hash a \<le> key_hash b) entries"
    using assms unfolding sorted_by_def
    by (rule sorted_wrt_mono_rel [rotated]) (auto simp: compare_hash_entries_def order_simps)
  then have "takeWhile (\<lambda>e. key_hash e = h) (dropWhile (\<lambda>e. key_hash e < h) entries) =
      filter (\<lambda>e. key_hash e = h) entries"
  proof (induction entries)
    case (Cons e es)
    have ge: "\<forall>x\<in>set es. key_hash e \<le> key_hash x" and srt: "sorted_wrt (\<lambda>a b. key_hash a \<le> key_hash b) es"
      using Cons.prems by simp_all
    consider "key_hash e < h" | "key_hash e = h" | "h < key_hash e"
      by (rule linorder_cases)
    then show ?case
    proof cases
      case 1
      then show ?thesis
        using Cons.IH [OF srt] by simp
    next
      case 2
      have "sorted_wrt (\<lambda>a b. key_hash a \<le> key_hash b \<and> h \<le> key_hash a) es"
        using ge 2 by (intro sorted_wrt_mono_rel [OF _ srt]) blast
      then have "partitioned (\<lambda>e. key_hash e = h) es"
        by (rule partitioned_sorted_wrt) (auto intro: antisym)
      then show ?thesis
        using 2 by (simp add: partitioned_def)
    next
      case 3
      then have "filter (\<lambda>e. key_hash e = h) es = []"
        using ge unfolding filter_empty_conv by (metis leD)
      moreover have "\<not> key_hash e < h" "key_hash e \<noteq> h"
        using 3 by (auto dest: less_asym)
      ultimately show ?thesis
        by simp
    qed
  qed simp
  then show ?thesis
    by (simp add: matching_entries_def Let_def drop_partition_point take_partition_point)
qed

lemma total_preorder_compare_hash_entries: "total_preorder compare_hash_entries"
proof -
  have eq: "compare_hash_entries = (\<lambda>(a :: block_hash_entry) b.
      then_with (cmp (key_hash a) (key_hash b)) (cmp (start_record a) (start_record b)))"
    by (rule ext)+ (simp add: compare_hash_entries_def)
  show ?thesis
    unfolding eq by (rule total_preorder_then_with) (rule total_preorder_cmp)+
qed

lemma block_entries:
  assumes "block_ok b"
  shows "e \<in> set (matching_entries (point_lookup_index b) h) \<Longrightarrow> entry_ok (db_records b) e"
    and "(\<exists>e\<in>set (matching_entries (point_lookup_index b) (user_key_hash key)).
        user_key (fst (db_records b ! unat (start_record e))) = key) \<longleftrightarrow>
      (\<exists>r\<in>set (db_records b). user_key (fst r) = key)" (is "?L \<longleftrightarrow> ?R")
proof -
  let ?rs = "db_records b"
  obtain es where es: "hash_entries_from 0 ?rs = Inr es" "point_lookup_index b = from_entries es"
    using assms by (auto simp: block_ok_def lookup_index_from_records_def and_then_eq_Inr_iff)
  have ok: "(\<forall>e\<in>set es. entry_ok ?rs e) \<and>
      (\<forall>r\<in>set ?rs. \<exists>e\<in>set es. user_key (fst (?rs ! unat (start_record e))) = user_key (fst r))"
    by (rule hash_entries_ok [OF es(1)]) (use assms in \<open>simp_all add: block_ok_def btree_ok_user_keys\<close>)
  have set: "set (matching_entries (point_lookup_index b) h) = {e \<in> set es. key_hash e = h}" for h
    using matching_entries_filter [OF sorted_by_sort_by [OF total_preorder_compare_hash_entries]]
    by (simp add: es(2) from_entries_def)
  show "e \<in> set (matching_entries (point_lookup_index b) h) \<Longrightarrow> entry_ok ?rs e"
    using ok set by blast
  show "?L \<longleftrightarrow> ?R"
  proof
    assume ?L
    then show ?R
      using ok unfolding set by (auto simp: entry_ok_def intro!: bexI [OF _ nth_mem])
  next
    assume ?R
    then show ?L
      using ok unfolding set by (fastforce simp: entry_ok_def)
  qed
qed

lemma record_at_Ok [simp]: "i < length (db_records b) \<Longrightarrow> record_at b i = Inr (db_records b ! i)"
  by (simp add: record_at_def)

lemma upt_slice:
  "j \<le> length xs \<Longrightarrow> map ((!) xs) [i..<j] = take (j - i) (drop i xs)"
  by (rule nth_equalityI) auto

lemma first_visible_record_find:
  "\<forall>i\<in>set is. i < length (db_records b) \<Longrightarrow>
   first_visible_record b s is =
     Inr (find (\<lambda>r. ik_sequence (fst r) \<le> s) (map ((!) (db_records b)) is))"
  by (induction "is") auto

lemma entry_slice:
  assumes "entry_ok rs e"
  shows "rs ! unat (start_record e) # map ((!) rs) [unat (start_record e) + 1..<unat (end_record e)] =
    filter (\<lambda>r. user_key (fst r) = user_key (fst (rs ! unat (start_record e)))) rs"
proof -
  have "[unat (start_record e)..<unat (end_record e)] =
      unat (start_record e) # [unat (start_record e) + 1..<unat (end_record e)]"
    using assms by (simp add: entry_ok_def upt_conv_Cons)
  then show ?thesis
    using assms upt_slice [of "unat (end_record e)" rs "unat (start_record e)"]
    by (simp add: entry_ok_def)
qed

lemma newest_visible_in_entries_eq:
  assumes "\<forall>e\<in>set es. entry_ok (db_records b) e"
  shows "newest_visible_in_entries b key s es =
    Inr (if \<exists>e\<in>set es. user_key (fst (db_records b ! unat (start_record e))) = key
      then (True, find (\<lambda>r. user_key (fst r) = key \<and> ik_sequence (fst r) \<le> s) (db_records b))
      else (False, None))"
  using assms
proof (induction es)
  case (Cons e es)
  let ?s = "unat (start_record e)" and ?t = "unat (end_record e)"
  have e: "?s < ?t" "?t \<le> length (db_records b)" "entry_ok (db_records b) e"
    using Cons.prems by (auto simp: entry_ok_def)
  show ?case
  proof (cases "user_key (fst (db_records b ! ?s)) = key")
    case True
    then have "find (\<lambda>r. ik_sequence (fst r) \<le> s)
        (db_records b ! ?s # map ((!) (db_records b)) [?s + 1..<?t]) =
      find (\<lambda>r. user_key (fst r) = key \<and> ik_sequence (fst r) \<le> s) (db_records b)"
      unfolding entry_slice [OF e(3)] by (simp add: find_filter)
    then show ?thesis
      using True e by (auto simp: Let_def first_visible_record_find split: if_splits)
  next
    case False
    then show ?thesis
      using Cons e by (simp add: Let_def)
  qed
qed simp

lemma block_newest_visible:
  assumes "block_ok b"
  shows "data_block_newest_visible_point_value_record_for_key b key s =
    Inr (\<exists>r\<in>set (db_records b). user_key (fst r) = key,
         find (\<lambda>r. user_key (fst r) = key \<and> ik_sequence (fst r) \<le> s) (db_records b))"
proof -
  have "find (\<lambda>r. user_key (fst r) = key \<and> ik_sequence (fst r) \<le> s) (db_records b) = None"
    if "\<not> (\<exists>r\<in>set (db_records b). user_key (fst r) = key)"
    using that by (auto simp: find_None_iff)
  then show ?thesis
    unfolding data_block_newest_visible_point_value_record_for_key_def
    by (subst newest_visible_in_entries_eq)
       (auto simp: block_entries(1) [OF assms] block_entries(2) [OF assms])
qed

lemma record_range_in_entries_eq:
  assumes "\<forall>e\<in>set es. entry_ok (db_records b) e"
  shows "\<exists>i j. record_range_in_entries b key es = Inr (i, j) \<and> j \<le> length (db_records b) \<and>
    map ((!) (db_records b)) [i..<j] =
      (if \<exists>e\<in>set es. user_key (fst (db_records b ! unat (start_record e))) = key
       then filter (\<lambda>r. user_key (fst r) = key) (db_records b) else [])"
  using assms
proof (induction es)
  case (Cons e es)
  then have e: "unat (start_record e) < length (db_records b)" "entry_ok (db_records b) e"
      "unat (end_record e) \<le> length (db_records b)"
    by (auto simp: entry_ok_def)
  show ?case
  proof (cases "user_key (fst (db_records b ! unat (start_record e))) = key")
    case True
    have "map ((!) (db_records b)) [unat (start_record e)..<unat (end_record e)] =
        filter (\<lambda>r. user_key (fst r) = key) (db_records b)"
      unfolding upt_slice [OF e(3)] using e(2) True unfolding entry_ok_def by simp
    then show ?thesis
      using True e by (intro exI [of _ "unat (start_record e)"] exI [of _ "unat (end_record e)"]) simp
  qed (use Cons e in simp)
qed simp

lemma block_point_records:
  assumes "block_ok b"
  shows "data_block_point_records_for_key b key =
    Inr (filter (\<lambda>r. user_key (fst r) = key) (db_records b))"
proof -
  let ?es = "matching_entries (point_lookup_index b) (user_key_hash key)"
  have "(if \<exists>e\<in>set ?es. user_key (fst (db_records b ! unat (start_record e))) = key
      then filter (\<lambda>r. user_key (fst r) = key) (db_records b) else []) =
    filter (\<lambda>r. user_key (fst r) = key) (db_records b)"
    unfolding block_entries(2) [OF assms] by (auto simp: filter_empty_conv)
  then obtain i j where ij: "data_block_point_record_range_for_key b key = Inr (i, j)"
      "j \<le> length (db_records b)"
      "map ((!) (db_records b)) [i..<j] = filter (\<lambda>r. user_key (fst r) = key) (db_records b)"
    using record_range_in_entries_eq [of ?es b key] block_entries(1) [OF assms]
    unfolding data_block_point_record_range_for_key_def by metis
  have "map_result (record_at b) is = Inr (map ((!) (db_records b)) is)"
    if "\<forall>i\<in>set is. i < length (db_records b)" for "is"
    using that by (induction "is") auto
  then show ?thesis
    using ij by (simp add: data_block_point_records_for_key_def)
qed

section \<open>What a range scan of a block returns\<close>

lemma linear_restart_from_eq:
  assumes "\<forall>i\<in>set restarts. unat i < length (db_records b)"
  shows "linear_restart_from b key n restarts =
    Inr (n + partition_point (\<lambda>i. user_key (fst (db_records b ! unat i)) \<le> key) restarts)"
  using assms by (induction restarts arbitrary: n) (auto simp: partition_point_def not_less)

lemma binary_restart_loop_eq:
  assumes "\<forall>i\<in>set (restart_indices b). unat i < length (db_records b)" "right \<le> length (restart_indices b)"
  shows "binary_restart_loop b key left right =
    Inr (binary_partition_loop left right
      (\<lambda>i. user_key (fst (db_records b ! unat (restart_indices b ! i))) \<le> key))"
  using assms
proof (induction b key left right rule: binary_restart_loop.induct)
  case (1 b key left right)
  show ?case
  proof (cases "left < right")
    case True
    then have m: "left + (right - left) div 2 < right"
      by linarith
    then have "unat (restart_indices b ! (left + (right - left) div 2)) < length (db_records b)"
      using "1.prems" by auto
    then show ?thesis
      using 1 True m
      by (subst binary_restart_loop.simps, subst binary_partition_loop.simps) (simp add: Let_def)
  next
    case False
    then show ?thesis
      by (subst binary_restart_loop.simps, subst binary_partition_loop.simps) simp
  qed
qed

lemma restart_index_last:
  assumes "block_ok b"
  shows "\<exists>start. data_block_restart_index_for_key b key policy = Inr start \<and>
    (start = 0 \<or> (\<exists>i\<in>set (restart_indices b). start = unat i) \<and> start < length (db_records b) \<and>
      user_key (fst (db_records b ! start)) \<le> key \<and>
      (\<forall>e\<in>set (take start (db_records b)). user_key (fst e) \<le> user_key (fst (db_records b ! start)))) \<and>
    (\<forall>i\<in>set (restart_indices b). user_key (fst (db_records b ! unat i)) \<le> key \<longrightarrow> unat i \<le> start)"
proof -
  let ?rs = "db_records b" and ?is = "restart_indices b"
  let ?P = "\<lambda>i :: u32. user_key (fst (?rs ! unat i)) \<le> key"
  have ok: "\<forall>i\<in>set ?is. unat i < length ?rs" "sorted_wrt (<) (map unat ?is)"
      "sorted (map (\<lambda>r. user_key (fst r)) ?rs)"
    using assms by (simp_all add: block_ok_def btree_ok_user_keys)
  have key_le: "user_key (fst (?rs ! i)) \<le> user_key (fst (?rs ! j))" if "i \<le> j" "j < length ?rs" for i j
    using sorted_nth_mono [OF ok(3), of i j] that by simp
  have part: "partitioned ?P ?is"
  proof (rule partitioned_sorted_wrt)
    show "sorted_wrt (\<lambda>i j. unat i < unat j \<and> unat j < length ?rs) ?is"
      using ok(1) by (intro sorted_wrt_mono_rel [OF _ ok(2) [unfolded sorted_wrt_map]]) blast
    fix x y :: u32
    assume "unat x < unat y \<and> unat y < length ?rs" "?P y"
    then show "?P x"
      using key_le [of "unat x" "unat y"] by simp
  qed
  have bin: "binary_partition_point (length ?is) (\<lambda>i. ?P (?is ! i)) = partition_point ?P ?is"
    using partition_point_by_nth [OF part, of Binary] by (simp add: partition_point_by_def)
  have upper: "(case policy of Linear \<Rightarrow> data_block_linear_restart_partition_point b key
       | Auto \<Rightarrow> (if length ?is \<le> 8 then data_block_linear_restart_partition_point b key
                  else data_block_binary_restart_partition_point b key)
       | Binary \<Rightarrow> data_block_binary_restart_partition_point b key) = Inr (partition_point ?P ?is)"
    using linear_restart_from_eq [OF ok(1)] binary_restart_loop_eq [OF ok(1) order_refl] bin
    by (cases policy) (simp_all add: data_block_linear_restart_partition_point_def
        data_block_binary_restart_partition_point_def binary_partition_point_def)
  show ?thesis
  proof (cases "partition_point ?P ?is")
    case 0
    then have "\<not> ?P i" if "i \<in> set ?is" for i
      using that partition_point_partitioned [OF part] by (auto simp: in_set_conv_nth)
    then show ?thesis
      using 0 by (simp add: data_block_restart_index_for_key_def upper)
  next
    case (Suc n)
    then have n: "n < length ?is"
      using partition_point_le [of ?P ?is] by simp
    have p: "?P (?is ! n)"
      using partition_point_partitioned [OF part n] Suc by simp
    have before: "user_key (fst e) \<le> user_key (fst (?rs ! unat (?is ! n)))"
      if e: "e \<in> set (take (unat (?is ! n)) ?rs)" for e
    proof -
      obtain i where "i < unat (?is ! n)" "i < length ?rs" "e = ?rs ! i"
        using e unfolding in_set_conv_nth by auto
      then show ?thesis
        using key_le [of i "unat (?is ! n)"] ok(1) n by simp
    qed
    have "unat (?is ! n) < length ?rs"
      using ok(1) n by simp
    moreover have "data_block_restart_index_for_key b key policy = Inr (unat (?is ! n))"
      using Suc by (simp add: data_block_restart_index_for_key_def upper)
    moreover have "unat i \<le> unat (?is ! n)" if i: "i \<in> set ?is" "?P i" for i
    proof -
      obtain m where m: "m < length ?is" "i = ?is ! m" using i(1) by (auto simp: in_set_conv_nth)
      then have "m \<le> n" using partition_point_partitioned [OF part m(1)] Suc i(2) by simp
      then show ?thesis
        using sorted_wrt_nth_less [OF ok(2), of m n] m n by (cases "m = n") auto
    qed
    ultimately show ?thesis
      using p before n by (intro exI [of _ "unat (?is ! n)"]) auto
  qed
qed

lemma restart_index_at:
  assumes "block_ok b"
  shows "\<exists>start. data_block_restart_index_for_key b key policy = Inr start \<and>
    (start = 0 \<or> (\<exists>i\<in>set (restart_indices b). start = unat i) \<and> start < length (db_records b) \<and>
      user_key (fst (db_records b ! start)) \<le> key \<and>
      (\<forall>e\<in>set (take start (db_records b)). user_key (fst e) \<le> user_key (fst (db_records b ! start))))"
  using restart_index_last [OF assms, of key policy] by blast

lemma restart_index_for_key:
  assumes "block_ok b"
  shows "\<exists>start. data_block_restart_index_for_key b key policy = Inr start \<and>
    start \<le> length (db_records b) \<and>
    (\<forall>e\<in>set (take start (db_records b)). user_key (fst e) \<le> key)"
  using restart_index_at [OF assms, of key policy] by (fastforce intro: order_trans)

lemma after_end_mono: "key_is_after_end k e \<Longrightarrow> k \<le> k' \<Longrightarrow> key_is_after_end k' e"
  by (cases e) auto

lemma collect_records_in_range_eq:
  assumes "\<forall>i\<in>set is. i < length (db_records b)"
    "sorted (map (\<lambda>i. user_key (fst (db_records b ! i))) is)"
  shows "collect_records_in_range b r is =
    Inr (filter (\<lambda>e. key_is_in_range (user_key (fst e)) r) (map ((!) (db_records b)) is))"
  using assms
proof (induction "is")
  case (Cons i "is")
  have "filter (\<lambda>e. key_is_in_range (user_key (fst e)) r) (map ((!) (db_records b)) is) = []"
    if "key_is_after_end (user_key (fst (db_records b ! i))) (kr_end r)"
    using Cons.prems(2) after_end_mono [OF that] by (auto simp: filter_empty_conv key_is_in_range_def)
  then show ?case
    using Cons by (auto simp: key_is_in_range_def)
qed simp

lemma collect_records_from:
  assumes "block_ok b"
  shows "collect_records_in_range b r [start..<length (db_records b)] =
    Inr (filter (\<lambda>e. key_is_in_range (user_key (fst e)) r) (drop start (db_records b)))"
proof (subst collect_records_in_range_eq)
  have "sorted (map (\<lambda>r. user_key (fst r)) (db_records b))"
    using assms by (simp add: block_ok_def btree_ok_user_keys)
  then show "sorted (map (\<lambda>i. user_key (fst (db_records b ! i))) [start..<length (db_records b)])"
    using sorted_nth_mono by (fastforce simp: sorted_iff_nth_mono)
qed (simp_all add: upt_slice)

lemma block_range_scan:
  assumes "block_ok b"
  shows "\<exists>ds es. data_block_point_records_in_range b r policy = Inr es \<and>
    filter (\<lambda>e. key_is_in_range (user_key (fst e)) r) (db_records b) = ds @ es \<and>
    (\<forall>e\<in>set ds. kr_start r = Included (user_key (fst e)))"
proof -
  let ?rs = "db_records b"
  let ?in = "\<lambda>e. key_is_in_range (user_key (fst e)) r"
  obtain start where st: "data_block_restart_index_for_bound b (kr_start r) policy = Inr start"
      "start \<le> length ?rs"
    and before: "\<forall>e\<in>set (take start ?rs). key_is_in_range (user_key (fst e)) r \<longrightarrow>
      kr_start r = Included (user_key (fst e))"
  proof (cases "kr_start r")
    case (Included k)
    then show ?thesis
      using restart_index_for_key [OF assms, of k policy] that
      by (force simp: key_is_in_range_def)
  next
    case (Excluded k)
    then show ?thesis
      using restart_index_for_key [OF assms, of k policy] that
      by (fastforce simp: key_is_in_range_def)
  next
    case Unbounded
    then show ?thesis
      using that [of 0] by simp
  qed
  have "data_block_point_records_in_range b r policy = Inr (filter ?in (drop start ?rs))"
    using st collect_records_from [OF assms] by (simp add: data_block_point_records_in_range_def)
  moreover have "filter ?in ?rs = filter ?in (take start ?rs) @ filter ?in (drop start ?rs)"
    by (metis append_take_drop_id filter_append)
  moreover have "\<forall>e\<in>set (filter ?in (take start ?rs)). kr_start r = Included (user_key (fst e))"
    using before by simp
  ultimately show ?thesis
    by blast
qed

section \<open>Blocks built from records\<close>

lemma hash_entries_from_total:
  "start + length rs < 2 ^ 32 \<Longrightarrow> \<exists>es. hash_entries_from start rs = Inr es"
proof (induction start rs rule: hash_entries_from.induct)
  case (2 start r rs)
  let ?same = "\<lambda>x. user_key (fst x) = user_key (fst r)"
  let ?stop = "start + 1 + length (takeWhile ?same rs)"
  have "length (takeWhile ?same rs) + length (dropWhile ?same rs) = length rs"
    by (metis length_append takeWhile_dropWhile_id)
  then have lt: "?stop + length (dropWhile ?same rs) < 2 ^ 32"
    using "2.prems" by simp
  then have u: "usize_to_u32 start ''data block hash range start'' = Inr (word_of_nat start)"
      "usize_to_u32 ?stop ''data block hash range end'' = Inr (word_of_nat ?stop)"
    by (simp_all add: usize_to_u32_def)
  obtain es where "hash_entries_from ?stop (dropWhile ?same rs) = Inr es"
    using "2.IH" [OF refl refl u lt] by blast
  then show ?case
    using u by (simp add: Let_def)
qed simp

lemma map_result_usize_to_u32:
  "\<forall>i\<in>set is. i < 2 ^ 32 \<Longrightarrow> map_result (\<lambda>i. usize_to_u32 i field) is = Inr (map word_of_nat is)"
  by (induction "is") (auto simp: usize_to_u32_def)

lemma restart_points_ok:
  "sorted_wrt (<) (restart_points n)" "\<forall>i\<in>set (restart_points n). i < n"
  by (auto simp: restart_points_def intro: sorted_wrt_filter)

lemma decoded_from_records_ok:
  assumes "btree_ok rs" "length rs < 2 ^ 32"
  shows "\<exists>b. decoded_from_records rs = Inr b \<and> db_records b = rs \<and> block_ok b"
proof -
  let ?is = "restart_points (length rs)"
  obtain es where es: "hash_entries_from 0 rs = Inr es"
    using hash_entries_from_total [of 0 rs] assms(2) by auto
  have un: "\<forall>i\<in>set ?is. unat (word_of_nat i :: u32) = i"
    using restart_points_ok(2) [of "length rs"] assms(2) by (auto simp: unat_of_nat)
  then have "map (unat :: u32 \<Rightarrow> nat) (map word_of_nat ?is) = ?is"
    by (simp add: map_idI)
  moreover have "map_result (\<lambda>i. usize_to_u32 i ''data block restart record index'') ?is =
      Inr (map word_of_nat ?is)"
    using restart_points_ok(2) [of "length rs"] assms(2) by (intro map_result_usize_to_u32) auto
  ultimately show ?thesis
    using es assms(1) un restart_points_ok [of "length rs"]
    by (simp add: decoded_from_records_def lookup_index_from_records_def block_ok_def)
qed

text \<open>C19: In a block built from strictly ordered records the hash index finds exactly the records of a
  user key, whatever other keys share its hash: the key lookup returns all of them in order, and the
  newest-visible lookup reports whether the key occurs and returns the first of its records the read
  sequence can see.\<close>
theorem block_lookup_exact:
  assumes "btree_ok rs" "length rs < 2 ^ 32"
  shows "\<exists>b. decoded_from_records rs = Inr b \<and>
    data_block_point_records_for_key b key = Inr (filter (\<lambda>r. user_key (fst r) = key) rs) \<and>
    data_block_newest_visible_point_value_record_for_key b key s =
      Inr (\<exists>r\<in>set rs. user_key (fst r) = key,
           find (\<lambda>r. user_key (fst r) = key \<and> ik_sequence (fst r) \<le> s) rs)"
proof -
  obtain b where b: "decoded_from_records rs = Inr b" "db_records b = rs" "block_ok b"
    using decoded_from_records_ok [OF assms] by blast
  show ?thesis
    using b block_newest_visible [OF b(3), of key s] block_point_records [OF b(3), of key]
    by (intro exI [of _ b]) simp
qed

theorem block_lookup_exact_witness:
  "\<exists>b. decoded_from_records [(InternalKey [1] 7 Put 0, Some (Inline [5])), (InternalKey [1] 3 Put 0, None)] = Inr b \<and>
    data_block_newest_visible_point_value_record_for_key b [1] 4 = Inr (True, Some (InternalKey [1] 3 Put 0, None))"
proof -
  let ?rs = "[(InternalKey [1] 7 Put 0, Some (Inline [5])), (InternalKey [1] 3 Put 0, None)]"
  have "btree_ok ?rs"
    by (simp add: btree_ok_def less_internal_key_iff word_less_nat_alt)
  then show ?thesis
    using block_lookup_exact [of ?rs "[1]" 4] by (auto simp: word_le_nat_alt)
qed

text \<open>A range scan of a block returns, in order, all records of the range except possibly a leading
  part, and every record left out is a version of the key at an inclusive lower bound. Scans with an
  exclusive or absent lower bound are complete.\<close>
theorem block_range_scan_complete:
  assumes "btree_ok rs" "length rs < 2 ^ 32"
  shows "\<exists>b ds es. decoded_from_records rs = Inr b \<and>
    data_block_point_records_in_range b r policy = Inr es \<and>
    filter (\<lambda>e. key_is_in_range (user_key (fst e)) r) rs = ds @ es \<and>
    list_all (\<lambda>e. kr_start r = Included (user_key (fst e))) ds"
proof -
  obtain b where b: "decoded_from_records rs = Inr b" "db_records b = rs" "block_ok b"
    using decoded_from_records_ok [OF assms] by blast
  then show ?thesis
    using block_range_scan [OF b(3), of r policy] unfolding b(2) list_all_iff by blast
qed

theorem block_range_scan_complete_witness:
  "\<exists>b. decoded_from_records [(InternalKey [1] 7 Put 0, None), (InternalKey [2] 3 Put 0, None)] = Inr b \<and>
    data_block_point_records_in_range b \<lparr>kr_start = Excluded [1], kr_end = Unbounded\<rparr> Auto =
      Inr [(InternalKey [2] 3 Put 0, None)]"
proof -
  let ?rs = "[(InternalKey [1] 7 Put 0, None), (InternalKey [2] 3 Put 0, None)]"
  have "btree_ok ?rs"
    by (simp add: btree_ok_def less_internal_key_iff word_less_nat_alt)
  then show ?thesis
    using block_range_scan_complete [of ?rs "\<lparr>kr_start = Excluded [1], kr_end = Unbounded\<rparr>" Auto]
    by (fastforce simp: key_is_in_range_def word_less_nat_alt list_all_iff Cons_eq_append_conv)
qed

text \<open>The seventeen versions of one key, newest first, as a flush writes them.\<close>
definition seventeen_versions :: "point_record list" where
  "seventeen_versions =
     map (\<lambda>i. (InternalKey [1] (word_of_nat (17 - i)) Put 0, Some (Inline [word_of_nat (17 - i)]))) [0..<17]"

lemma seventeen_versions_ok: "btree_ok seventeen_versions"
  by (simp add: seventeen_versions_def btree_ok_def upt_rec less_internal_key_iff word_less_nat_alt)

text \<open>The entry of a scan that starts at a key which a restart point is a version of.\<close>

lemma block_scan_from_restart:
  assumes ok: "block_ok b" and j: "i \<in> set (restart_indices b)" "user_key (fst (db_records b ! unat i)) = key"
  shows "\<exists>start. unat i \<le> start \<and> start < length (db_records b) \<and> user_key (fst (db_records b ! start)) = key \<and>
    start \<in> unat ` set (restart_indices b) \<and>
    data_block_point_records_in_range b \<lparr>kr_start = Included key, kr_end = e\<rparr> policy =
      Inr (filter (\<lambda>r. key_is_in_range (user_key (fst r)) \<lparr>kr_start = Included key, kr_end = e\<rparr>)
        (drop start (db_records b)))"
proof -
  let ?rs = "db_records b"
  obtain start where st: "data_block_restart_index_for_key b key policy = Inr start"
    "start = 0 \<or> start \<in> unat ` set (restart_indices b) \<and> start < length ?rs \<and> user_key (fst (?rs ! start)) \<le> key"
    and last: "unat i \<le> start"
    using restart_index_last [OF ok, of key policy] j by blast
  have len: "unat i < length ?rs" using ok j(1) by (simp add: block_ok_def)
  have "start \<in> unat ` set (restart_indices b) \<and> start < length ?rs \<and> user_key (fst (?rs ! start)) \<le> key"
    using st(2) last j len by (cases "start = 0") auto
  moreover have "sorted (map (\<lambda>r. user_key (fst r)) ?rs)" using ok by (simp add: block_ok_def btree_ok_user_keys)
  then have "key \<le> user_key (fst (?rs ! start))" if "start < length ?rs"
    using sorted_nth_mono [of "map (\<lambda>r. user_key (fst r)) ?rs" "unat i" start] last that len j(2) by simp
  ultimately show ?thesis
    using st(1) last collect_records_from [OF ok]
    by (intro exI [of _ start]) (auto simp: data_block_point_records_in_range_def)
qed

text \<open>C17: The exception is real. In every block in which a restart point \<open>j\<close> and a record \<open>m\<close> in front of
  it are versions of one key, a scan that starts at this key enters the block at the last restart point
  that is a version of the key, under every search policy, and returns exactly the records of the range
  from there on: none of the records in front of \<open>j\<close>, although \<open>m\<close> is newer than every version that is
  returned and the point lookup of the key finds \<open>m\<close> or a newer version. Restart points are the
  multiples of sixteen, so a key with seventeen versions in a block always has one. A forward range or
  prefix scan, the range conflict check of a transaction and the input of a compaction read blocks
  through this entry point.\<close>
theorem block_scan_skips_newest_versions:
  assumes "btree_ok rs" "length rs < 2 ^ 32"
    and "j \<in> set (restart_points (length rs))" "user_key (fst (rs ! j)) = key"
    and "m < j" "user_key (fst (rs ! m)) = key" "ik_sequence (fst (rs ! m)) \<le> s"
  shows "\<exists>b start newest es. decoded_from_records rs = Inr b \<and>
    j \<le> start \<and> start \<in> set (restart_points (length rs)) \<and> user_key (fst (rs ! start)) = key \<and>
    data_block_point_records_in_range b \<lparr>kr_start = Included key, kr_end = e\<rparr> policy = Inr es \<and>
    es = filter (\<lambda>r. key_is_in_range (user_key (fst r)) \<lparr>kr_start = Included key, kr_end = e\<rparr>) (drop start rs) \<and>
    set es \<inter> set (take j rs) = {} \<and> (\<forall>r\<in>set es. fst (rs ! m) < fst r) \<and>
    data_block_newest_visible_point_value_record_for_key b key s = Inr (True, Some newest) \<and> fst newest \<le> fst (rs ! m)"
proof -
  let ?is = "restart_points (length rs)" and ?P = "\<lambda>r. user_key (fst r) = key \<and> ik_sequence (fst r) \<le> s"
  obtain b where b: "decoded_from_records rs = Inr b" "db_records b = rs" "block_ok b"
    using decoded_from_records_ok [OF assms(1,2)] by blast
  have is_lt: "\<forall>i\<in>set ?is. i < length rs" by (rule restart_points_ok(2))
  have "\<forall>i\<in>set ?is. i < 2 ^ 32" using is_lt assms(2) by auto
  then have "restart_indices b = map word_of_nat ?is"
    using b(1) map_result_usize_to_u32 [of ?is] by (auto simp: decoded_from_records_def and_then_eq_Inr_iff)
  moreover have "unat (word_of_nat i :: u32) = i" if "i < length rs" for i
    using that assms(2) by (simp add: unat_of_nat)
  ultimately have un: "unat ` set (restart_indices b) = set ?is" using is_lt by (force simp: image_iff)
  then obtain i where i: "i \<in> set (restart_indices b)" "unat i = j"
    using assms(3) unfolding un [symmetric] by blast
  obtain start where st: "j \<le> start" "start < length rs" "user_key (fst (rs ! start)) = key" "start \<in> set ?is"
    "data_block_point_records_in_range b \<lparr>kr_start = Included key, kr_end = e\<rparr> policy =
      Inr (filter (\<lambda>r. key_is_in_range (user_key (fst r)) \<lparr>kr_start = Included key, kr_end = e\<rparr>) (drop start rs))"
    using block_scan_from_restart [OF b(3) i(1), of key e policy] assms(4) unfolding b(2) i(2) un by auto
  have ord: "sorted_wrt (<) (map fst rs)" using assms(1) by (simp add: btree_ok_def)
  have later: "fst x < fst y" if "x \<in> set (take start rs)" "y \<in> set (drop start rs)" for x y
    using ord that unfolding sorted_wrt_map
    by (metis append_take_drop_id sorted_wrt_append)
  have front: "set (take j rs) \<subseteq> set (take start rs)" using st(1) by (rule set_take_subset_set_take)
  have m: "m < length rs" "rs ! m \<in> set (take j rs)"
    using assms(5) st(1,2) by (auto simp: in_set_conv_nth intro!: exI [of _ m])
  have "newest_of (find ?P rs) {r \<in> set rs. ?P r}"
    using find_newest [of rs ?P] ord strict_sorted_imp_sorted by blast
  moreover have "rs ! m \<in> {r \<in> set rs. ?P r}" using m assms(6,7) by simp
  ultimately obtain newest where n: "find ?P rs = Some newest" "fst newest \<le> fst (rs ! m)"
    using newest_Some by blast
  have "data_block_newest_visible_point_value_record_for_key b key s = Inr (True, Some newest)"
    using block_newest_visible [OF b(3), of key s] n(1) m(1) assms(6) unfolding b(2) by auto
  moreover define es where
    "es = filter (\<lambda>r. key_is_in_range (user_key (fst r)) \<lparr>kr_start = Included key, kr_end = e\<rparr>) (drop start rs)"
  have sub: "set es \<subseteq> set (drop start rs)" unfolding es_def by (rule filter_is_subset)
  have "\<forall>r\<in>set es. fst (rs ! m) < fst r" using later front m(2) sub by blast
  moreover have "set es \<inter> set (take j rs) = {}" using later front sub by (meson disjoint_iff less_irrefl subsetD)
  ultimately show ?thesis
    using b(1) st(1,3,4) st(5) [folded es_def] es_def n(2) by blast
qed

theorem block_scan_skips_newest_versions_witness:
  "\<exists>b es newest. decoded_from_records seventeen_versions = Inr b \<and>
    data_block_point_records_in_range b \<lparr>kr_start = Included [1], kr_end = Unbounded\<rparr> Binary = Inr es \<and>
    (\<forall>r\<in>set es. fst (seventeen_versions ! 0) < fst r) \<and>
    data_block_newest_visible_point_value_record_for_key b [1] 17 = Inr (True, Some newest)"
proof -
  have len: "length seventeen_versions = 17" by (simp add: seventeen_versions_def)
  have "16 \<in> set (restart_points (length seventeen_versions))"
    by (simp add: len restart_points_def DATA_BLOCK_RESTART_INTERVAL_def)
  moreover have "user_key (fst (seventeen_versions ! 16)) = [1]" "user_key (fst (seventeen_versions ! 0)) = [1]"
    "ik_sequence (fst (seventeen_versions ! 0)) \<le> 17"
    by (simp_all add: seventeen_versions_def)
  ultimately show ?thesis
    using block_scan_skips_newest_versions [OF seventeen_versions_ok, of 16 "[1]" 0 17 Unbounded Binary] len by auto
qed

end
