(* ===== verification/Table_Meta.thy ===== *)
theory Table_Meta
  imports Data_Block Bloom_Filter
begin

text \<open>
  Table metadata (\<^verbatim>\<open>src/src/table.rs\<close>, \<^verbatim>\<open>src/src/table/metadata.rs\<close>): the properties a table file records,
  its key bounds, its filters, the split of its records into data blocks and of the block index into
  partitions, and the writer that puts them together. A table is represented by what its file decodes
  to: \<open>file_partitions\<close> holds the index partitions, \<open>file_blocks\<close> the data blocks. The fields
  \<open>point_records\<close> and \<open>data_blocks\<close> are present only while the file is being written. The separation of
  large values into a blob file is the argument \<open>separate_values\<close> of the writer.

  Shown here: data blocks cut the records into consecutive nonempty pieces with exact bounds and with
  filters that admit every key of their piece, the properties bound every record and tombstone, except
  that one half-infinite tombstone makes the recorded key bounds empty.
\<close>

section \<open>Options and properties\<close>

datatype filter_policy = FilterDisabled | FilterBloom byte

datatype prefix_filter_policy = PrefixFilterDisabled | PrefixFilterBloom byte

datatype filter_depth_curve =
    CurveAuto
  | CurveUniform
  | CurveCustom byte byte
  | CurveCostWeighted byte byte

record table_write_options =
  wo_codec :: codec_id
  wo_block_bytes :: usize
  wo_filter_policy :: filter_policy
  wo_prefix_extractor :: prefix_extractor
  wo_prefix_filter_policy :: prefix_filter_policy
  wo_filter_depth_curve :: filter_depth_curve
  wo_blob_threshold_bytes :: usize
  wo_rewrite_blob_indexes :: bool

record table_blob_reference =
  br_file_id :: u64
  referenced_bytes :: u64
  referenced_record_count :: u64
  br_smallest_internal_key :: internal_key
  br_largest_internal_key :: internal_key

record table_properties =
  tp_id :: u64
  tp_level :: u32
  smallest_user_key :: bytes
  largest_user_key :: bytes
  smallest_sequence :: sequence
  largest_sequence :: sequence
  tp_codec :: codec_id
  blob_file_ids :: "u64 list"
  blob_references :: "table_blob_reference list"

definition PINNED_READ_METADATA_MAX_LEVEL :: u32 where "PINNED_READ_METADATA_MAX_LEVEL = 1"
definition INDEX_PARTITION_TARGET_ENTRIES :: usize where "INDEX_PARTITION_TARGET_ENTRIES = 128"
definition MIN_INTERNAL_KEY_BYTES :: usize where "MIN_INTERNAL_KEY_BYTES = 17"
definition INLINE_VALUE_HEADER_BYTES :: usize where "INLINE_VALUE_HEADER_BYTES = 5"

definition should_pin_read_metadata :: "u32 \<Rightarrow> bool" where
  "should_pin_read_metadata level = (level \<le> PINNED_READ_METADATA_MAX_LEVEL)"

definition max_inline_value_bytes :: usize where
  "max_inline_value_bytes =
     MAX_DECODED_BLOCK_BYTES - (MIN_INTERNAL_KEY_BYTES + INLINE_VALUE_HEADER_BYTES)"

definition effective_blob_threshold_bytes :: "usize \<Rightarrow> usize" where
  "effective_blob_threshold_bytes configured_threshold = min configured_threshold max_inline_value_bytes"

fun finite_bound_bytes :: "bytes bound \<Rightarrow> bytes option" where
  "finite_bound_bytes (Included bs) = Some bs"
| "finite_bound_bytes (Excluded bs) = Some bs"
| "finite_bound_bytes Unbounded = None"

definition update_smallest :: "bytes option \<Rightarrow> bytes \<Rightarrow> bytes option" where
  "update_smallest current candidate =
     (case current of
        None \<Rightarrow> Some candidate
      | Some c \<Rightarrow> if candidate < c then Some candidate else current)"

definition update_largest :: "bytes option \<Rightarrow> bytes \<Rightarrow> bytes option" where
  "update_largest current candidate =
     (case current of
        None \<Rightarrow> Some candidate
      | Some c \<Rightarrow> if candidate > c then Some candidate else current)"

fun key_bounds_loop ::
  "range_tombstone list \<Rightarrow> bytes option \<Rightarrow> bytes option \<Rightarrow> (bytes option \<times> bytes option) option" where
  "key_bounds_loop [] smallest largest = Some (smallest, largest)"
| "key_bounds_loop (t # ts) smallest largest =
     (case (finite_bound_bytes (kr_start (rt_range t)), finite_bound_bytes (kr_end (rt_range t))) of
        (Some s, Some e) \<Rightarrow> key_bounds_loop ts (update_smallest smallest s) (update_largest largest e)
      | _ \<Rightarrow> None)"

definition table_key_bounds :: "point_record list \<Rightarrow> range_tombstone list \<Rightarrow> bytes \<times> bytes" where
  "table_key_bounds rs ts =
     (let smallest = (if rs = [] then None else Some (user_key (fst (hd rs))));
          largest = (if rs = [] then None else Some (user_key (fst (last rs))))
      in case key_bounds_loop ts smallest largest of
           Some (Some s, Some l) \<Rightarrow> (s, l)
         | _ \<Rightarrow> ([], []))"

definition saturating_add_u64 :: "u64 \<Rightarrow> u64 \<Rightarrow> u64" where
  "saturating_add_u64 a b = saturating_add_word a b"

definition add_blob_reference ::
  "point_record \<Rightarrow> (u64 \<times> table_blob_reference) list \<Rightarrow> (u64 \<times> table_blob_reference) list" where
  "add_blob_reference r references =
     (case snd r of
        Some (BlobIndex index) \<Rightarrow>
          (case map_of references (file_id index) of
             Some ref \<Rightarrow> btree_insert (file_id index)
               (ref\<lparr>referenced_bytes := saturating_add_u64 (referenced_bytes ref) (encoded_len index),
                    referenced_record_count := saturating_add_u64 (referenced_record_count ref) 1,
                    br_smallest_internal_key :=
                      (if fst r < br_smallest_internal_key ref then fst r else br_smallest_internal_key ref),
                    br_largest_internal_key :=
                      (if fst r > br_largest_internal_key ref then fst r else br_largest_internal_key ref)\<rparr>)
               references
           | None \<Rightarrow> btree_insert (file_id index)
               \<lparr>br_file_id = file_id index, referenced_bytes = encoded_len index,
                referenced_record_count = 1, br_smallest_internal_key = fst r,
                br_largest_internal_key = fst r\<rparr> references)
      | _ \<Rightarrow> references)"

definition table_blob_references :: "point_record list \<Rightarrow> table_blob_reference list" where
  "table_blob_references rs = map snd (fold add_blob_reference rs [])"

definition min_max_sequence ::
  "sequence \<Rightarrow> (sequence \<times> sequence) option \<Rightarrow> (sequence \<times> sequence) option" where
  "min_max_sequence seq acc =
     (case acc of None \<Rightarrow> Some (seq, seq) | Some (lo, hi) \<Rightarrow> Some (min lo seq, max hi seq))"

definition table_properties_of ::
  "u64 \<Rightarrow> u32 \<Rightarrow> codec_id \<Rightarrow> point_record list \<Rightarrow> range_tombstone list \<Rightarrow> table_properties" where
  "table_properties_of table_id level codec rs ts =
     (let seqs = map (\<lambda>r. ik_sequence (fst r)) rs @ map rt_sequence ts;
          bounds = fold min_max_sequence seqs None;
          references = table_blob_references rs;
          key_bounds = table_key_bounds rs ts
      in \<lparr>tp_id = table_id, tp_level = level,
          smallest_user_key = fst key_bounds, largest_user_key = snd key_bounds,
          smallest_sequence = (case bounds of None \<Rightarrow> 0 | Some (lo, _) \<Rightarrow> lo),
          largest_sequence = (case bounds of None \<Rightarrow> 0 | Some (_, hi) \<Rightarrow> hi),
          tp_codec = codec,
          blob_file_ids = map br_file_id references,
          blob_references = references\<rparr>)"

section \<open>Filters\<close>

definition saturating_mul_u8 :: "byte \<Rightarrow> byte \<Rightarrow> byte" where
  "saturating_mul_u8 a b = (if unat a * unat b < 256 then a * b else - 1)"

definition saturating_sub_word :: "'a::len word \<Rightarrow> 'a word \<Rightarrow> 'a word" where
  "saturating_sub_word a b = (if b \<le> a then a - b else 0)"

definition level_adjusted_filter_bits :: "filter_depth_curve \<Rightarrow> byte \<Rightarrow> u32 \<Rightarrow> byte" where
  "level_adjusted_filter_bits curve base level =
     (let wide_depth = saturating_sub_word level PINNED_READ_METADATA_MAX_LEVEL;
          depth = (if unat wide_depth < 256 then ucast wide_depth else - 1 :: byte);
          reduce = (\<lambda>step floor.
            max (saturating_sub_word base (saturating_mul_u8 step depth)) (min floor base))
      in case curve of
           CurveUniform \<Rightarrow> base
         | CurveAuto \<Rightarrow> reduce 2 4
         | CurveCustom step floor \<Rightarrow> reduce step floor
         | CurveCostWeighted step ceil \<Rightarrow>
             min (saturating_add_word base (saturating_mul_u8 step depth)) (max ceil base))"

definition build_point_key_filter :: "table_write_options \<Rightarrow> point_record list \<Rightarrow> u32 \<Rightarrow> bloom_bits option" where
  "build_point_key_filter options rs level =
     (case wo_filter_policy options of
        FilterDisabled \<Rightarrow> None
      | FilterBloom bits_per_key \<Rightarrow>
          Some (point_filter_from_keys (map (\<lambda>r. user_key (fst r)) rs)
            (level_adjusted_filter_bits (wo_filter_depth_curve options) bits_per_key level)))"

definition build_prefix_filter :: "table_write_options \<Rightarrow> point_record list \<Rightarrow> u32 \<Rightarrow> prefix_filter option" where
  "build_prefix_filter options rs level =
     (case wo_prefix_filter_policy options of
        PrefixFilterDisabled \<Rightarrow> None
      | PrefixFilterBloom bits_per_prefix \<Rightarrow>
          prefix_filter_from_keys (wo_prefix_extractor options) (map (\<lambda>r. user_key (fst r)) rs)
            (level_adjusted_filter_bits (wo_filter_depth_curve options) bits_per_prefix level))"

section \<open>Tables and data blocks\<close>

text \<open>The file position of a block (\<^verbatim>\<open>BlockHandle\<close>) is replaced by its number in \<open>file_blocks\<close>; an
  index entry (\<^verbatim>\<open>DataBlockIndexEntry\<close>) is the block with the empty record range.\<close>

record table_data_block =
  smallest_internal_key :: internal_key
  largest_internal_key :: internal_key
  record_range :: "usize \<times> usize"
  tdb_point_key_filter :: "bloom_bits option"
  tdb_prefix_filter :: "prefix_filter option"

record index_partition_entry =
  ip_smallest_internal_key :: internal_key
  ip_largest_internal_key :: internal_key
  first_data_block_index :: usize
  ip_data_block_count :: usize

record table =
  payload_len :: usize
  properties :: table_properties
  point_records :: "point_record list option"
  data_blocks :: "table_data_block list option"
  data_block_count :: usize
  index_partitions :: "index_partition_entry list"
  tbl_range_tombstones :: "range_tombstone list"
  may_have_range_tombstones :: bool
  tbl_point_key_filter :: "bloom_bits option"
  tbl_prefix_filter :: "prefix_filter option"
  file_partitions :: "table_data_block list list"
  file_blocks :: "decoded_data_block list"

definition from_record_range ::
  "point_record list \<Rightarrow> usize \<times> usize \<Rightarrow> usize list \<Rightarrow> bloom_bits option \<Rightarrow> prefix_filter option \<Rightarrow>
   table_data_block result" where
  "from_record_range rs rng restarts point_filter prefix_filt =
     and_then (ok_or (invalid_table ''data block record range outside table'')
       (slice_get rs (fst rng) (snd rng))) (\<lambda>records.
     if records = [] then Err (invalid_table ''empty data block'')
     else if restarts = [] \<or> hd restarts \<noteq> fst rng
     then Err (invalid_table ''data block first restart is not first record'')
     else if \<exists>r \<in> set restarts. \<not> (fst rng \<le> r \<and> r < snd rng)
     then Err (invalid_table ''data block restart outside record range'')
     else Ok \<lparr>smallest_internal_key = fst (hd records), largest_internal_key = fst (last records),
              record_range = rng, tdb_point_key_filter = point_filter,
              tdb_prefix_filter = prefix_filt\<rparr>)"

definition from_index_entry :: "table_data_block \<Rightarrow> table_data_block result" where
  "from_index_entry entry =
     (if smallest_internal_key entry > largest_internal_key entry
      then Err (Corruption ''data block index key bounds are inverted'')
      else Ok (entry\<lparr>record_range := (0, 0)\<rparr>))"

definition overlaps_range :: "table_data_block \<Rightarrow> key_range \<Rightarrow> bool" where
  "overlaps_range b rng =
     (\<not> key_is_after_end (user_key (smallest_internal_key b)) (kr_end rng) \<and>
      \<not> key_is_before_start (user_key (largest_internal_key b)) (kr_start rng))"

definition key_bounds_may_contain :: "table_data_block \<Rightarrow> bytes \<Rightarrow> bool" where
  "key_bounds_may_contain b key =
     (user_key (smallest_internal_key b) \<le> key \<and> key \<le> user_key (largest_internal_key b))"

definition point_filter_result :: "table_data_block \<Rightarrow> bytes \<Rightarrow> bool option" where
  "point_filter_result b key = map_option (\<lambda>filt. may_contain_key filt key) (tdb_point_key_filter b)"

definition filter_prefix_result :: "prefix_filter option \<Rightarrow> bytes \<Rightarrow> prefix_extractor \<Rightarrow> bool option" where
  "filter_prefix_result filt prefix extractor =
     Option.bind filt (\<lambda>f.
       if pf_extractor f \<noteq> extractor then None
       else Option.bind (query_filter_prefix extractor prefix) (\<lambda>p. Some (may_contain_prefix f p)))"

definition prefix_filter_result :: "table_data_block \<Rightarrow> bytes \<Rightarrow> prefix_extractor \<Rightarrow> bool option" where
  "prefix_filter_result b prefix extractor = filter_prefix_result (tdb_prefix_filter b) prefix extractor"

definition starts_with :: "bytes \<Rightarrow> bytes \<Rightarrow> bool" where
  "starts_with key prefix = (take (length prefix) key = prefix)"

definition prefix_bounds_may_overlap :: "table_data_block \<Rightarrow> bytes \<Rightarrow> bool" where
  "prefix_bounds_may_overlap b prefix =
     (user_key (largest_internal_key b) \<ge> prefix \<and>
      (starts_with (user_key (smallest_internal_key b)) prefix \<or>
       user_key (smallest_internal_key b) \<le> prefix))"

section \<open>Building\<close>

definition internal_key_encoded_len :: "internal_key \<Rightarrow> usize" where
  "internal_key_encoded_len ik = 4 + length (user_key ik) + 8 + 1 + 4"

definition value_ref_encoded_len :: "value_ref option \<Rightarrow> usize" where
  "value_ref_encoded_len v =
     (case v of
        None \<Rightarrow> 1
      | Some (Inline bs) \<Rightarrow> 1 + 4 + length bs
      | Some (BlobIndex _) \<Rightarrow> 1 + 8 + 8 + 8 + 8 + 4 + 4 + 1)"

definition point_record_encoded_len :: "point_record \<Rightarrow> usize" where
  "point_record_encoded_len r = internal_key_encoded_len (fst r) + value_ref_encoded_len (snd r)"

text \<open>The inner loop of \<^verbatim>\<open>build_data_blocks\<close>; the length is \<^verbatim>\<open>block_end - block_start\<close>.\<close>

fun extend_block :: "usize \<Rightarrow> usize \<Rightarrow> usize \<Rightarrow> point_record list \<Rightarrow> usize" where
  "extend_block block_bytes len estimated_len [] = len"
| "extend_block block_bytes len estimated_len (r # rs) =
     (let next_len = point_record_encoded_len r
      in if len > 0 \<and> estimated_len + next_len > block_bytes then len
         else extend_block block_bytes (len + 1) (estimated_len + next_len) rs)"

lemma extend_block_ge: "len \<le> extend_block block_bytes len estimated_len rs"
  by (induction block_bytes len estimated_len rs rule: extend_block.induct)
     (auto simp: Let_def intro: le_SucE Suc_leD)

lemma extend_block_pos: "rs \<noteq> [] \<Longrightarrow> 0 < extend_block block_bytes 0 estimated_len rs"
  using extend_block_ge [of 1] by (cases rs) (auto simp: Let_def Suc_le_eq)

function build_data_blocks_from ::
  "point_record list \<Rightarrow> table_write_options \<Rightarrow> u32 \<Rightarrow> usize \<Rightarrow> table_data_block list result" where
  "build_data_blocks_from rs options level block_start =
     (if block_start < length rs then
        let block_end = block_start + extend_block (wo_block_bytes options) 0 0 (drop block_start rs);
            restarts = filter (\<lambda>i. (i - block_start) mod DATA_BLOCK_RESTART_INTERVAL = 0)
                         [block_start ..< block_end];
            records = take (block_end - block_start) (drop block_start rs)
        in and_then (from_record_range rs (block_start, block_end) restarts
             (build_point_key_filter options records level)
             (build_prefix_filter options records level)) (\<lambda>b.
           and_then (build_data_blocks_from rs options level block_end) (\<lambda>bs. Ok (b # bs)))
      else Ok [])"
  by pat_completeness auto
termination
  by (relation "measure (\<lambda>(rs, _, _, i). length rs - i)")
     (auto simp: extend_block_pos diff_less_mono2)

definition build_data_blocks ::
  "point_record list \<Rightarrow> table_write_options \<Rightarrow> u32 \<Rightarrow> table_data_block list result" where
  "build_data_blocks rs options level = build_data_blocks_from rs options level 0"

text \<open>\<^verbatim>\<open>slice::chunks\<close>.\<close>

function chunks :: "usize \<Rightarrow> 'a list \<Rightarrow> 'a list list" where
  "chunks n xs = (if n = 0 \<or> xs = [] then [] else take n xs # chunks n (drop n xs))"
  by pat_completeness auto
termination
  by (relation "measure (\<lambda>(_, xs). length xs)") auto

fun index_partitions_of :: "usize \<Rightarrow> table_data_block list list \<Rightarrow> index_partition_entry list" where
  "index_partitions_of partition_index [] = []"
| "index_partitions_of partition_index (blocks # rest) =
     (if blocks = [] then index_partitions_of (partition_index + 1) rest
      else \<lparr>ip_smallest_internal_key = smallest_internal_key (hd blocks),
            ip_largest_internal_key = largest_internal_key (last blocks),
            first_data_block_index = partition_index * INDEX_PARTITION_TARGET_ENTRIES,
            ip_data_block_count = length blocks\<rparr> # index_partitions_of (partition_index + 1) rest)"

definition index_partitions_for_loaded_blocks :: "table_data_block list \<Rightarrow> index_partition_entry list" where
  "index_partitions_for_loaded_blocks blocks =
     index_partitions_of 0 (chunks INDEX_PARTITION_TARGET_ENTRIES blocks)"

definition sort_point_records_if_needed :: "point_record list \<Rightarrow> point_record list" where
  "sort_point_records_if_needed rs =
     (if sorted_wrt (\<le>) (map fst rs) then rs else sort_by (\<lambda>a b. cmp (fst a) (fst b)) rs)"

text \<open>\<^verbatim>\<open>append_data_blocks\<close>, \<^verbatim>\<open>append_index_section\<close> and \<^verbatim>\<open>pinned_index_partitions_from_entries\<close>: the
  blocks and the partitions that the file holds after \<^verbatim>\<open>encode_table_for_write\<close>.\<close>

definition encode_data_blocks :: "point_record list \<Rightarrow> table_data_block list \<Rightarrow> decoded_data_block list result" where
  "encode_data_blocks rs blocks =
     map_result (\<lambda>b. and_then (ok_or (invalid_table ''data block record range outside table'')
         (slice_get rs (fst (record_range b)) (snd (record_range b)))) decoded_from_records) blocks"

definition encode_table_for_write :: "table \<Rightarrow> table result" where
  "encode_table_for_write t =
     and_then (ok_or (invalid_table ''cannot encode table without point records'') (point_records t)) (\<lambda>rs.
     and_then (ok_or (invalid_table ''cannot encode table without data block metadata'') (data_blocks t)) (\<lambda>blocks.
     and_then (encode_data_blocks rs blocks) (\<lambda>encoded.
     let entries = map (\<lambda>b. b\<lparr>record_range := (0, 0)\<rparr>) blocks;
         partitions = chunks INDEX_PARTITION_TARGET_ENTRIES entries
     in and_then (if should_pin_read_metadata (tp_level (properties t))
                  then map_result from_index_entry entries else Ok entries) (\<lambda>_.
        Ok (t\<lparr>point_records := None, data_blocks := None, data_block_count := length entries,
              index_partitions := index_partitions_of 0 partitions,
              file_partitions := partitions, file_blocks := encoded\<rparr>)))))"

definition write_table_with_backend ::
  "(table_write_options \<Rightarrow> u64 \<Rightarrow> point_record list \<Rightarrow> point_record list result) \<Rightarrow> (table \<Rightarrow> usize) \<Rightarrow>
   u64 \<Rightarrow> u32 \<Rightarrow> table_write_options \<Rightarrow> point_record list \<Rightarrow> range_tombstone list \<Rightarrow> table result" where
  "write_table_with_backend separate_values encoded_payload_len table_id level options rs ts =
     (if rs = [] \<and> ts = [] then Err (InvalidOptions ''cannot write an empty table'')
      else
        and_then (separate_values options table_id (sort_point_records_if_needed rs)) (\<lambda>point_recs.
        and_then (build_data_blocks point_recs options level) (\<lambda>blocks.
        let pinned = should_pin_read_metadata level;
            t = \<lparr>payload_len = 0,
                 properties = table_properties_of table_id level (wo_codec options) point_recs ts,
                 point_records = Some point_recs, data_blocks = Some blocks,
                 data_block_count = length blocks,
                 index_partitions = index_partitions_for_loaded_blocks blocks,
                 tbl_range_tombstones = rti_new rt_range ts, may_have_range_tombstones = (ts \<noteq> []),
                 tbl_point_key_filter =
                   (if pinned then build_point_key_filter options point_recs level else None),
                 tbl_prefix_filter =
                   (if pinned then build_prefix_filter options point_recs level else None),
                 file_partitions = [], file_blocks = []\<rparr>
        in and_then (encode_table_for_write t) (\<lambda>encoded.
           if encoded_payload_len t < 2 ^ 32
           then Ok (encoded\<lparr>payload_len := encoded_payload_len t\<rparr>)
           else Err (InvalidOptions ''table payload exceeds u32::MAX'')))))"

section \<open>Validation of what is read back\<close>

fun entries_sorted :: "internal_key option \<Rightarrow> table_data_block list \<Rightarrow> unit result" where
  "entries_sorted previous_largest [] = Ok ()"
| "entries_sorted previous_largest (entry # entries) =
     (if (case previous_largest of None \<Rightarrow> False | Some previous \<Rightarrow> previous \<ge> smallest_internal_key entry)
      then Err (Corruption ''data block index entries are not sorted'')
      else entries_sorted (Some (largest_internal_key entry)) entries)"

definition validate_index_partition :: "index_partition_entry \<Rightarrow> table_data_block list \<Rightarrow> unit result" where
  "validate_index_partition part entries =
     (if length entries \<noteq> ip_data_block_count part
      then Err (invalid_table ''index partition entry count mismatch'')
      else if entries = [] then Err (invalid_table ''empty index partition'')
      else if smallest_internal_key (hd entries) \<noteq> ip_smallest_internal_key part \<or>
              largest_internal_key (last entries) \<noteq> ip_largest_internal_key part
      then Err (invalid_table ''index partition key bounds mismatch'')
      else entries_sorted None entries)"

definition validate_sorted_point_records :: "point_record list \<Rightarrow> unit result" where
  "validate_sorted_point_records rs =
     (if \<exists>i < length rs - 1. fst (rs ! i) \<ge> fst (rs ! (i + 1))
      then Err (Corruption ''table point records are not sorted by internal key'')
      else Ok ())"

definition validate_decoded_data_block_entry :: "table_data_block \<Rightarrow> decoded_data_block \<Rightarrow> unit result" where
  "validate_decoded_data_block_entry entry b =
     (if db_records b = [] then Err (Corruption ''data block index points to an empty block'')
      else if fst (hd (db_records b)) \<noteq> smallest_internal_key entry \<or>
              fst (last (db_records b)) \<noteq> largest_internal_key entry
      then Err (Corruption ''data block index key bounds do not match block records'')
      else validate_sorted_point_records (db_records b))"

definition point_filter_misses :: "bloom_bits option \<Rightarrow> bytes \<Rightarrow> bool" where
  "point_filter_misses filt key = (case filt of None \<Rightarrow> False | Some f \<Rightarrow> \<not> may_contain_key f key)"

definition prefix_filter_misses :: "prefix_filter option \<Rightarrow> bytes \<Rightarrow> bool" where
  "prefix_filter_misses filt key =
     (case filt of
        None \<Rightarrow> False
      | Some f \<Rightarrow>
          (case extract_prefix (pf_extractor f) key of
             None \<Rightarrow> False
           | Some prefix \<Rightarrow> \<not> may_contain_prefix f prefix))"

definition validate_decoded_data_block_filters :: "table_data_block \<Rightarrow> decoded_data_block \<Rightarrow> unit result" where
  "validate_decoded_data_block_filters entry b =
     fold_result (\<lambda>r _.
       if point_filter_misses (tdb_point_key_filter entry) (user_key (fst r))
       then Err (Corruption ''data block point-key filter misses a block key'')
       else if prefix_filter_misses (tdb_prefix_filter entry) (user_key (fst r))
       then Err (Corruption ''data block prefix filter misses a block prefix'')
       else Ok ()) (db_records b) ()"

definition validate_table_filters ::
  "bloom_bits option \<Rightarrow> prefix_filter option \<Rightarrow> point_record list \<Rightarrow> unit result" where
  "validate_table_filters point_filter prefix_filt rs =
     fold_result (\<lambda>r _.
       if point_filter_misses point_filter (user_key (fst r))
       then Err (Corruption ''table point-key filter misses a table key'')
       else if prefix_filter_misses prefix_filt (user_key (fst r))
       then Err (Corruption ''table prefix filter misses a table prefix'')
       else Ok ()) rs ()"

end
