(* ===== verification/Table_Read.thy ===== *)
theory Table_Read
  imports Table_Meta
begin

text \<open>
  Reading a table (\<^verbatim>\<open>src/src/table/block_access.rs\<close>, \<^verbatim>\<open>src/src/table/read.rs\<close>): the two-level search through
  index partitions to the first candidate block, the walk over candidate blocks with their bounds and
  filters, the batched lookup that visits each block once per round, and the pruning tests on the
  table's key bounds and filters. Caches only keep what a load returned and are transparent.

  Shown here: on a well-formed table a point lookup returns the newest visible record of the key, the
  batched lookup agrees with the single one on every key and always ends, a range read misses at most
  versions of the key at the lower bound, and the key-bound pruning never hides a record unless the
  table also holds a half-infinite tombstone, in which case it does.
\<close>

section \<open>Access to partitions and blocks\<close>

text \<open>\<^verbatim>\<open>slice::get(index)\<close>.\<close>
definition nth_opt :: "'a list \<Rightarrow> usize \<Rightarrow> 'a option" where
  "nth_opt xs i = (if i < length xs then Some (xs ! i) else None)"

definition partition_contains_block :: "table \<Rightarrow> usize \<Rightarrow> usize \<Rightarrow> bool" where
  "partition_contains_block t partition_index block_index =
     (case nth_opt (index_partitions t) partition_index of
        None \<Rightarrow> False
      | Some p \<Rightarrow>
          first_data_block_index p \<le> block_index \<and>
          block_index < saturating_add_usize (first_data_block_index p) (ip_data_block_count p))"

definition index_partition_index_for_block :: "table \<Rightarrow> usize \<Rightarrow> usize result" where
  "index_partition_index_for_block t block_index =
     (if block_index \<ge> data_block_count t then Err (invalid_table ''data block index outside table'')
      else
        let expected = block_index div INDEX_PARTITION_TARGET_ENTRIES
        in if partition_contains_block t expected block_index then Ok expected
           else
             let upper = partition_point (\<lambda>p. first_data_block_index p \<le> block_index) (index_partitions t)
             in if upper = 0 then Err (invalid_table ''data block index has no partition'')
                else if partition_contains_block t (upper - 1) block_index then Ok (upper - 1)
                else Err (invalid_table ''data block index has no partition''))"

definition load_index_partition :: "table \<Rightarrow> usize \<Rightarrow> table_data_block list result" where
  "load_index_partition t partition_index =
     and_then (ok_or (invalid_table ''index partition outside table'')
       (nth_opt (index_partitions t) partition_index)) (\<lambda>part.
     and_then (ok_or (invalid_table ''index partition outside table'')
       (nth_opt (file_partitions t) partition_index)) (\<lambda>entries.
     and_then (validate_index_partition part entries) (\<lambda>_.
     map_result from_index_entry entries)))"

definition with_data_block_metadata :: "table \<Rightarrow> usize \<Rightarrow> table_data_block result" where
  "with_data_block_metadata t block_index =
     (case data_blocks t of
        Some blocks \<Rightarrow> ok_or (invalid_table ''data block index outside table'') (nth_opt blocks block_index)
      | None \<Rightarrow>
          and_then (index_partition_index_for_block t block_index) (\<lambda>partition_index.
          and_then (load_index_partition t partition_index) (\<lambda>part.
          and_then (ok_or (invalid_table ''index partition outside table'')
            (nth_opt (index_partitions t) partition_index)) (\<lambda>entry.
          if block_index < first_data_block_index entry
          then Err (invalid_table ''data block index before partition'')
          else ok_or (invalid_table ''data block index outside partition'')
                 (nth_opt part (block_index - first_data_block_index entry))))))"

definition read_data_block_from_file :: "table \<Rightarrow> usize \<Rightarrow> table_data_block \<Rightarrow> decoded_data_block result" where
  "read_data_block_from_file t block_index entry =
     and_then (ok_or (invalid_table ''block outside file'') (nth_opt (file_blocks t) block_index)) (\<lambda>b.
     and_then (validate_decoded_data_block_entry entry b) (\<lambda>_.
     and_then (validate_decoded_data_block_filters entry b) (\<lambda>_. Ok b)))"

definition load_data_block :: "table \<Rightarrow> usize \<Rightarrow> decoded_data_block result" where
  "load_data_block t block_index =
     (case point_records t of
        Some rs \<Rightarrow>
          and_then (with_data_block_metadata t block_index) (\<lambda>b.
          and_then (ok_or (invalid_table ''data block record range outside table'')
            (slice_get rs (fst (record_range b)) (snd (record_range b)))) decoded_from_records)
      | None \<Rightarrow>
          and_then (with_data_block_metadata t block_index) (read_data_block_from_file t block_index))"

definition all_point_records :: "table \<Rightarrow> point_record list result" where
  "all_point_records t =
     (case point_records t of
        Some rs \<Rightarrow> Ok rs
      | None \<Rightarrow>
          and_then (map_result (load_data_block t) [0..<data_block_count t]) (\<lambda>blocks.
          let rs = concat (map db_records blocks)
          in and_then (validate_sorted_point_records rs) (\<lambda>_. Ok rs)))"

text \<open>The two-level search that \<^verbatim>\<open>first_block_matching_key\<close> and \<^verbatim>\<open>first_block_matching_range_start\<close> share:
  the predicate tells, from the largest user key, that a partition or block lies before the target.\<close>

definition first_block_matching ::
  "table \<Rightarrow> index_search_policy \<Rightarrow> (bytes \<Rightarrow> bool) \<Rightarrow> usize option result" where
  "first_block_matching t policy before =
     (case data_blocks t of
        Some blocks \<Rightarrow>
          (let index = partition_point_by (length blocks) policy
                 (\<lambda>i. before (user_key (largest_internal_key (blocks ! i))))
           in Ok (if index < length blocks then Some index else None))
      | None \<Rightarrow>
          (let partition_index = partition_point_by (length (index_partitions t)) policy
                 (\<lambda>i. before (user_key (ip_largest_internal_key (index_partitions t ! i))))
           in case nth_opt (index_partitions t) partition_index of
                None \<Rightarrow> Ok None
              | Some entry \<Rightarrow>
                  and_then (load_index_partition t partition_index) (\<lambda>part.
                  let local_index = partition_point_by (length part) policy
                        (\<lambda>i. before (user_key (largest_internal_key (part ! i))))
                  in Ok (if local_index < length part
                         then Some (first_data_block_index entry + local_index) else None))))"

definition first_block_matching_key :: "table \<Rightarrow> bytes \<Rightarrow> index_search_policy \<Rightarrow> usize option result" where
  "first_block_matching_key t key policy = first_block_matching t policy (\<lambda>largest. largest < key)"

definition first_block_matching_range_start ::
  "table \<Rightarrow> key_range \<Rightarrow> index_search_policy \<Rightarrow> usize option result" where
  "first_block_matching_range_start t rng policy =
     first_block_matching t policy (\<lambda>largest. key_is_before_start largest (kr_start rng))"

section \<open>Point lookups\<close>

definition block_point_filter_allows :: "table_data_block \<Rightarrow> bytes \<Rightarrow> bool" where
  "block_point_filter_allows b key =
     (if \<not> key_bounds_may_contain b key then False
      else case point_filter_result b key of None \<Rightarrow> True | Some allowed \<Rightarrow> allowed)"

definition block_prefix_filter_allows ::
  "table_data_block \<Rightarrow> bytes \<Rightarrow> prefix_extractor \<Rightarrow> bool \<times> bool" where
  "block_prefix_filter_allows b prefix extractor =
     (case prefix_filter_result b prefix extractor of
        None \<Rightarrow> (True, False)
      | Some allowed \<Rightarrow> (allowed, True))"

text \<open>\<^verbatim>\<open>PointBlockDecision\<close>; the flag that it carries only feeds statistics.\<close>

datatype point_block_decision = PointDone | PointSkip | PointRead

definition point_block_decision :: "table_data_block \<Rightarrow> bytes \<Rightarrow> point_block_decision" where
  "point_block_decision b key =
     (if user_key (smallest_internal_key b) > key then PointDone
      else if \<not> block_point_filter_allows b key then PointSkip
      else PointRead)"

fun point_records_in_blocks :: "table \<Rightarrow> bytes \<Rightarrow> usize list \<Rightarrow> point_record list result" where
  "point_records_in_blocks t key [] = Ok []"
| "point_records_in_blocks t key (i # is) =
     and_then (with_data_block_metadata t i) (\<lambda>b.
     case point_block_decision b key of
       PointDone \<Rightarrow> Ok []
     | PointSkip \<Rightarrow> point_records_in_blocks t key is
     | PointRead \<Rightarrow>
         and_then (load_data_block t i) (\<lambda>blk.
         and_then (data_block_point_records_for_key blk key) (\<lambda>rs.
         and_then (point_records_in_blocks t key is) (\<lambda>rest. Ok (rs @ rest)))))"

definition point_records_for_key ::
  "table \<Rightarrow> bytes \<Rightarrow> index_search_policy \<Rightarrow> point_record list result" where
  "point_records_for_key t key policy =
     and_then (first_block_matching_key t key policy) (\<lambda>start.
     case start of
       None \<Rightarrow> Ok []
     | Some i \<Rightarrow> point_records_in_blocks t key [i..<data_block_count t])"

fun newest_visible_in_blocks :: "table \<Rightarrow> bytes \<Rightarrow> sequence \<Rightarrow> usize list \<Rightarrow> point_record option result" where
  "newest_visible_in_blocks t key s [] = Ok None"
| "newest_visible_in_blocks t key s (i # is) =
     and_then (with_data_block_metadata t i) (\<lambda>b.
     case point_block_decision b key of
       PointDone \<Rightarrow> Ok None
     | PointSkip \<Rightarrow> newest_visible_in_blocks t key s is
     | PointRead \<Rightarrow>
         and_then (load_data_block t i) (\<lambda>blk.
         and_then (data_block_newest_visible_point_value_record_for_key blk key s) (\<lambda>(has_key, r).
         if \<not> has_key then newest_visible_in_blocks t key s is
         else case r of
                Some r \<Rightarrow> Ok (Some r)
              | None \<Rightarrow> newest_visible_in_blocks t key s is)))"

definition newest_visible_point_value_record_for_key ::
  "table \<Rightarrow> bytes \<Rightarrow> sequence \<Rightarrow> index_search_policy \<Rightarrow> point_record option result" where
  "newest_visible_point_value_record_for_key t key s policy =
     and_then (first_block_matching_key t key policy) (\<lambda>start.
     case start of
       None \<Rightarrow> Ok None
     | Some i \<Rightarrow> newest_visible_in_blocks t key s [i..<data_block_count t])"

section \<open>Batched point lookups\<close>

text \<open>A pending scan (\<^verbatim>\<open>PointBatchScan\<close>) is the pair of a key index and the next block to look at.\<close>

type_synonym point_batch_scan = "usize \<times> usize"

definition next_point_batch_block :: "usize \<Rightarrow> usize \<Rightarrow> usize option" where
  "next_point_batch_block block_index blocks =
     Option.bind (checked_add_usize block_index 1) (\<lambda>next. if next < blocks then Some next else None)"

definition push_next :: "table \<Rightarrow> point_batch_scan \<Rightarrow> point_batch_scan list \<Rightarrow> point_batch_scan list" where
  "push_next t scan next_scans =
     (case next_point_batch_block (snd scan) (data_block_count t) of
        None \<Rightarrow> next_scans
      | Some i \<Rightarrow> next_scans @ [(fst scan, i)])"

fun plan_group ::
  "table \<Rightarrow> bytes list \<Rightarrow> table_data_block \<Rightarrow> point_batch_scan list \<Rightarrow> point_batch_scan list \<Rightarrow>
   point_batch_scan list \<times> point_batch_scan list" where
  "plan_group t keys b [] next_scans = (next_scans, [])"
| "plan_group t keys b (scan # scans) next_scans =
     (case point_block_decision b (keys ! fst scan) of
        PointDone \<Rightarrow> plan_group t keys b scans next_scans
      | PointSkip \<Rightarrow> plan_group t keys b scans (push_next t scan next_scans)
      | PointRead \<Rightarrow>
          (case plan_group t keys b scans next_scans of
             (next_scans', reads) \<Rightarrow> (next_scans', scan # reads)))"

fun read_group ::
  "table \<Rightarrow> bytes list \<Rightarrow> sequence \<Rightarrow> decoded_data_block \<Rightarrow> point_batch_scan list \<Rightarrow>
   point_record option list \<times> point_batch_scan list \<Rightarrow>
   (point_record option list \<times> point_batch_scan list) result" where
  "read_group t keys s blk [] st = Ok st"
| "read_group t keys s blk (read # reads) (records, next_scans) =
     and_then (data_block_newest_visible_point_value_record_for_key blk (keys ! fst read) s)
       (\<lambda>(has_key, r).
        read_group t keys s blk reads
          (if \<not> has_key then (records, push_next t read next_scans)
           else case r of
                  Some r \<Rightarrow> (records[fst read := Some r], next_scans)
                | None \<Rightarrow> (records, push_next t read next_scans)))"

function batch_round ::
  "table \<Rightarrow> bytes list \<Rightarrow> sequence \<Rightarrow> point_batch_scan list \<Rightarrow>
   point_record option list \<times> point_batch_scan list \<Rightarrow>
   (point_record option list \<times> point_batch_scan list) result" where
  "batch_round t keys s [] st = Ok st"
| "batch_round t keys s (scan # scans) st =
     (let block_index = snd scan;
          group = scan # takeWhile (\<lambda>x. snd x = block_index) scans;
          rest = dropWhile (\<lambda>x. snd x = block_index) scans
      in and_then (with_data_block_metadata t block_index) (\<lambda>b.
         case plan_group t keys b group (snd st) of
           (next_scans, reads) \<Rightarrow>
             if reads = [] then batch_round t keys s rest (fst st, next_scans)
             else and_then (load_data_block t block_index) (\<lambda>blk.
                  and_then (read_group t keys s blk reads (fst st, next_scans)) (\<lambda>st'.
                  batch_round t keys s rest st'))))"
  by pat_completeness auto
termination
  by (relation "measure (\<lambda>(_, _, _, scans, _). length scans)")
     (auto simp: le_imp_less_Suc length_dropWhile_le)

definition sort_scans :: "point_batch_scan list \<Rightarrow> point_batch_scan list" where
  "sort_scans scans = sort_by (\<lambda>a b. cmp (snd a) (snd b)) scans"

text \<open>Every scan that a round leaves pending has moved to a later block, which ends the loop. The
  weight of the pending scans is the number of block visits left to them.\<close>

definition scan_weight :: "table \<Rightarrow> point_batch_scan list \<Rightarrow> nat" where
  "scan_weight t scans = (\<Sum>x\<leftarrow>scans. Suc (data_block_count t - snd x))"

lemma scan_weight_simps [simp]:
  "scan_weight t [] = 0"
  "scan_weight t (x # xs) = Suc (data_block_count t - snd x + scan_weight t xs)"
  "scan_weight t (xs @ ys) = scan_weight t xs + scan_weight t ys"
  by (simp_all add: scan_weight_def)

lemma scan_weight_push_next:
  "scan_weight t (push_next t scan ns) \<le> scan_weight t ns + (data_block_count t - snd scan)"
  by (auto simp: push_next_def next_point_batch_block_def checked_add_usize_def
           split: option.splits Option.bind_splits if_splits)

lemma plan_group_weight:
  "plan_group t keys b scans ns = (ns', reads) \<Longrightarrow>
   scan_weight t ns' + length scans + scan_weight t reads
     \<le> scan_weight t ns + scan_weight t scans + length reads"
proof (induction t keys b scans ns arbitrary: reads rule: plan_group.induct)
  case (2 t keys b scan scans ns)
  note push = scan_weight_push_next [of t scan ns]
  show ?case
  proof (cases "point_block_decision b (keys ! fst scan)")
    case PointDone
    then show ?thesis using 2(1) [OF PointDone] 2(4) by fastforce
  next
    case PointSkip
    then show ?thesis using 2(2) [OF PointSkip] 2(4) push by fastforce
  next
    case PointRead
    then show ?thesis using 2(3) [OF PointRead] 2(4) by (fastforce split: prod.splits)
  qed
qed simp

lemma read_group_weight:
  "read_group t keys s blk reads st = Inr st' \<Longrightarrow>
   scan_weight t (snd st') + length reads \<le> scan_weight t (snd st) + scan_weight t reads"
proof (induction t keys s blk reads st rule: read_group.induct)
  case (2 t keys s blk rd reads records ns)
  obtain h r where hr: "data_block_newest_visible_point_value_record_for_key blk (keys ! fst rd) s = Inr (h, r)"
    using 2(2) by (auto simp: and_then_eq_Inr_iff)
  show ?case
    using 2(1) [OF hr refl] 2(2) hr scan_weight_push_next [of t rd ns]
    by (fastforce simp: result_simps split: if_splits option.splits)
qed auto

lemma takeWhile_dropWhile_weight:
  "scan_weight t (takeWhile P xs) + scan_weight t (dropWhile P xs) = scan_weight t xs"
  by (metis scan_weight_simps(3) takeWhile_dropWhile_id)

lemma takeWhile_dropWhile_length: "length (takeWhile P xs) + length (dropWhile P xs) = length xs"
  by (metis length_append takeWhile_dropWhile_id)

lemma batch_round_weight:
  "batch_round t keys s scans st = Inr st' \<Longrightarrow>
   scan_weight t (snd st') + length scans \<le> scan_weight t (snd st) + scan_weight t scans"
proof (induction t keys s scans st rule: batch_round.induct)
  case (2 t keys s scan scans st)
  let ?group = "scan # takeWhile (\<lambda>x. snd x = snd scan) scans"
  let ?rest = "dropWhile (\<lambda>x. snd x = snd scan) scans"
  obtain b where b: "with_data_block_metadata t (snd scan) = Inr b"
    using 2(3) by (auto simp: Let_def and_then_eq_Inr_iff simp del: plan_group.simps)
  obtain ns reads where plan: "plan_group t keys b ?group (snd st) = (ns, reads)"
    by (metis surj_pair)
  note w = plan_group_weight [OF plan] takeWhile_dropWhile_weight [of t "\<lambda>x. snd x = snd scan" scans]
    takeWhile_dropWhile_length [of "\<lambda>x. snd x = snd scan" scans]
  show ?case
  proof (cases "reads = []")
    case True
    then have "batch_round t keys s ?rest (fst st, ns) = Inr st'"
      using 2(3) b plan by (simp add: Let_def result_simps del: plan_group.simps)
    from 2(1) [OF refl refl refl b plan [symmetric] True this] show ?thesis
      using w True by simp
  next
    case False
    then obtain blk st1 where blk: "load_data_block t (snd scan) = Inr blk"
        "read_group t keys s blk reads (fst st, ns) = Inr st1" "batch_round t keys s ?rest st1 = Inr st'"
      using 2(3) b plan by (auto simp: Let_def and_then_eq_Inr_iff simp del: plan_group.simps)
    from 2(2) [OF refl refl refl b plan [symmetric] False blk(1,2,3)] show ?thesis
      using w read_group_weight [OF blk(2)] by simp
  qed
qed simp

lemma scan_weight_sort_scans [simp]: "scan_weight t (sort_scans scans) = scan_weight t scans"
  by (simp add: scan_weight_def sort_scans_def flip: sum_mset_sum_list)

lemma length_sort_scans [simp]: "length (sort_scans scans) = length scans"
  by (metis mset_sort_by size_mset sort_scans_def)

function batch_loop ::
  "table \<Rightarrow> bytes list \<Rightarrow> sequence \<Rightarrow> point_batch_scan list \<Rightarrow> point_record option list \<Rightarrow>
   point_record option list result" where
  "batch_loop t keys s scans records =
     (if scans = [] then Ok records
      else and_then (batch_round t keys s (sort_scans scans) (records, [])) (\<lambda>(records', next_scans).
           batch_loop t keys s next_scans records'))"
  by pat_completeness auto
termination
proof (relation "measure (\<lambda>(t, _, _, scans, _). scan_weight t scans)", goal_cases)
  case (2 t keys s scans records st records' next_scans)
  then show ?case
    using batch_round_weight [of t keys s "sort_scans scans" "(records, [])" st]
    by (cases scans) auto
qed simp

fun initial_scans ::
  "table \<Rightarrow> index_search_policy \<Rightarrow> usize \<Rightarrow> bytes list \<Rightarrow> point_batch_scan list result" where
  "initial_scans t policy key_index [] = Ok []"
| "initial_scans t policy key_index (key # keys) =
     and_then (first_block_matching_key t key policy) (\<lambda>start.
     and_then (initial_scans t policy (key_index + 1) keys) (\<lambda>scans.
     Ok (case start of None \<Rightarrow> scans | Some i \<Rightarrow> (key_index, i) # scans)))"

definition newest_visible_point_value_records_for_keys ::
  "table \<Rightarrow> bytes list \<Rightarrow> sequence \<Rightarrow> index_search_policy \<Rightarrow> point_record option list result" where
  "newest_visible_point_value_records_for_keys t keys s policy =
     and_then (initial_scans t policy 0 keys) (\<lambda>scans.
     batch_loop t keys s scans (replicate (length keys) None))"

section \<open>Range reads, tombstones and pruning\<close>

datatype range_block_decision = RangeDone | RangeSkip | RangeRead

definition range_block_decision :: "table_data_block \<Rightarrow> key_range \<Rightarrow> range_block_decision" where
  "range_block_decision b rng =
     (if key_is_after_end (user_key (smallest_internal_key b)) (kr_end rng) then RangeDone
      else if \<not> overlaps_range b rng then RangeSkip
      else RangeRead)"

fun point_records_in_range_blocks ::
  "table \<Rightarrow> key_range \<Rightarrow> index_search_policy \<Rightarrow> usize list \<Rightarrow> point_record list result" where
  "point_records_in_range_blocks t rng policy [] = Ok []"
| "point_records_in_range_blocks t rng policy (i # is) =
     and_then (with_data_block_metadata t i) (\<lambda>b.
     case range_block_decision b rng of
       RangeDone \<Rightarrow> Ok []
     | RangeSkip \<Rightarrow> point_records_in_range_blocks t rng policy is
     | RangeRead \<Rightarrow>
         and_then (load_data_block t i) (\<lambda>blk.
         and_then (data_block_point_records_in_range blk rng policy) (\<lambda>rs.
         and_then (point_records_in_range_blocks t rng policy is) (\<lambda>rest. Ok (rs @ rest)))))"

definition point_records_in_range ::
  "table \<Rightarrow> key_range \<Rightarrow> index_search_policy \<Rightarrow> point_record list result" where
  "point_records_in_range t rng policy =
     and_then (first_block_matching_range_start t rng policy) (\<lambda>start.
     case start of
       None \<Rightarrow> Ok []
     | Some i \<Rightarrow> point_records_in_range_blocks t rng policy [i..<data_block_count t])"

definition table_range_tombstone_covers_visible_point ::
  "table \<Rightarrow> bytes \<Rightarrow> sequence \<Rightarrow> u32 \<Rightarrow> sequence \<Rightarrow> bool" where
  "table_range_tombstone_covers_visible_point t key point_sequence point_batch_index read_sequence =
     (if \<not> may_have_range_tombstones t then False
      else list_ex (\<lambda>ts. rt_sequence ts \<le> read_sequence \<and>
             (rt_sequence ts > point_sequence \<or>
              (rt_sequence ts = point_sequence \<and> rt_batch_index ts > point_batch_index)))
           (covering_key rt_range (tbl_range_tombstones t) key))"

definition range_tombstones_overlapping_range :: "table \<Rightarrow> key_range \<Rightarrow> range_tombstone list" where
  "range_tombstones_overlapping_range t rng =
     (if \<not> may_have_range_tombstones t then []
      else overlapping_range rt_range (tbl_range_tombstones t) rng)"

definition has_key_bounds :: "table \<Rightarrow> bool" where
  "has_key_bounds t =
     (\<not> (data_block_count t = 0 \<and> smallest_user_key (properties t) = [] \<and>
         largest_user_key (properties t) = []))"

definition key_bounds_may_contain_key :: "table \<Rightarrow> bytes \<Rightarrow> bool" where
  "key_bounds_may_contain_key t key =
     (if \<not> has_key_bounds t then may_have_range_tombstones t
      else smallest_user_key (properties t) \<le> key \<and> key \<le> largest_user_key (properties t))"

definition key_bounds_overlap_range :: "table \<Rightarrow> key_range \<Rightarrow> bool" where
  "key_bounds_overlap_range t rng =
     (if \<not> has_key_bounds t then may_have_range_tombstones t
      else \<not> key_is_after_end (smallest_user_key (properties t)) (kr_end rng) \<and>
           \<not> key_is_before_start (largest_user_key (properties t)) (kr_start rng))"

definition table_may_contain_key :: "table \<Rightarrow> bytes \<Rightarrow> bool" where
  "table_may_contain_key t key =
     (if \<not> key_bounds_may_contain_key t key then False
      else case tbl_point_key_filter t of None \<Rightarrow> True | Some filt \<Rightarrow> may_contain_key filt key)"

definition table_prefix_filter_result :: "table \<Rightarrow> bytes \<Rightarrow> prefix_extractor \<Rightarrow> bool option" where
  "table_prefix_filter_result t prefix extractor =
     filter_prefix_result (tbl_prefix_filter t) prefix extractor"

definition table_may_contain_prefix :: "table \<Rightarrow> bytes \<Rightarrow> prefix_extractor \<Rightarrow> bool" where
  "table_may_contain_prefix t prefix extractor =
     (case table_prefix_filter_result t prefix extractor of None \<Rightarrow> True | Some allowed \<Rightarrow> allowed)"

definition with_manifest_properties :: "table \<Rightarrow> table_properties \<Rightarrow> table result" where
  "with_manifest_properties t manifest =
     (if (properties t)\<lparr>tp_level := tp_level manifest\<rparr> \<noteq> manifest
      then Err (Corruption ''manifest properties do not match table'')
      else Ok (t\<lparr>properties := (properties t)\<lparr>tp_level := tp_level manifest\<rparr>\<rparr>))"

definition clone_with_level :: "table \<Rightarrow> u32 \<Rightarrow> table" where
  "clone_with_level t level = t\<lparr>properties := (properties t)\<lparr>tp_level := level\<rparr>\<rparr>"

definition HEADER_LEN :: usize where "HEADER_LEN = 14"

definition estimated_file_bytes :: "table \<Rightarrow> u64" where
  "estimated_file_bytes t = usize_to_u64_saturating (saturating_add_usize HEADER_LEN (payload_len t))"

section \<open>Well-formed tables\<close>

declare chunks.simps [simp del] build_data_blocks_from.simps [simp del] batch_loop.simps [simp del]

text \<open>An index entry describes a block when it states its first and last internal key and its filters
  admit every key of it, which is what the reader checks on every load.\<close>

definition describes :: "table_data_block \<Rightarrow> decoded_data_block \<Rightarrow> bool" where
  "describes e b \<longleftrightarrow>
     block_ok b \<and> db_records b \<noteq> [] \<and> record_range e = (0, 0) \<and>
     smallest_internal_key e = fst (hd (db_records b)) \<and>
     largest_internal_key e = fst (last (db_records b)) \<and>
     (\<forall>r\<in>set (db_records b).
        \<not> point_filter_misses (tdb_point_key_filter e) (user_key (fst r)) \<and>
        \<not> prefix_filter_misses (tdb_prefix_filter e) (user_key (fst r)))"

definition table_index :: "table \<Rightarrow> table_data_block list" where
  "table_index t = concat (file_partitions t)"

definition table_records :: "table \<Rightarrow> point_record list" where
  "table_records t = concat (map db_records (file_blocks t))"

definition table_ok :: "table \<Rightarrow> bool" where
  "table_ok t \<longleftrightarrow>
     point_records t = None \<and> data_blocks t = None \<and>
     data_block_count t = length (file_blocks t) \<and> length (file_blocks t) \<le> usize_max \<and>
     list_all2 describes (table_index t) (file_blocks t) \<and>
     file_partitions t = chunks INDEX_PARTITION_TARGET_ENTRIES (table_index t) \<and>
     index_partitions t = index_partitions_of 0 (file_partitions t) \<and>
     btree_ok (table_records t)"

subsection \<open>Chunks and partitions\<close>

lemma chunks_Nil [simp]: "chunks n [] = []"
  by (simp add: chunks.simps)

lemma chunks_step: "0 < n \<Longrightarrow> xs \<noteq> [] \<Longrightarrow> chunks n xs = take n xs # chunks n (drop n xs)"
  by (simp add: chunks.simps)

lemma concat_chunks [simp]: "0 < n \<Longrightarrow> concat (chunks n xs) = xs"
  by (induction n xs rule: chunks.induct) (auto simp: chunks_step chunks.simps)

lemma chunks_nonempty: "c \<in> set (chunks n xs) \<Longrightarrow> c \<noteq> []"
proof (induction n xs rule: chunks.induct)
  case (1 n xs)
  then show ?case by (auto simp: chunks.simps [of n xs] split: if_splits)
qed

lemma nth_chunks:
  assumes "0 < n"
  shows "p < length (chunks n xs) \<longleftrightarrow> p * n < length xs"
    and "p < length (chunks n xs) \<Longrightarrow> chunks n xs ! p = take n (drop (p * n) xs)"
proof -
  have "(p < length (chunks n xs) \<longleftrightarrow> p * n < length xs) \<and>
    (p < length (chunks n xs) \<longrightarrow> chunks n xs ! p = take n (drop (p * n) xs))"
    using assms
  proof (induction n xs arbitrary: p rule: chunks.induct)
    case (1 n xs)
    show ?case
    proof (cases "xs = []")
      case False
      with 1 have IH: "(q < length (chunks n (drop n xs)) \<longleftrightarrow> q * n < length (drop n xs)) \<and>
          (q < length (chunks n (drop n xs)) \<longrightarrow> chunks n (drop n xs) ! q = take n (drop (q * n) (drop n xs)))" for q
        by simp
      show ?thesis
        using IH [of "p - 1"] 1(2) False
        by (cases p) (auto simp: chunks_step [OF 1(2) False] less_diff_conv add.commute)
    qed simp
  qed
  then show "p < length (chunks n xs) \<longleftrightarrow> p * n < length xs"
    and "p < length (chunks n xs) \<Longrightarrow> chunks n xs ! p = take n (drop (p * n) xs)"
    by auto
qed

lemma nth_nth_chunks:
  assumes "0 < n" "i < length xs"
  shows "i div n < length (chunks n xs)" "i mod n < length (chunks n xs ! (i div n))"
    "chunks n xs ! (i div n) ! (i mod n) = xs ! i"
proof -
  have le: "i div n * n \<le> i" and i: "i div n * n + i mod n = i" "i mod n < n"
    using assms by (simp_all add: div_times_less_eq_dividend)
  show p: "i div n < length (chunks n xs)"
    using order_le_less_trans [OF le assms(2)] by (simp add: nth_chunks(1) [OF assms(1)])
  have lt: "i mod n < length xs - i div n * n"
    using i(1) assms(2) by linarith
  show "i mod n < length (chunks n xs ! (i div n))"
    unfolding nth_chunks(2) [OF assms(1) p] using lt i(2) by simp
  show "chunks n xs ! (i div n) ! (i mod n) = xs ! i"
    unfolding nth_chunks(2) [OF assms(1) p] using lt i by simp
qed

lemma index_partitions_of_nth:
  assumes "\<forall>c\<in>set cs. c \<noteq> []"
  shows "length (index_partitions_of k cs) = length cs \<and>
    (\<forall>p < length cs. index_partitions_of k cs ! p =
       \<lparr>ip_smallest_internal_key = smallest_internal_key (hd (cs ! p)),
        ip_largest_internal_key = largest_internal_key (last (cs ! p)),
        first_data_block_index = (k + p) * INDEX_PARTITION_TARGET_ENTRIES,
        ip_data_block_count = length (cs ! p)\<rparr>)"
  using assms
proof (induction k cs rule: index_partitions_of.induct)
  case (2 k c cs)
  then show ?case by (auto simp: nth_Cons' less_Suc_eq_0_disj)
qed simp

lemma partitioned_append:
  "partitioned P (xs @ ys) \<longleftrightarrow>
   partitioned P xs \<and> (if \<forall>x\<in>set xs. P x then partitioned P ys else \<forall>y\<in>set ys. \<not> P y)"
  by (induction xs) auto

lemma partitioned_none: "\<forall>y\<in>set ys. \<not> P y \<Longrightarrow> partitioned P ys"
  by (induction ys) auto

lemma partitioned_appendD: "partitioned P (xs @ ys) \<Longrightarrow> partitioned P xs \<and> partitioned P ys"
  using partitioned_none [of ys P] unfolding partitioned_append by (metis (full_types))

lemma partitioned_last: "partitioned P xs \<Longrightarrow> xs \<noteq> [] \<Longrightarrow> P (last xs) \<Longrightarrow> \<forall>x\<in>set xs. P x"
proof (induction xs)
  case (Cons x xs)
  show ?case
  proof (cases "xs = []")
    case False
    then have last: "P (last xs)" "last xs \<in> set xs" using Cons(4) by auto
    have x: "P x"
    proof (rule ccontr)
      assume "\<not> P x"
      then have "\<forall>y\<in>set xs. \<not> P y" using Cons(2) by simp
      then show False using last by blast
    qed
    have "partitioned P xs" using Cons(2) x by simp
    then show ?thesis using Cons(1) False last(1) x by simp
  qed (use Cons(4) in simp)
qed simp

lemma partition_point_append:
  "partition_point P (xs @ ys) =
     (if \<forall>x\<in>set xs. P x then length xs + partition_point P ys else partition_point P xs)"
  by (auto simp: partition_point_def takeWhile_append)

lemma partition_point_less: "\<exists>x\<in>set xs. \<not> P x \<Longrightarrow> partition_point P xs < length xs"
  by (induction xs) (auto simp: partition_point_def)

lemma partition_point_chunks:
  assumes "0 < n" "partitioned P xs"
  shows "case nth_opt (chunks n xs) (partition_point (\<lambda>c. P (last c)) (chunks n xs)) of
      None \<Rightarrow> partition_point P xs = length xs
    | Some c \<Rightarrow> partition_point P xs =
        partition_point (\<lambda>c. P (last c)) (chunks n xs) * n + partition_point P c \<and>
        partition_point P c < length c"
  using assms
proof (induction n xs rule: chunks.induct)
  case (1 n xs)
  show ?case
  proof (cases "xs = []")
    case False
    define a b where ab: "a = take n xs" "b = drop n xs"
    have a: "a \<noteq> []" using 1(2) False ab by simp
    have xs: "xs = a @ b" using ab by simp
    have part: "partitioned P a" "partitioned P b"
      using partitioned_appendD [of P a b] 1(3) xs by metis+
    have cs: "chunks n xs = a # chunks n b" unfolding ab by (rule chunks_step [OF 1(2) False])
    show ?thesis
    proof (cases "P (last a)")
      case True
      have all: "\<forall>x\<in>set a. P x" by (rule partitioned_last [OF part(1) a True])
      have len: "b \<noteq> [] \<Longrightarrow> length a = n" using ab by simp
      have pp: "partition_point P xs = length a + partition_point P b"
        using all by (simp add: xs partition_point_append)
      have pc: "partition_point (\<lambda>c. P (last c)) (chunks n xs) =
          Suc (partition_point (\<lambda>c. P (last c)) (chunks n b))"
        using True by (simp add: cs partition_point_def)
      have nxt: "nth_opt (chunks n xs) (Suc p) = nth_opt (chunks n b) p" for p
        by (simp add: cs nth_opt_def)
      have lxs: "length xs = length a + length b" by (simp add: xs)
      have IH: "case nth_opt (chunks n b) (partition_point (\<lambda>c. P (last c)) (chunks n b)) of
          None \<Rightarrow> partition_point P b = length b
        | Some c \<Rightarrow> partition_point P b =
            partition_point (\<lambda>c. P (last c)) (chunks n b) * n + partition_point P c \<and>
            partition_point P c < length c"
        using 1(1) 1(2) False part(2) ab by auto
      show ?thesis
        unfolding pp pc nxt lxs using IH len
        by (cases "b = []") (auto simp: nth_opt_def partition_point_def split: option.splits)
    next
      case False
      then have ex: "\<exists>x\<in>set a. \<not> P x" using a by (metis last_in_set)
      have pp: "partition_point P xs = partition_point P a"
        using ex by (auto simp: xs partition_point_append)
      have pc: "partition_point (\<lambda>c. P (last c)) (chunks n xs) = 0"
        using False by (simp add: cs partition_point_def)
      have first: "nth_opt (chunks n xs) 0 = Some a"
        by (simp add: cs nth_opt_def)
      show ?thesis
        unfolding pp pc first using partition_point_less [OF ex] by simp
    qed
  qed (simp add: nth_opt_def partition_point_def)
qed

subsection \<open>Index entries and blocks\<close>

lemma table_ok_lengths:
  assumes "table_ok t"
  shows "length (table_index t) = data_block_count t" "length (file_blocks t) = data_block_count t"
    "data_block_count t \<le> usize_max"
  using assms by (auto simp: table_ok_def dest: list_all2_lengthD)

lemma table_ok_describes:
  "table_ok t \<Longrightarrow> i < data_block_count t \<Longrightarrow> describes (table_index t ! i) (file_blocks t ! i)"
  by (auto simp: table_ok_def list_all2_conv_all_nth)

lemma btree_ok_append:
  "btree_ok (xs @ ys) \<longleftrightarrow> btree_ok xs \<and> btree_ok ys \<and> (\<forall>x\<in>set xs. \<forall>y\<in>set ys. fst x < fst y)"
  by (auto simp: btree_ok_def sorted_wrt_append)

lemma btree_ok_bounds:
  assumes "btree_ok rs" "r \<in> set rs"
  shows "fst (hd rs) \<le> fst r" "fst r \<le> fst (last rs)"
proof -
  obtain i where i: "i < length rs" "r = rs ! i" using assms(2) by (auto simp: in_set_conv_nth)
  have mono: "fst (rs ! j) \<le> fst (rs ! k)" if "j \<le> k" "k < length rs" for j k
    using assms(1) that sorted_wrt_nth_less [of "(<)" "map fst rs" j k]
    by (cases "j = k") (auto simp: btree_ok_def)
  show "fst (hd rs) \<le> fst r" "fst r \<le> fst (last rs)"
    using mono [of 0 i] mono [of i "length rs - 1"] i
    by (cases "rs = []"; simp add: hd_conv_nth last_conv_nth)+
qed

lemma user_key_mono: "a \<le> b \<Longrightarrow> user_key a \<le> user_key (b :: internal_key)"
  using btree_ok_user_keys [of "[(a, None), (b, None)]"] by (cases "a = b") (auto simp: btree_ok_def)

text \<open>Every record of block \<open>i\<close> lies before every record of a later block.\<close>

lemma table_blocks_ordered:
  assumes "table_ok t" "i < j" "j < data_block_count t"
    "x \<in> set (db_records (file_blocks t ! i))" "y \<in> set (db_records (file_blocks t ! j))"
  shows "fst x < fst y"
proof -
  let ?bs = "file_blocks t"
  have len: "j < length ?bs" using assms(3) table_ok_lengths [OF assms(1)] by simp
  have split: "concat (map db_records ?bs) =
      concat (map db_records (take j ?bs)) @ db_records (?bs ! j) @ concat (map db_records (drop (Suc j) ?bs))"
    using id_take_nth_drop [OF len] by (metis concat.simps(2) concat_append list.simps(9) map_append)
  have "x \<in> set (concat (map db_records (take j ?bs)))"
    using assms(2,4) len nth_mem [of i "take j ?bs"] by auto
  then show ?thesis
    using assms(1,5) split by (auto simp: table_ok_def table_records_def btree_ok_append)
qed

lemma describes_user_keys:
  assumes "describes e b" "r \<in> set (db_records b)"
  shows "user_key (smallest_internal_key e) \<le> user_key (fst r)"
    "user_key (fst r) \<le> user_key (largest_internal_key e)"
proof -
  have ok: "btree_ok (db_records b)" using assms(1) by (simp add: describes_def block_ok_def)
  show "user_key (smallest_internal_key e) \<le> user_key (fst r)"
    "user_key (fst r) \<le> user_key (largest_internal_key e)"
    using assms(1) btree_ok_bounds [OF ok assms(2)] by (auto simp: describes_def intro: user_key_mono)
qed

lemma table_index_ordered:
  assumes "table_ok t" "i < j" "j < data_block_count t"
  shows "largest_internal_key (table_index t ! i) < smallest_internal_key (table_index t ! j)"
proof -
  have d: "describes (table_index t ! i) (file_blocks t ! i)" "describes (table_index t ! j) (file_blocks t ! j)"
    using assms table_ok_describes [OF assms(1)] by auto
  show ?thesis
    using table_blocks_ordered [OF assms, of "last (db_records (file_blocks t ! i))" "hd (db_records (file_blocks t ! j))"] d
    by (simp add: describes_def)
qed

lemma table_index_entry_bounds:
  assumes "table_ok t" "i < data_block_count t"
  shows "smallest_internal_key (table_index t ! i) \<le> largest_internal_key (table_index t ! i)"
proof -
  have d: "describes (table_index t ! i) (file_blocks t ! i)"
    by (rule table_ok_describes [OF assms])
  show ?thesis
    using d btree_ok_bounds [of "db_records (file_blocks t ! i)" "hd (db_records (file_blocks t ! i))"]
    by (auto simp: describes_def block_ok_def)
qed

lemma entries_sorted_Ok:
  assumes "sorted_wrt (\<lambda>a b. largest_internal_key a < smallest_internal_key b) es"
    "\<forall>p\<in>set_option prev. \<forall>e\<in>set es. p < smallest_internal_key e"
  shows "entries_sorted prev es = Inr ()"
  using assms by (induction prev es rule: entries_sorted.induct) (fastforce split: option.splits)+

lemma table_index_sorted:
  assumes "table_ok t"
  shows "sorted_wrt (\<lambda>a b. largest_internal_key a < smallest_internal_key b) (table_index t)"
  using table_index_ordered [OF assms] table_ok_lengths [OF assms]
  by (auto simp: sorted_wrt_iff_nth_less)

lemma INDEX_PARTITION_pos [simp]: "0 < INDEX_PARTITION_TARGET_ENTRIES"
  by (simp add: INDEX_PARTITION_TARGET_ENTRIES_def)

lemma table_partitions:
  assumes "table_ok t"
  shows "length (index_partitions t) = length (file_partitions t)"
    "p < length (file_partitions t) \<Longrightarrow> index_partitions t ! p =
       \<lparr>ip_smallest_internal_key = smallest_internal_key (hd (file_partitions t ! p)),
        ip_largest_internal_key = largest_internal_key (last (file_partitions t ! p)),
        first_data_block_index = p * INDEX_PARTITION_TARGET_ENTRIES,
        ip_data_block_count = length (file_partitions t ! p)\<rparr>"
    "p < length (file_partitions t) \<Longrightarrow> file_partitions t ! p \<noteq> []"
proof -
  have eq: "file_partitions t = chunks INDEX_PARTITION_TARGET_ENTRIES (table_index t)"
    "index_partitions t = index_partitions_of 0 (file_partitions t)"
    using assms by (auto simp: table_ok_def)
  have ne: "\<forall>c\<in>set (file_partitions t). c \<noteq> []"
    using eq(1) chunks_nonempty by metis
  show "length (index_partitions t) = length (file_partitions t)"
    "p < length (file_partitions t) \<Longrightarrow> index_partitions t ! p =
       \<lparr>ip_smallest_internal_key = smallest_internal_key (hd (file_partitions t ! p)),
        ip_largest_internal_key = largest_internal_key (last (file_partitions t ! p)),
        first_data_block_index = p * INDEX_PARTITION_TARGET_ENTRIES,
        ip_data_block_count = length (file_partitions t ! p)\<rparr>"
    using index_partitions_of_nth [OF ne, of 0] by (simp_all add: eq(2))
  show "p < length (file_partitions t) \<Longrightarrow> file_partitions t ! p \<noteq> []"
    using ne nth_mem by blast
qed

lemma map_result_id: "(\<And>x. x \<in> set xs \<Longrightarrow> f x = Inr x) \<Longrightarrow> map_result f xs = Inr xs"
  by (induction xs) auto

lemma load_index_partition_Ok:
  assumes ok: "table_ok t" and p: "p < length (file_partitions t)"
  shows "load_index_partition t p = Inr (file_partitions t ! p)"
proof -
  let ?es = "file_partitions t ! p"
  have sub: "e \<in> set (table_index t)" if "e \<in> set ?es" for e
    using that p nth_mem [OF p] by (auto simp: table_index_def)
  have "?es = take INDEX_PARTITION_TARGET_ENTRIES (drop (p * INDEX_PARTITION_TARGET_ENTRIES) (table_index t))"
    using ok p nth_chunks(2) [OF INDEX_PARTITION_pos, of p "table_index t"] by (simp add: table_ok_def)
  then have sorted: "sorted_wrt (\<lambda>a b. largest_internal_key a < smallest_internal_key b) ?es"
    using table_index_sorted [OF ok] by (simp add: sorted_wrt_take sorted_wrt_drop)
  have entry: "from_index_entry e = Inr e" if e: "e \<in> set ?es" for e
  proof -
    obtain i where "i < data_block_count t" "e = table_index t ! i"
      using sub [OF e] table_ok_lengths [OF ok] by (auto simp: in_set_conv_nth)
    then show ?thesis
      using table_ok_describes [OF ok] table_index_entry_bounds [OF ok]
      by (auto simp: from_index_entry_def describes_def leD)
  qed
  show ?thesis
    using p table_partitions [OF ok] entries_sorted_Ok [OF sorted, of None] map_result_id [OF entry]
    by (simp add: load_index_partition_def validate_index_partition_def nth_opt_def)
qed

lemma with_data_block_metadata_Ok:
  assumes ok: "table_ok t" and i: "i < data_block_count t"
  shows "with_data_block_metadata t i = Inr (table_index t ! i)"
proof -
  let ?n = INDEX_PARTITION_TARGET_ENTRIES
  have fp: "file_partitions t = chunks ?n (table_index t)" and db: "data_blocks t = None"
    using ok by (auto simp: table_ok_def)
  have il: "i < length (table_index t)" using i table_ok_lengths [OF ok] by simp
  note nth = nth_nth_chunks [OF INDEX_PARTITION_pos il, folded fp]
  have dm: "i = i div ?n * ?n + i mod ?n" by simp
  have sat: "saturating_add_usize (i div ?n * ?n) (length (file_partitions t ! (i div ?n))) > i"
    using nth(2) dm table_ok_lengths [OF ok] i unfolding saturating_add_usize_def by linarith
  have le: "i div ?n * ?n \<le> i" using dm by linarith
  have "partition_contains_block t (i div ?n) i"
    using nth(1) sat le table_partitions [OF ok] by (simp add: partition_contains_block_def nth_opt_def)
  then have "index_partition_index_for_block t i = Inr (i div ?n)"
    using i by (simp add: index_partition_index_for_block_def Let_def)
  then show ?thesis
    using nth table_partitions [OF ok] load_index_partition_Ok [OF ok nth(1)] db le [THEN leD]
    by (simp add: with_data_block_metadata_def nth_opt_def minus_div_mult_eq_mod)
qed

lemma validate_sorted_point_records_Ok: "btree_ok rs \<Longrightarrow> validate_sorted_point_records rs = Inr ()"
  using sorted_wrt_nth_less [of "(<)" "map fst rs"]
  by (fastforce simp: validate_sorted_point_records_def btree_ok_def not_le)

lemma fold_result_unit:
  "(\<And>x. x \<in> set xs \<Longrightarrow> f x () = Inr ()) \<Longrightarrow> fold_result f xs () = Inr ()"
  by (induction xs) auto

lemma load_data_block_Ok:
  assumes ok: "table_ok t" and i: "i < data_block_count t"
  shows "load_data_block t i = Inr (file_blocks t ! i)"
proof -
  have d: "describes (table_index t ! i) (file_blocks t ! i)"
    by (rule table_ok_describes [OF assms])
  have "validate_decoded_data_block_entry (table_index t ! i) (file_blocks t ! i) = Inr ()"
    using d by (simp add: validate_decoded_data_block_entry_def describes_def block_ok_def
        validate_sorted_point_records_Ok)
  moreover have "validate_decoded_data_block_filters (table_index t ! i) (file_blocks t ! i) = Inr ()"
    using d unfolding validate_decoded_data_block_filters_def
    by (intro fold_result_unit) (simp add: describes_def)
  ultimately show ?thesis
    using ok i with_data_block_metadata_Ok [OF assms] table_ok_lengths [OF ok]
    by (simp add: load_data_block_def read_data_block_from_file_def table_ok_def nth_opt_def)
qed

lemma partitioned_last_concat:
  assumes "partitioned P (concat cs)" "\<forall>c\<in>set cs. c \<noteq> []"
  shows "partitioned (\<lambda>c. P (last c)) cs"
  using assms
proof (induction cs)
  case (Cons c cs)
  have split: "partitioned P c"
    "if \<forall>x\<in>set c. P x then partitioned P (concat cs) else \<forall>y\<in>set (concat cs). \<not> P y"
    using Cons(2) unfolding concat.simps partitioned_append by blast+
  have c: "c \<noteq> []" "\<forall>d\<in>set cs. d \<noteq> []" using Cons(3) by auto
  show ?case
  proof (cases "P (last c)")
    case True
    have "partitioned P (concat cs)"
      using split(2) unfolding if_P [OF partitioned_last [OF split(1) c(1) True]] .
    then show ?thesis using Cons(1) c(2) True by simp
  next
    case False
    then have "\<forall>y\<in>set (concat cs). \<not> P y"
      using Cons(3) split(2) by (metis last_in_set list.set_intros(1))
    moreover have "last d \<in> set (concat cs)" if "d \<in> set cs" for d
      using that Cons(3) last_in_set by (auto intro!: bexI [of _ d])
    ultimately show ?thesis using False by (simp del: set_concat)
  qed
qed simp

definition down_closed :: "('a::order \<Rightarrow> bool) \<Rightarrow> bool" where
  "down_closed P \<longleftrightarrow> (\<forall>a b. a \<le> b \<longrightarrow> P b \<longrightarrow> P a)"

lemma down_closed_less [simp]: "down_closed (\<lambda>k. k < (key :: bytes))"
  by (auto simp: down_closed_def)

lemma before_start_mono: "a \<le> b \<Longrightarrow> key_is_before_start b s \<Longrightarrow> key_is_before_start a s"
  by (cases s) auto

lemma down_closed_before_start [simp]: "down_closed (\<lambda>k. key_is_before_start k s)"
  unfolding down_closed_def using before_start_mono by blast

lemma table_index_partitioned:
  assumes "table_ok t" "down_closed before"
  shows "partitioned (\<lambda>e. before (user_key (largest_internal_key e))) (table_index t)"
proof (rule partitioned_sorted_wrt)
  show "sorted_wrt (\<lambda>a b. user_key (largest_internal_key a) \<le> user_key (largest_internal_key b)) (table_index t)"
    unfolding sorted_wrt_iff_nth_less
  proof (intro allI impI)
    fix i j assume ij: "i < j" "j < length (table_index t)"
    then have j: "j < data_block_count t" using table_ok_lengths [OF assms(1)] by simp
    show "user_key (largest_internal_key (table_index t ! i)) \<le> user_key (largest_internal_key (table_index t ! j))"
      using table_index_ordered [OF assms(1) ij(1) j] table_index_entry_bounds [OF assms(1) j]
      by (intro user_key_mono) order
  qed
qed (use assms(2) in \<open>auto simp: down_closed_def\<close>)

lemma first_block_matching_eq:
  assumes ok: "table_ok t" and mono: "down_closed before"
  shows "first_block_matching t policy before =
    (let i = partition_point (\<lambda>e. before (user_key (largest_internal_key e))) (table_index t)
     in Inr (if i < data_block_count t then Some i else None))"
proof -
  let ?n = INDEX_PARTITION_TARGET_ENTRIES
  let ?P = "\<lambda>e. before (user_key (largest_internal_key e))"
  let ?Q = "\<lambda>c. ?P (last c)"
  let ?fp = "file_partitions t"
  have fp: "?fp = chunks ?n (table_index t)" and db: "data_blocks t = None"
    using ok by (auto simp: table_ok_def)
  have part: "partitioned ?P (table_index t)"
    by (rule table_index_partitioned [OF ok mono])
  have ne: "\<forall>c\<in>set ?fp. c \<noteq> []" using fp chunks_nonempty by metis
  have partQ: "partitioned ?Q ?fp"
    by (rule partitioned_last_concat [OF _ ne]) (use part in \<open>simp add: table_index_def\<close>)
  let ?k = "partition_point ?Q ?fp"
  note pb = partition_point_partitioned [OF partQ]
  have outer: "partition_point_by (length (index_partitions t)) policy
      (\<lambda>i. before (user_key (ip_largest_internal_key (index_partitions t ! i)))) = ?k"
    by (rule partition_point_by_boundary)
       (use pb table_partitions [OF ok] in \<open>auto simp: boundary_def\<close>)
  have chunk: "case nth_opt ?fp ?k of None \<Rightarrow> partition_point ?P (table_index t) = length (table_index t)
      | Some c \<Rightarrow> partition_point ?P (table_index t) = ?k * ?n + partition_point ?P c \<and>
          partition_point ?P c < length c"
    using partition_point_chunks [OF INDEX_PARTITION_pos part] unfolding fp [symmetric] .
  show ?thesis
  proof (cases "?k < length ?fp")
    case False
    then show ?thesis
      using chunk outer table_partitions(1) [OF ok] db table_ok_lengths [OF ok]
      by (simp add: first_block_matching_def nth_opt_def Let_def)
  next
    case True
    let ?c = "?fp ! ?k"
    have "?c \<in> set ?fp" using True by simp
    then obtain xs ys where fps: "?fp = xs @ ?c # ys" by (meson split_list)
    have "table_index t = concat xs @ ?c @ concat ys"
      unfolding table_index_def using arg_cong [OF fps, of concat] unfolding concat_append concat.simps .
    then have partc: "partitioned ?P ?c"
      using part partitioned_appendD by metis
    have pp: "partition_point ?P (table_index t) = ?k * ?n + partition_point ?P ?c"
      "partition_point ?P ?c < length ?c"
      using chunk True by (simp_all add: nth_opt_def)
    have inner: "partition_point_by (length ?c) policy (\<lambda>i. ?P (?c ! i)) = partition_point ?P ?c"
      by (rule partition_point_by_nth [OF partc])
    have kc: "?c = take ?n (drop (?k * ?n) (table_index t))"
      using nth_chunks(2) [OF INDEX_PARTITION_pos, of ?k "table_index t"] True unfolding fp [symmetric] .
    have lc: "length ?c \<le> length (table_index t) - ?k * ?n"
      unfolding kc by simp
    have lt: "partition_point ?P (table_index t) < length (table_index t)"
      using pp lc by linarith
    show ?thesis
      using True outer inner pp lt table_partitions [OF ok] load_index_partition_Ok [OF ok True] db
        table_ok_lengths [OF ok]
      by (simp add: first_block_matching_def nth_opt_def Let_def)
  qed
qed

lemma first_block_matching_key_eq:
  assumes "table_ok t"
  shows "first_block_matching_key t key policy =
    (let i = partition_point (\<lambda>e. user_key (largest_internal_key e) < key) (table_index t)
     in Inr (if i < data_block_count t then Some i else None))"
  unfolding first_block_matching_key_def by (rule first_block_matching_eq [OF assms]) simp

lemma first_block_matching_range_start_eq:
  assumes "table_ok t"
  shows "first_block_matching_range_start t rng policy =
    (let i = partition_point (\<lambda>e. key_is_before_start (user_key (largest_internal_key e)) (kr_start rng)) (table_index t)
     in Inr (if i < data_block_count t then Some i else None))"
  unfolding first_block_matching_range_start_def
  by (rule first_block_matching_eq [OF assms]) simp

section \<open>Point lookups are exact\<close>

definition records_from :: "table \<Rightarrow> usize \<Rightarrow> point_record list" where
  "records_from t i = concat (map db_records (drop i (file_blocks t)))"

lemma records_from_step:
  "table_ok t \<Longrightarrow> i < data_block_count t \<Longrightarrow>
   records_from t i = db_records (file_blocks t ! i) @ records_from t (Suc i)"
  by (simp add: records_from_def table_ok_lengths flip: Cons_nth_drop_Suc)

lemma records_from_end: "table_ok t \<Longrightarrow> data_block_count t \<le> i \<Longrightarrow> records_from t i = []"
  by (simp add: records_from_def table_ok_lengths)

lemma find_append:
  "find P (xs @ ys) = (case find P xs of None \<Rightarrow> find P ys | Some r \<Rightarrow> Some r)"
  by (induction xs) auto

lemma set_drop_nth: "x \<in> set (drop i xs) \<Longrightarrow> \<exists>j. i \<le> j \<and> j < length xs \<and> x = xs ! j"
  unfolding in_set_conv_nth by (metis add.commute le_add1 length_drop less_diff_conv nth_drop less_imp_le_nat not_less0 nat_le_linear diff_is_0_eq)

lemma records_from_later:
  assumes "table_ok t" "i < data_block_count t" "r \<in> set (records_from t i)"
  shows "user_key (smallest_internal_key (table_index t ! i)) \<le> user_key (fst r)"
proof -
  obtain j where j: "i \<le> j" "j < data_block_count t" "r \<in> set (db_records (file_blocks t ! j))"
    using assms(3) table_ok_lengths [OF assms(1)] by (auto simp: records_from_def dest!: set_drop_nth)
  have d: "describes (table_index t ! j) (file_blocks t ! j)"
    by (rule table_ok_describes [OF assms(1) j(2)])
  have "smallest_internal_key (table_index t ! i) \<le> smallest_internal_key (table_index t ! j)"
    using table_index_ordered [OF assms(1), of i j] table_index_entry_bounds [OF assms(1,2)] j
    by (cases "i = j") auto
  then show ?thesis
    using describes_user_keys(1) [OF d j(3)] user_key_mono order_trans by blast
qed

lemma table_records_before:
  assumes "table_ok t" "i \<le> data_block_count t"
    "\<And>j. j < i \<Longrightarrow> before (user_key (largest_internal_key (table_index t ! j)))"
    and mono: "down_closed before"
  shows "\<exists>xs. table_records t = xs @ records_from t i \<and> (\<forall>x\<in>set xs. before (user_key (fst x)))"
proof (intro exI conjI ballI)
  let ?xs = "concat (map db_records (take i (file_blocks t)))"
  show "table_records t = ?xs @ records_from t i"
    by (simp add: table_records_def records_from_def flip: concat_append map_append)
  fix x assume "x \<in> set ?xs"
  then obtain j where j: "j < i" "x \<in> set (db_records (file_blocks t ! j))"
    using assms(2) table_ok_lengths [OF assms(1)]
    by (fastforce simp: in_set_conv_nth [of _ "take i (file_blocks t)"])
  have d: "describes (table_index t ! j) (file_blocks t ! j)"
    using table_ok_describes [OF assms(1)] j(1) assms(2) by simp
  show "before (user_key (fst x))"
    using mono describes_user_keys(2) [OF d j(2)] assms(3) [OF j(1)] by (auto simp: down_closed_def)
qed

lemma point_skip_no_key:
  assumes "describes e b" "\<not> block_point_filter_allows e key" "r \<in> set (db_records b)"
  shows "user_key (fst r) \<noteq> key"
  using assms describes_user_keys [OF assms(1,3)]
  by (auto simp: block_point_filter_allows_def key_bounds_may_contain_def point_filter_result_def
      describes_def point_filter_misses_def split: option.splits if_splits)

lemma newest_visible_in_blocks_eq:
  assumes ok: "table_ok t"
  shows "newest_visible_in_blocks t key s [i..<data_block_count t] =
    Inr (find (\<lambda>r. user_key (fst r) = key \<and> ik_sequence (fst r) \<le> s) (records_from t i))"
proof (induction "data_block_count t - i" arbitrary: i)
  case 0
  then show ?case using records_from_end [OF ok] by simp
next
  case (Suc n)
  then have i: "i < data_block_count t" by simp
  let ?e = "table_index t ! i" and ?b = "file_blocks t ! i"
  let ?Q = "\<lambda>r. user_key (fst r) = key \<and> ik_sequence (fst r) \<le> s"
  have IH: "newest_visible_in_blocks t key s [Suc i..<data_block_count t] = Inr (find ?Q (records_from t (Suc i)))"
    using Suc by simp
  have d: "describes ?e ?b" by (rule table_ok_describes [OF ok i])
  have step: "find ?Q (records_from t i) =
      (case find ?Q (db_records ?b) of None \<Rightarrow> find ?Q (records_from t (Suc i)) | Some r \<Rightarrow> Some r)"
    by (simp add: records_from_step [OF ok i] find_append)
  note eval = upt_conv_Cons [OF i] with_data_block_metadata_Ok [OF ok i] load_data_block_Ok [OF ok i] IH
  show ?case
  proof (cases "point_block_decision ?e key")
    case PointDone
    then have "key < user_key (smallest_internal_key ?e)"
      by (simp add: point_block_decision_def split: if_splits)
    then have "find ?Q (records_from t i) = None"
      using records_from_later [OF ok i] by (fastforce simp: find_None_iff)
    then show ?thesis by (simp add: eval PointDone)
  next
    case PointSkip
    then have "find ?Q (db_records ?b) = None"
      using point_skip_no_key [OF d] by (fastforce simp: find_None_iff point_block_decision_def split: if_splits)
    then show ?thesis by (simp add: eval PointSkip step)
  next
    case PointRead
    have lookup: "data_block_newest_visible_point_value_record_for_key ?b key s =
        Inr (\<exists>r\<in>set (db_records ?b). user_key (fst r) = key, find ?Q (db_records ?b))"
      using d block_newest_visible by (simp add: describes_def)
    have "\<not> (\<exists>r\<in>set (db_records ?b). user_key (fst r) = key) \<Longrightarrow> find ?Q (db_records ?b) = None"
      by (auto simp: find_None_iff)
    then show ?thesis
      by (cases "find ?Q (db_records ?b)") (auto simp: eval PointRead lookup step)
  qed
qed

lemma table_index_search:
  assumes ok: "table_ok t" and mono: "down_closed before"
  defines "i \<equiv> partition_point (\<lambda>e. before (user_key (largest_internal_key e))) (table_index t)"
  shows "i \<le> data_block_count t"
    "\<exists>xs. table_records t = xs @ records_from t i \<and> (\<forall>x\<in>set xs. before (user_key (fst x)))"
proof -
  note pp = partition_point_partitioned [OF table_index_partitioned [where before = before, OF ok mono]]
  show le: "i \<le> data_block_count t"
    using table_ok_lengths [OF ok] unfolding i_def partition_point_def by (metis length_takeWhile_le)
  show "\<exists>xs. table_records t = xs @ records_from t i \<and> (\<forall>x\<in>set xs. before (user_key (fst x)))"
    by (rule table_records_before [OF ok le]) (use pp mono le table_ok_lengths [OF ok] in \<open>auto simp: i_def\<close>)
qed

lemma newest_visible_from_start:
  assumes ok: "table_ok t"
  shows "\<exists>i. first_block_matching_key t key policy = Inr (if i < data_block_count t then Some i else None) \<and>
    newest_visible_in_blocks t key s [i..<data_block_count t] =
      Inr (find (\<lambda>r. user_key (fst r) = key \<and> ik_sequence (fst r) \<le> s) (table_records t))"
proof -
  let ?i = "partition_point (\<lambda>e. user_key (largest_internal_key e) < key) (table_index t)"
  let ?Q = "\<lambda>r. user_key (fst r) = key \<and> ik_sequence (fst r) \<le> s"
  obtain xs where xs: "table_records t = xs @ records_from t ?i" "\<forall>x\<in>set xs. user_key (fst x) < key"
    using table_index_search(2) [where before = "\<lambda>k. k < key", OF ok down_closed_less] by blast
  have "find ?Q xs = None" using xs(2) by (auto simp: find_None_iff)
  then have "find ?Q (table_records t) = find ?Q (records_from t ?i)"
    by (simp add: xs(1) find_append)
  then show ?thesis
    using newest_visible_in_blocks_eq [OF ok, of key s ?i] first_block_matching_key_eq [OF ok]
    by (intro exI [of _ ?i]) (simp add: Let_def)
qed

lemma newest_visible_point_value_record_eq:
  assumes ok: "table_ok t"
  shows "newest_visible_point_value_record_for_key t key s policy =
    Inr (find (\<lambda>r. user_key (fst r) = key \<and> ik_sequence (fst r) \<le> s) (table_records t))"
proof -
  obtain i where "first_block_matching_key t key policy = Inr (if i < data_block_count t then Some i else None)"
    "newest_visible_in_blocks t key s [i..<data_block_count t] =
      Inr (find (\<lambda>r. user_key (fst r) = key \<and> ik_sequence (fst r) \<le> s) (table_records t))"
    using newest_visible_from_start [OF ok] by blast
  then show ?thesis
    by (cases "i < data_block_count t") (auto simp: newest_visible_point_value_record_for_key_def)
qed

lemma point_records_in_blocks_eq:
  assumes ok: "table_ok t"
  shows "point_records_in_blocks t key [i..<data_block_count t] =
    Inr (filter (\<lambda>r. user_key (fst r) = key) (records_from t i))"
proof (induction "data_block_count t - i" arbitrary: i)
  case 0
  then show ?case using records_from_end [OF ok] by simp
next
  case (Suc n)
  then have i: "i < data_block_count t" by simp
  let ?e = "table_index t ! i" and ?b = "file_blocks t ! i"
  let ?Q = "\<lambda>r. user_key (fst r) = key"
  have IH: "point_records_in_blocks t key [Suc i..<data_block_count t] = Inr (filter ?Q (records_from t (Suc i)))"
    using Suc by simp
  have d: "describes ?e ?b" by (rule table_ok_describes [OF ok i])
  note eval = upt_conv_Cons [OF i] with_data_block_metadata_Ok [OF ok i] load_data_block_Ok [OF ok i] IH
  show ?case
  proof (cases "point_block_decision ?e key")
    case PointDone
    then have "key < user_key (smallest_internal_key ?e)"
      by (simp add: point_block_decision_def split: if_splits)
    then have "filter ?Q (records_from t i) = []"
      using records_from_later [OF ok i] by (fastforce simp: filter_empty_conv)
    then show ?thesis by (simp add: eval PointDone)
  next
    case PointSkip
    then have "filter ?Q (db_records ?b) = []"
      using point_skip_no_key [OF d] by (fastforce simp: filter_empty_conv point_block_decision_def split: if_splits)
    then show ?thesis by (simp add: eval PointSkip records_from_step [OF ok i])
  next
    case PointRead
    have "data_block_point_records_for_key ?b key = Inr (filter ?Q (db_records ?b))"
      using d block_point_records by (simp add: describes_def)
    then show ?thesis
      by (simp add: eval PointRead records_from_step [OF ok i])
  qed
qed

lemma point_records_for_key_eq:
  assumes ok: "table_ok t"
  shows "point_records_for_key t key policy = Inr (filter (\<lambda>r. user_key (fst r) = key) (table_records t))"
proof -
  let ?i = "partition_point (\<lambda>e. user_key (largest_internal_key e) < key) (table_index t)"
  obtain xs where xs: "table_records t = xs @ records_from t ?i" "\<forall>x\<in>set xs. user_key (fst x) < key"
    using table_index_search(2) [where before = "\<lambda>k. k < key", OF ok down_closed_less] by blast
  have "filter (\<lambda>r. user_key (fst r) = key) xs = []"
    using xs(2) by (auto simp: filter_empty_conv)
  then show ?thesis
    using point_records_in_blocks_eq [OF ok, of key ?i] first_block_matching_key_eq [OF ok, of key policy]
      records_from_end [OF ok, of ?i]
    by (auto simp: point_records_for_key_def Let_def xs(1) not_less)
qed

section \<open>Batched lookups agree with single lookups\<close>

definition visible_in :: "point_record list \<Rightarrow> bytes \<Rightarrow> sequence \<Rightarrow> point_record option" where
  "visible_in rs key s = find (\<lambda>r. user_key (fst r) = key \<and> ik_sequence (fst r) \<le> s) rs"

text \<open>The state between two steps of the batch: a pending key has no result yet and its answer is among
  the blocks still to be visited, every other key has its answer.\<close>

definition pending_ok ::
  "table \<Rightarrow> bytes list \<Rightarrow> sequence \<Rightarrow> point_batch_scan list \<Rightarrow> point_record option list \<Rightarrow> bool" where
  "pending_ok t keys s P records \<longleftrightarrow>
     length records = length keys \<and> distinct (map fst P) \<and>
     (\<forall>x\<in>set P. fst x < length keys \<and> snd x < data_block_count t \<and> records ! fst x = None \<and>
        visible_in (records_from t (snd x)) (keys ! fst x) s = visible_in (table_records t) (keys ! fst x) s) \<and>
     (\<forall>k < length keys. k \<notin> fst ` set P \<longrightarrow> records ! k = visible_in (table_records t) (keys ! k) s)"

lemma pending_ok_perm:
  assumes "mset P = mset P'"
  shows "pending_ok t keys s P records \<longleftrightarrow> pending_ok t keys s P' records"
proof -
  have "mset (map fst P) = mset (map fst P')" using assms by simp
  then have "distinct (map fst P) \<longleftrightarrow> distinct (map fst P')" by (rule mset_eq_imp_distinct_iff)
  then show ?thesis using mset_eq_setD [OF assms] by (simp add: pending_ok_def)
qed

lemma pending_ok_none:
  assumes "pending_ok t keys s (x # P) records"
    "visible_in (records_from t (snd x)) (keys ! fst x) s = None"
  shows "pending_ok t keys s P records"
  using assms by (auto simp: pending_ok_def)

lemma pending_ok_hit:
  assumes ok: "table_ok t" and P: "pending_ok t keys s (x # P) records"
    and hit: "visible_in (db_records (file_blocks t ! snd x)) (keys ! fst x) s = Some r"
  shows "pending_ok t keys s P (records[fst x := Some r])"
proof -
  have x: "snd x < data_block_count t" "fst x < length keys"
    "visible_in (records_from t (snd x)) (keys ! fst x) s = visible_in (table_records t) (keys ! fst x) s"
    using P by (auto simp: pending_ok_def)
  have "visible_in (table_records t) (keys ! fst x) s = Some r"
    using x(3) hit by (simp add: visible_in_def records_from_step [OF ok x(1)] find_append)
  then show ?thesis
    using P by (auto simp: pending_ok_def nth_list_update)
qed

lemma pending_ok_advance:
  assumes ok: "table_ok t" and P: "pending_ok t keys s (x # ns @ P) records"
    and miss: "visible_in (db_records (file_blocks t ! snd x)) (keys ! fst x) s = None"
  shows "pending_ok t keys s (push_next t x ns @ P) records"
proof -
  have x: "snd x < data_block_count t" using P by (auto simp: pending_ok_def)
  have next_eq: "next_point_batch_block (snd x) (data_block_count t) =
      (if Suc (snd x) < data_block_count t then Some (Suc (snd x)) else None)"
    using x table_ok_lengths(3) [OF ok] by (simp add: next_point_batch_block_def checked_add_usize_def)
  have step: "visible_in (records_from t (snd x)) (keys ! fst x) s =
      visible_in (records_from t (Suc (snd x))) (keys ! fst x) s"
    using miss by (simp add: visible_in_def records_from_step [OF ok x] find_append)
  show ?thesis
  proof (cases "Suc (snd x) < data_block_count t")
    case True
    have "pending_ok t keys s ((fst x, Suc (snd x)) # ns @ P) records"
      using P True step by (auto simp: pending_ok_def)
    then show ?thesis
      using pending_ok_perm [of "(fst x, Suc (snd x)) # ns @ P" "push_next t x ns @ P"] True
      by (simp add: push_next_def next_eq)
  next
    case False
    then have "visible_in (records_from t (snd x)) (keys ! fst x) s = None"
      using step records_from_end [OF ok, of "Suc (snd x)"] by (simp add: visible_in_def)
    then show ?thesis
      using pending_ok_none [OF P] False by (simp add: push_next_def next_eq)
  qed
qed

lemma plan_group_pending:
  assumes ok: "table_ok t" and i: "i < data_block_count t"
  shows "plan_group t keys (table_index t ! i) scans ns = (ns', reads) \<Longrightarrow> \<forall>x\<in>set scans. snd x = i \<Longrightarrow>
    pending_ok t keys s (scans @ ns @ P) records \<Longrightarrow>
    pending_ok t keys s (reads @ ns' @ P) records \<and> (\<forall>x\<in>set reads. snd x = i)"
proof (induction scans arbitrary: ns reads P)
  case (Cons scan scans)
  let ?e = "table_index t ! i" and ?key = "keys ! fst scan"
  have scan: "snd scan = i" "\<forall>x\<in>set scans. snd x = i" using Cons(3) by auto
  have d: "describes ?e (file_blocks t ! i)" by (rule table_ok_describes [OF ok i])
  show ?case
  proof (cases "point_block_decision ?e ?key")
    case PointDone
    then have "?key < user_key (smallest_internal_key ?e)"
      by (simp add: point_block_decision_def split: if_splits)
    then have "visible_in (records_from t (snd scan)) ?key s = None"
      using records_from_later [OF ok i] scan(1) by (fastforce simp: visible_in_def find_None_iff)
    then show ?thesis
      using Cons(1) [of ns reads P] Cons(2,4) scan(2) PointDone pending_ok_none by fastforce
  next
    case PointSkip
    then have "visible_in (db_records (file_blocks t ! snd scan)) ?key s = None"
      using point_skip_no_key [OF d] scan(1)
      by (fastforce simp: visible_in_def find_None_iff point_block_decision_def split: if_splits)
    moreover have "pending_ok t keys s (scan # ns @ scans @ P) records"
      using Cons(4) pending_ok_perm [of "(scan # scans) @ ns @ P" "scan # ns @ scans @ P"] by simp
    ultimately have "pending_ok t keys s (push_next t scan ns @ scans @ P) records"
      by (rule pending_ok_advance [OF ok, rotated])
    then have "pending_ok t keys s (scans @ push_next t scan ns @ P) records"
      using pending_ok_perm [of "push_next t scan ns @ scans @ P" "scans @ push_next t scan ns @ P"] by simp
    then show ?thesis
      using Cons(1) [of "push_next t scan ns" reads P] Cons(2) scan(2) PointSkip by simp
  next
    case PointRead
    then obtain reads' where reads: "plan_group t keys ?e scans ns = (ns', reads')" "reads = scan # reads'"
      using Cons(2) by (auto split: prod.splits)
    have "pending_ok t keys s (scans @ ns @ scan # P) records"
      using Cons(4) pending_ok_perm [of "(scan # scans) @ ns @ P" "scans @ ns @ scan # P"] by simp
    then have "pending_ok t keys s (reads' @ ns' @ scan # P) records \<and> (\<forall>x\<in>set reads'. snd x = i)"
      using Cons(1) reads(1) scan(2) by blast
    then show ?thesis
      using pending_ok_perm [of "reads' @ ns' @ scan # P" "reads @ ns' @ P"] reads(2) scan(1) by simp
  qed
qed simp

lemma read_group_pending:
  assumes ok: "table_ok t" and i: "i < data_block_count t"
  shows "\<forall>x\<in>set reads. snd x = i \<Longrightarrow> pending_ok t keys s (reads @ ns @ P) records \<Longrightarrow>
    \<exists>st'. read_group t keys s (file_blocks t ! i) reads (records, ns) = Inr st' \<and>
      pending_ok t keys s (snd st' @ P) (fst st')"
proof (induction reads arbitrary: records ns)
  case (Cons x reads)
  let ?b = "file_blocks t ! i" and ?key = "keys ! fst x"
  have x: "snd x = i" "\<forall>x\<in>set reads. snd x = i" using Cons(2) by auto
  have "describes (table_index t ! i) ?b" by (rule table_ok_describes [OF ok i])
  then have lookup: "data_block_newest_visible_point_value_record_for_key ?b ?key s =
      Inr (\<exists>r\<in>set (db_records ?b). user_key (fst r) = ?key, visible_in (db_records ?b) ?key s)"
    using block_newest_visible by (simp add: describes_def visible_in_def)
  show ?case
  proof (cases "visible_in (db_records ?b) ?key s")
    case None
    have "pending_ok t keys s (x # ns @ reads @ P) records"
      using Cons(3) pending_ok_perm [of "(x # reads) @ ns @ P" "x # ns @ reads @ P"] by simp
    then have "pending_ok t keys s (push_next t x ns @ reads @ P) records"
      using pending_ok_advance [OF ok] None x(1) by blast
    then have "pending_ok t keys s (reads @ push_next t x ns @ P) records"
      using pending_ok_perm [of "push_next t x ns @ reads @ P" "reads @ push_next t x ns @ P"] by simp
    then show ?thesis
      using Cons(1) [OF x(2)] None by (simp add: lookup)
  next
    case (Some r)
    have "\<exists>r\<in>set (db_records ?b). user_key (fst r) = ?key"
      using Some by (auto simp: visible_in_def find_Some_iff)
    moreover have "pending_ok t keys s (reads @ ns @ P) (records[fst x := Some r])"
      using pending_ok_hit [OF ok, of keys s x] Cons(3) Some x(1) by simp
    ultimately show ?thesis
      using Cons(1) [OF x(2)] Some by (simp add: lookup)
  qed
qed simp

lemma batch_round_pending:
  assumes ok: "table_ok t"
  shows "pending_ok t keys s (scans @ snd st) (fst st) \<Longrightarrow>
    \<exists>st'. batch_round t keys s scans st = Inr st' \<and> pending_ok t keys s (snd st') (fst st')"
proof (induction "length scans" arbitrary: scans st rule: less_induct)
  case less
  show ?case
  proof (cases scans)
    case Nil
    then show ?thesis using less(2) by simp
  next
    case (Cons scan rest)
    define i group tail where defs: "i = snd scan" "group = scan # takeWhile (\<lambda>x. snd x = i) rest"
      "tail = dropWhile (\<lambda>x. snd x = i) rest"
    have split: "scans = group @ tail" by (simp add: Cons defs)
    have i: "i < data_block_count t" using less(2) Cons by (auto simp: pending_ok_def defs)
    have shorter: "length tail < length scans"
      by (simp add: Cons defs le_imp_less_Suc length_dropWhile_le)
    obtain ns reads where plan: "plan_group t keys (table_index t ! i) group (snd st) = (ns, reads)"
      by (metis surj_pair)
    have group: "\<forall>x\<in>set group. snd x = i"
      by (auto simp: defs dest: set_takeWhileD)
    have "pending_ok t keys s (group @ snd st @ tail) (fst st)"
      using less(2) pending_ok_perm [of "scans @ snd st" "group @ snd st @ tail"] by (simp add: split)
    from plan_group_pending [OF ok i plan group this]
    have P: "pending_ok t keys s (reads @ ns @ tail) (fst st)" "\<forall>x\<in>set reads. snd x = i" by auto
    obtain st1 where st1: "read_group t keys s (file_blocks t ! i) reads (fst st, ns) = Inr st1"
      "pending_ok t keys s (snd st1 @ tail) (fst st1)"
      using read_group_pending [OF ok i P(2,1)] by blast
    have "pending_ok t keys s (tail @ snd st1) (fst st1)"
      using st1(2) pending_ok_perm [of "snd st1 @ tail" "tail @ snd st1"] by simp
    with less(1) [OF shorter] obtain st2 where st2: "batch_round t keys s tail st1 = Inr st2"
      "pending_ok t keys s (snd st2) (fst st2)" by blast
    have same: "reads = [] \<Longrightarrow> st1 = (fst st, ns)" using st1(1) by simp
    have "batch_round t keys s scans st = Inr st2"
      using with_data_block_metadata_Ok [OF ok i] load_data_block_Ok [OF ok i] plan st1(1) st2(1) same
      by (cases "reads = []") (simp_all add: Cons Let_def flip: defs del: plan_group.simps)
    then show ?thesis using st2(2) by blast
  qed
qed

lemma batch_loop_pending:
  assumes ok: "table_ok t"
  shows "pending_ok t keys s scans records \<Longrightarrow>
    batch_loop t keys s scans records = Inr (map (\<lambda>key. visible_in (table_records t) key s) keys)"
  using ok
proof (induction t keys s scans records rule: batch_loop.induct)
  case (1 t keys s scans records)
  show ?case
  proof (cases "scans = []")
    case True
    then have "records = map (\<lambda>key. visible_in (table_records t) key s) keys"
      using 1(2) by (auto simp: pending_ok_def intro!: nth_equalityI)
    then show ?thesis using True by (simp add: batch_loop.simps)
  next
    case False
    have "pending_ok t keys s (sort_scans scans @ []) records"
      using 1(2) pending_ok_perm [of scans "sort_scans scans"] by (simp add: sort_scans_def)
    then obtain st where st: "batch_round t keys s (sort_scans scans) (records, []) = Inr st"
      "pending_ok t keys s (snd st) (fst st)"
      using batch_round_pending [OF 1(3), of keys s "sort_scans scans" "(records, [])"] by auto
    show ?thesis
      using 1(1) [OF False st(1), of "fst st" "snd st"] 1(3) st
      by (subst batch_loop.simps) (simp add: False prod.case_eq_if)
  qed
qed

definition starts_ok :: "table \<Rightarrow> sequence \<Rightarrow> usize \<Rightarrow> bytes list \<Rightarrow> point_batch_scan list \<Rightarrow> bool" where
  "starts_ok t s k keys scans \<longleftrightarrow> distinct (map fst scans) \<and>
     (\<forall>x\<in>set scans. k \<le> fst x \<and> fst x < k + length keys \<and> snd x < data_block_count t \<and>
        visible_in (records_from t (snd x)) (keys ! (fst x - k)) s =
        visible_in (table_records t) (keys ! (fst x - k)) s) \<and>
     (\<forall>j < length keys. k + j \<notin> fst ` set scans \<longrightarrow> visible_in (table_records t) (keys ! j) s = None)"

lemma starts_ok_shift:
  assumes "starts_ok t s (Suc k) keys scans"
  shows "distinct (map fst scans)" "k \<notin> fst ` set scans"
    "\<forall>x\<in>set scans. k \<le> fst x \<and> fst x < k + length (key # keys) \<and> snd x < data_block_count t \<and>
        visible_in (records_from t (snd x)) ((key # keys) ! (fst x - k)) s =
        visible_in (table_records t) ((key # keys) ! (fst x - k)) s"
    "\<forall>j < length keys. k + Suc j \<notin> fst ` set scans \<longrightarrow> visible_in (table_records t) ((key # keys) ! Suc j) s = None"
proof -
  show "distinct (map fst scans)" using assms by (simp add: starts_ok_def)
  show "k \<notin> fst ` set scans" using assms by (fastforce simp: starts_ok_def)
  show "\<forall>j < length keys. k + Suc j \<notin> fst ` set scans \<longrightarrow> visible_in (table_records t) ((key # keys) ! Suc j) s = None"
    using assms by (simp add: starts_ok_def)
  show "\<forall>x\<in>set scans. k \<le> fst x \<and> fst x < k + length (key # keys) \<and> snd x < data_block_count t \<and>
        visible_in (records_from t (snd x)) ((key # keys) ! (fst x - k)) s =
        visible_in (table_records t) ((key # keys) ! (fst x - k)) s"
  proof
    fix x assume "x \<in> set scans"
    then have x: "Suc k \<le> fst x" "fst x < Suc k + length keys" "snd x < data_block_count t"
      "visible_in (records_from t (snd x)) (keys ! (fst x - Suc k)) s =
       visible_in (table_records t) (keys ! (fst x - Suc k)) s"
      using assms by (auto simp: starts_ok_def)
    have "(key # keys) ! (fst x - k) = keys ! (fst x - Suc k)" using x(1) by (simp add: nth_Cons')
    then show "k \<le> fst x \<and> fst x < k + length (key # keys) \<and> snd x < data_block_count t \<and>
        visible_in (records_from t (snd x)) ((key # keys) ! (fst x - k)) s =
        visible_in (table_records t) ((key # keys) ! (fst x - k)) s"
      using x by simp
  qed
qed

lemma starts_ok_skip:
  assumes "starts_ok t s (Suc k) keys scans" "visible_in (table_records t) key s = None"
  shows "starts_ok t s k (key # keys) scans"
  unfolding starts_ok_def
proof (intro conjI)
  show "\<forall>j < length (key # keys). k + j \<notin> fst ` set scans \<longrightarrow> visible_in (table_records t) ((key # keys) ! j) s = None"
    using starts_ok_shift(4) [OF assms(1), of key] assms(2) by (simp add: All_less_Suc2)
qed (use starts_ok_shift(1) [OF assms(1)] starts_ok_shift(3) [OF assms(1), of key] in blast)+

lemma starts_ok_scan:
  assumes "starts_ok t s (Suc k) keys scans" "i < data_block_count t"
    "visible_in (records_from t i) key s = visible_in (table_records t) key s"
  shows "starts_ok t s k (key # keys) ((k, i) # scans)"
  unfolding starts_ok_def
proof (intro conjI)
  show "distinct (map fst ((k, i) # scans))"
    using starts_ok_shift(1,2) [OF assms(1)] by simp
  show "\<forall>j < length (key # keys). k + j \<notin> fst ` set ((k, i) # scans) \<longrightarrow>
      visible_in (table_records t) ((key # keys) ! j) s = None"
    using starts_ok_shift(4) [OF assms(1), of key] by (simp add: All_less_Suc2)
  show "\<forall>x\<in>set ((k, i) # scans). k \<le> fst x \<and> fst x < k + length (key # keys) \<and> snd x < data_block_count t \<and>
      visible_in (records_from t (snd x)) ((key # keys) ! (fst x - k)) s =
      visible_in (table_records t) ((key # keys) ! (fst x - k)) s"
    using starts_ok_shift(3) [OF assms(1), of key] assms(2,3) by simp
qed

lemma initial_scans_Ok:
  assumes ok: "table_ok t"
  shows "\<exists>scans. initial_scans t policy k keys = Inr scans \<and> starts_ok t s k keys scans"
proof (induction keys arbitrary: k)
  case Nil
  then show ?case by (simp add: starts_ok_def)
next
  case (Cons key keys)
  let ?n = "data_block_count t"
  obtain i where i: "first_block_matching_key t key policy = Inr (if i < ?n then Some i else None)"
    "newest_visible_in_blocks t key s [i..<?n] = Inr (visible_in (table_records t) key s)"
    using newest_visible_from_start [OF ok] unfolding visible_in_def by blast
  have vis: "visible_in (records_from t i) key s = visible_in (table_records t) key s"
    using i(2) newest_visible_in_blocks_eq [OF ok, of key s i] by (simp add: visible_in_def)
  obtain scans where IH: "initial_scans t policy (Suc k) keys = Inr scans" "starts_ok t s (Suc k) keys scans"
    using Cons(1) [of "Suc k"] by blast
  show ?case
  proof (cases "i < ?n")
    case True
    then show ?thesis using starts_ok_scan [OF IH(2) True vis] by (simp add: i(1) IH(1))
  next
    case False
    then have "visible_in (table_records t) key s = None"
      using vis records_from_end [OF ok, of i] by (simp add: visible_in_def)
    then show ?thesis using starts_ok_skip [OF IH(2)] False by (simp add: i(1) IH(1))
  qed
qed

lemma newest_visible_point_value_records_eq:
  assumes ok: "table_ok t"
  shows "newest_visible_point_value_records_for_keys t keys s policy =
    Inr (map (\<lambda>key. visible_in (table_records t) key s) keys)"
proof -
  obtain scans where scans: "initial_scans t policy 0 keys = Inr scans" "starts_ok t s 0 keys scans"
    using initial_scans_Ok [OF ok] by blast
  have "pending_ok t keys s scans (replicate (length keys) None)"
    using scans(2) by (simp add: pending_ok_def starts_ok_def)
  then show ?thesis
    using batch_loop_pending [OF ok] scans(1)
    by (simp add: newest_visible_point_value_records_for_keys_def)
qed

section \<open>Range reads\<close>

text \<open>What a range read may leave out: versions of the key at an included lower bound.\<close>

definition at_start :: "key_range \<Rightarrow> point_record \<Rightarrow> bool" where
  "at_start rng r \<longleftrightarrow> kr_start rng = Included (user_key (fst r))"

definition complete_above_start :: "key_range \<Rightarrow> point_record list \<Rightarrow> point_record list \<Rightarrow> bool" where
  "complete_above_start rng rs es \<longleftrightarrow>
     set es \<subseteq> {r \<in> set rs. key_is_in_range (user_key (fst r)) rng} \<and>
     filter (\<lambda>r. \<not> at_start rng r) es =
     filter (\<lambda>r. key_is_in_range (user_key (fst r)) rng \<and> \<not> at_start rng r) rs"

lemma complete_above_start_append:
  "complete_above_start rng rs es \<Longrightarrow> complete_above_start rng rs' es' \<Longrightarrow>
   complete_above_start rng (rs @ rs') (es @ es')"
  by (auto simp: complete_above_start_def)

lemma complete_above_start_outside:
  "\<forall>r\<in>set xs. \<not> key_is_in_range (user_key (fst r)) rng \<Longrightarrow> complete_above_start rng rs es \<Longrightarrow>
   complete_above_start rng (xs @ rs) es"
  by (auto simp: complete_above_start_def)

lemma complete_above_start_Nil:
  "\<forall>r\<in>set rs. \<not> key_is_in_range (user_key (fst r)) rng \<Longrightarrow> complete_above_start rng rs []"
  by (auto simp: complete_above_start_def)

lemma block_range_complete:
  assumes "block_ok b"
  shows "\<exists>es. data_block_point_records_in_range b rng policy = Inr es \<and>
    complete_above_start rng (db_records b) es"
proof -
  obtain ds es where es: "data_block_point_records_in_range b rng policy = Inr es"
    "filter (\<lambda>e. key_is_in_range (user_key (fst e)) rng) (db_records b) = ds @ es"
    "\<forall>e\<in>set ds. kr_start rng = Included (user_key (fst e))"
    using block_range_scan [OF assms] by blast
  have "filter (\<lambda>r. key_is_in_range (user_key (fst r)) rng \<and> \<not> at_start rng r) (db_records b) =
      filter (\<lambda>r. \<not> at_start rng r) (filter (\<lambda>e. key_is_in_range (user_key (fst e)) rng) (db_records b))"
    by (simp add: conj_commute)
  also have "\<dots> = filter (\<lambda>r. \<not> at_start rng r) es"
    unfolding es(2) using es(3) by (simp add: at_start_def filter_empty_conv)
  finally have eq: "filter (\<lambda>r. \<not> at_start rng r) es =
      filter (\<lambda>r. key_is_in_range (user_key (fst r)) rng \<and> \<not> at_start rng r) (db_records b)" ..
  have "set es \<subseteq> set (filter (\<lambda>e. key_is_in_range (user_key (fst e)) rng) (db_records b))"
    unfolding es(2) by simp
  then show ?thesis using es(1) eq by (auto simp: complete_above_start_def)
qed

lemma key_is_in_range_iff:
  "key_is_in_range k rng \<longleftrightarrow> \<not> key_is_before_start k (kr_start rng) \<and> \<not> key_is_after_end k (kr_end rng)"
  by (simp add: key_is_in_range_def)

lemma point_records_in_range_blocks_complete:
  assumes ok: "table_ok t"
  shows "\<exists>es. point_records_in_range_blocks t rng policy [i..<data_block_count t] = Inr es \<and>
    complete_above_start rng (records_from t i) es"
proof (induction "data_block_count t - i" arbitrary: i)
  case 0
  then show ?case using records_from_end [OF ok] by (simp add: complete_above_start_Nil)
next
  case (Suc n)
  then have i: "i < data_block_count t" by simp
  let ?e = "table_index t ! i" and ?b = "file_blocks t ! i"
  obtain rest where rest: "point_records_in_range_blocks t rng policy [Suc i..<data_block_count t] = Inr rest"
    "complete_above_start rng (records_from t (Suc i)) rest"
    using Suc by (metis diff_Suc_Suc Suc_diff_Suc i nat.inject)
  have d: "describes ?e ?b" by (rule table_ok_describes [OF ok i])
  note eval = upt_conv_Cons [OF i] with_data_block_metadata_Ok [OF ok i] load_data_block_Ok [OF ok i] rest(1)
  show ?case
  proof (cases "range_block_decision ?e rng")
    case RangeDone
    then have "key_is_after_end (user_key (smallest_internal_key ?e)) (kr_end rng)"
      by (simp add: range_block_decision_def split: if_splits)
    then have "\<forall>r\<in>set (records_from t i). \<not> key_is_in_range (user_key (fst r)) rng"
      using records_from_later [OF ok i] after_end_mono by (auto simp: key_is_in_range_iff)
    then show ?thesis
      using complete_above_start_Nil by (simp add: eval RangeDone)
  next
    case RangeSkip
    then have "key_is_before_start (user_key (largest_internal_key ?e)) (kr_start rng)"
      by (simp add: range_block_decision_def overlaps_range_def split: if_splits)
    then have "\<forall>r\<in>set (db_records ?b). \<not> key_is_in_range (user_key (fst r)) rng"
      using describes_user_keys(2) [OF d] before_start_mono unfolding key_is_in_range_iff by blast
    then show ?thesis
      using complete_above_start_outside rest(2) by (simp add: eval RangeSkip records_from_step [OF ok i])
  next
    case RangeRead
    obtain es where es: "data_block_point_records_in_range ?b rng policy = Inr es"
      "complete_above_start rng (db_records ?b) es"
      using block_range_complete d unfolding describes_def by blast
    then show ?thesis
      using complete_above_start_append rest(2) by (simp add: eval RangeRead records_from_step [OF ok i])
  qed
qed

lemma point_records_in_range_complete:
  assumes ok: "table_ok t"
  shows "\<exists>es. point_records_in_range t rng policy = Inr es \<and> complete_above_start rng (table_records t) es"
proof -
  let ?before = "\<lambda>k. key_is_before_start k (kr_start rng)"
  let ?i = "partition_point (\<lambda>e. ?before (user_key (largest_internal_key e))) (table_index t)"
  obtain xs where xs: "table_records t = xs @ records_from t ?i" "\<forall>x\<in>set xs. ?before (user_key (fst x))"
    using table_index_search(2) [where before = ?before, OF ok down_closed_before_start] by blast
  have out: "\<forall>x\<in>set xs. \<not> key_is_in_range (user_key (fst x)) rng"
    using xs(2) by (simp add: key_is_in_range_iff)
  obtain es where es: "point_records_in_range_blocks t rng policy [?i..<data_block_count t] = Inr es"
    "complete_above_start rng (records_from t ?i) es"
    using point_records_in_range_blocks_complete [OF ok] by blast
  have "point_records_in_range t rng policy = Inr es"
    using es(1) first_block_matching_range_start_eq [OF ok, of rng policy]
    by (auto simp: point_records_in_range_def Let_def)
  then show ?thesis
    using complete_above_start_outside [OF out es(2)] xs(1) by auto
qed

lemma all_point_records_eq:
  assumes ok: "table_ok t"
  shows "all_point_records t = Inr (table_records t)"
proof -
  have "map_result (load_data_block t) [0..<data_block_count t] = Inr (file_blocks t)"
    using load_data_block_Ok [OF ok] table_ok_lengths [OF ok]
    by (auto simp: map_result_Ok_iff list_all2_conv_all_nth)
  then show ?thesis
    using ok by (simp add: all_point_records_def table_ok_def table_records_def validate_sorted_point_records_Ok Let_def)
qed

end
