(* ===== verification/Table_Build.thy ===== *)
theory Table_Build
  imports Table_Read
begin

text \<open>
  The table writer against the table reader: the table that \<^verbatim>\<open>write_table_with_backend\<close> publishes is
  well-formed and holds exactly the records it was given, its key bounds enclose every record and every
  tombstone when all tombstones are finite, and the table-level filters admit every key. With one
  half-infinite tombstone the recorded bounds are the empty keys, which the reader takes for real
  bounds as soon as the table holds a data block.
\<close>

section \<open>Data blocks\<close>

lemma filter_bits_bound:
  assumes "n < 2 ^ 32"
  shows "n * unat (bits :: byte) + 7 < 2 ^ 64"
proof -
  have "n * unat bits \<le> 2 ^ 32 * 2 ^ 8"
    using unsigned_less [of bits, where ?'a = nat] assms by (intro mult_le_mono) simp_all
  then show ?thesis by (rule le_less_trans [OF add_right_mono]) simp
qed

lemma build_point_key_filter_hits:
  assumes "r \<in> set rs" "length rs < 2 ^ 32"
  shows "\<not> point_filter_misses (build_point_key_filter options rs level) (user_key (fst r))"
  using assms(1) filter_bits_bound [OF assms(2)]
  by (auto simp: point_filter_misses_def build_point_key_filter_def may_contain_key_def
      point_filter_from_keys_def intro!: bloom_from_items_contains split: filter_policy.splits)

lemma build_prefix_filter_hits:
  assumes "r \<in> set rs" "length rs < 2 ^ 32"
  shows "\<not> prefix_filter_misses (build_prefix_filter options rs level) (user_key (fst r))"
proof -
  let ?keys = "map (\<lambda>r. user_key (fst r)) rs"
  let ?ps = "List.map_filter (extract_prefix (wo_prefix_extractor options)) ?keys"
  have bound: "length ?ps * unat (bits :: byte) + 7 < 2 ^ 64" for bits
    by (rule filter_bits_bound) (use assms(2) in \<open>simp add: map_filter_def le_less_trans [OF length_filter_le]\<close>)
  have "prefix \<in> set ?ps" if "extract_prefix (wo_prefix_extractor options) (user_key (fst r)) = Some prefix" for prefix
    using that assms(1) by (force simp: map_filter_def image_iff)
  then show ?thesis
    using bloom_from_items_contains [OF _ bound]
    by (auto simp: prefix_filter_misses_def build_prefix_filter_def prefix_filter_from_keys_def
        may_contain_prefix_def Let_def split: prefix_filter_policy.splits if_splits option.splits)
qed

text \<open>Consecutive blocks from \<open>start\<close> to the end of the records.\<close>

fun block_chain ::
  "table_write_options \<Rightarrow> u32 \<Rightarrow> point_record list \<Rightarrow> usize \<Rightarrow> table_data_block list \<Rightarrow> bool" where
  "block_chain options level rs start [] = (start = length rs)"
| "block_chain options level rs start (b # bs) =
     (let stop = snd (record_range b); slice = take (stop - start) (drop start rs)
      in fst (record_range b) = start \<and> start < stop \<and> stop \<le> length rs \<and>
         smallest_internal_key b = fst (hd slice) \<and> largest_internal_key b = fst (last slice) \<and>
         tdb_point_key_filter b = build_point_key_filter options slice level \<and>
         tdb_prefix_filter b = build_prefix_filter options slice level \<and>
         block_chain options level rs stop bs)"

lemma extend_block_le: "extend_block block_bytes len est rs \<le> len + length rs"
  by (induction block_bytes len est rs rule: extend_block.induct) (auto simp: Let_def)

lemma hd_filter_upt: "a < b \<Longrightarrow> P a \<Longrightarrow> filter P [a..<b] \<noteq> [] \<and> hd (filter P [a..<b]) = a"
  by (simp add: upt_conv_Cons)

lemma build_data_blocks_from_chain:
  "start \<le> length rs \<Longrightarrow>
   \<exists>bs. build_data_blocks_from rs options level start = Inr bs \<and> block_chain options level rs start bs"
proof (induction "length rs - start" arbitrary: start rule: less_induct)
  case less
  show ?case
  proof (cases "start < length rs")
    case False
    then show ?thesis using less(2) by (simp add: build_data_blocks_from.simps)
  next
    case True
    define len where "len = extend_block (wo_block_bytes options) 0 0 (drop start rs)"
    have len: "0 < len" "start + len \<le> length rs"
      using extend_block_pos [of "drop start rs"] extend_block_le [of _ 0 0 "drop start rs"] True
      by (simp_all add: len_def) (metis add.commute le_diff_conv2 less_imp_le_nat)
    let ?slice = "take len (drop start rs)"
    let ?restarts = "filter (\<lambda>i. (i - start) mod DATA_BLOCK_RESTART_INTERVAL = 0) [start..<start + len]"
    have restarts: "?restarts \<noteq> []" "hd ?restarts = start"
      using hd_filter_upt [of start "start + len"] len(1) by simp_all
    have ne: "?slice \<noteq> []" using len True by auto
    obtain bs where bs: "build_data_blocks_from rs options level (start + len) = Inr bs"
      "block_chain options level rs (start + len) bs"
      using less(1) [of "start + len"] len True by (metis add_gr_0 diff_less_mono2 less_add_same_cancel1)
    have range_ok: "\<not> (\<exists>r\<in>set ?restarts. \<not> (start \<le> r \<and> r < start + len))" by simp
    have slice: "slice_get rs start (start + len) = Some ?slice"
      using len by (simp add: slice_get_def)
    let ?b = "\<lparr>smallest_internal_key = fst (hd ?slice), largest_internal_key = fst (last ?slice),
        record_range = (start, start + len),
        tdb_point_key_filter = build_point_key_filter options ?slice level,
        tdb_prefix_filter = build_prefix_filter options ?slice level\<rparr>"
    have b: "from_record_range rs (start, start + len) ?restarts
        (build_point_key_filter options ?slice level) (build_prefix_filter options ?slice level) = Inr ?b"
      unfolding from_record_range_def using restarts ne range_ok slice by simp
    have "build_data_blocks_from rs options level start = Inr (?b # bs)"
      using True b bs(1)
      by (subst build_data_blocks_from.simps) (simp add: Let_def flip: len_def)
    then show ?thesis
      using bs(2) len by (intro exI [of _ "?b # bs"]) simp
  qed
qed

lemma btree_ok_slice: "btree_ok rs \<Longrightarrow> btree_ok (take n (drop m rs))"
  by (simp add: btree_ok_def sorted_wrt_take sorted_wrt_drop flip: take_map drop_map)

lemma block_chain_encoded:
  assumes "btree_ok rs" "length rs < 2 ^ 32" "block_chain options level rs start bs"
  shows "\<exists>es. encode_data_blocks rs bs = Inr es \<and> concat (map db_records es) = drop start rs \<and>
    list_all2 describes (map (\<lambda>b. b\<lparr>record_range := (0, 0)\<rparr>) bs) es"
  using assms(3)
proof (induction bs arbitrary: start)
  case Nil
  then show ?case by (simp add: encode_data_blocks_def)
next
  case (Cons b bs)
  define stop slice where defs: "stop = snd (record_range b)" "slice = take (stop - start) (drop start rs)"
  have b: "record_range b = (start, stop)" "start < stop" "stop \<le> length rs"
    "smallest_internal_key b = fst (hd slice)" "largest_internal_key b = fst (last slice)"
    "tdb_point_key_filter b = build_point_key_filter options slice level"
    "tdb_prefix_filter b = build_prefix_filter options slice level"
    and chain: "block_chain options level rs stop bs"
    using Cons(2) by (simp_all add: Let_def defs prod_eq_iff)
  obtain es where es: "encode_data_blocks rs bs = Inr es" "concat (map db_records es) = drop stop rs"
    "list_all2 describes (map (\<lambda>b. b\<lparr>record_range := (0, 0)\<rparr>) bs) es"
    using Cons(1) [OF chain] by blast
  have slice: "slice_get rs start stop = Some slice" "btree_ok slice" "slice \<noteq> []" "length slice < 2 ^ 32"
    using b(2,3) assms(1,2) by (auto simp: slice_get_def defs(2) btree_ok_slice)
  obtain e where e: "decoded_from_records slice = Inr e" "db_records e = slice" "block_ok e"
    using decoded_from_records_ok [OF slice(2,4)] by blast
  have split: "drop start rs = slice @ drop stop rs"
    using b(2,3) append_take_drop_id [of "stop - start" "drop start rs"] by (simp add: defs(2))
  have "describes (b\<lparr>record_range := (0, 0)\<rparr>) e"
    unfolding describes_def using e slice(3,4) b(4-7) build_point_key_filter_hits build_prefix_filter_hits
    by simp
  then show ?case
    using es e slice(1) b(1) split by (intro exI [of _ "e # es"]) (simp add: encode_data_blocks_def)
qed

section \<open>The written table\<close>

lemma blocks_le_records:
  "list_all2 describes es bs \<Longrightarrow> length bs \<le> length (concat (map db_records bs))"
proof (induction rule: list_all2_induct)
  case (Cons e es b bs)
  then show ?case by (cases "db_records b") (simp_all add: describes_def)
qed simp

lemma describes_entry:
  assumes "describes e b"
  shows "from_index_entry e = Inr e"
proof -
  have "smallest_internal_key e \<le> largest_internal_key e"
    using assms btree_ok_bounds [of "db_records b" "hd (db_records b)"] by (simp add: describes_def block_ok_def)
  then show ?thesis
    using assms by (auto simp: from_index_entry_def describes_def leD)
qed

lemma describes_entries: "list_all2 describes es bs \<Longrightarrow> map_result from_index_entry es = Inr es"
  by (induction rule: list_all2_induct) (simp_all add: describes_entry)

lemma write_table_ok:
  assumes "rs \<noteq> [] \<or> ts \<noteq> []" and sep: "sep options table_id (sort_point_records_if_needed rs) = Inr prs"
    and prs: "btree_ok prs" "length prs < 2 ^ 32"
    and len: "\<And>t. payload t < 2 ^ 32"
  shows "\<exists>t. write_table_with_backend sep payload table_id level options rs ts = Inr t \<and>
    table_ok t \<and> table_records t = prs \<and>
    properties t = table_properties_of table_id level (wo_codec options) prs ts \<and>
    tbl_range_tombstones t = rti_new rt_range ts \<and> may_have_range_tombstones t = (ts \<noteq> []) \<and>
    tbl_point_key_filter t =
      (if should_pin_read_metadata level then build_point_key_filter options prs level else None) \<and>
    tbl_prefix_filter t =
      (if should_pin_read_metadata level then build_prefix_filter options prs level else None)"
proof -
  obtain blocks where blocks: "build_data_blocks prs options level = Inr blocks"
    "block_chain options level prs 0 blocks"
    using build_data_blocks_from_chain [of 0 prs] by (auto simp: build_data_blocks_def)
  let ?entries = "map (\<lambda>b. b\<lparr>record_range := (0, 0)\<rparr>) blocks"
  obtain es where es: "encode_data_blocks prs blocks = Inr es" "concat (map db_records es) = prs"
    "list_all2 describes ?entries es"
    using block_chain_encoded [OF prs blocks(2)] by auto
  have n: "length es \<le> usize_max" "length blocks = length es"
    using blocks_le_records [OF es(3)] es(2) prs(2) list_all2_lengthD [OF es(3)] by (simp_all add: usize_max_def)
  note wt = write_table_with_backend_def [of sep payload table_id level options rs ts]
  have ok: "table_ok t"
    if "point_records t = None" "data_blocks t = None" "data_block_count t = length blocks"
      "index_partitions t = index_partitions_of 0 (chunks INDEX_PARTITION_TARGET_ENTRIES ?entries)"
      "file_partitions t = chunks INDEX_PARTITION_TARGET_ENTRIES ?entries" "file_blocks t = es" for t
    using that n es prs(1) by (simp add: table_ok_def table_index_def table_records_def)
  show ?thesis
    using assms(1) sep blocks(1) es(1,2) describes_entries [OF es(3)] len
    unfolding wt by (auto simp: encode_table_for_write_def Let_def table_records_def intro!: ok)
qed

lemma sort_point_records_if_needed_ok:
  assumes "distinct (map fst rs)"
  shows "btree_ok (sort_point_records_if_needed rs)" "mset (sort_point_records_if_needed rs) = mset rs"
proof -
  let ?c = "\<lambda>a b :: point_record. cmp (fst a) (fst b)"
  show m: "mset (sort_point_records_if_needed rs) = mset rs"
    by (simp add: sort_point_records_if_needed_def)
  have "distinct (map fst (sort_point_records_if_needed rs))"
    using assms m by (metis mset_eq_imp_distinct_iff mset_map)
  moreover have "total_preorder ?c"
    using total_preorder_cmp [of fst] by (simp add: comp_def)
  then have "sorted_by ?c (sort_by ?c rs)" by (rule sorted_by_sort_by)
  then have "sorted (map fst (sort_by ?c rs))"
    by (simp add: sorted_by_def sorted_wrt_map order_simps not_less)
  then have "sorted (map fst (sort_point_records_if_needed rs))"
    by (simp add: sort_point_records_if_needed_def)
  ultimately show "btree_ok (sort_point_records_if_needed rs)"
    by (simp add: btree_ok_def strict_sorted_iff)
qed

section \<open>Key bounds and pruning\<close>

definition finite_tombstone :: "range_tombstone \<Rightarrow> bool" where
  "finite_tombstone t \<longleftrightarrow>
     finite_bound_bytes (kr_start (rt_range t)) \<noteq> None \<and> finite_bound_bytes (kr_end (rt_range t)) \<noteq> None"

text \<open>The pair of running bounds encloses a span of keys.\<close>

definition encloses :: "bytes option \<Rightarrow> bytes option \<Rightarrow> bytes \<Rightarrow> bytes \<Rightarrow> bool" where
  "encloses smallest largest a b \<longleftrightarrow>
     (\<exists>s l. smallest = Some s \<and> largest = Some l \<and> s \<le> a \<and> b \<le> l)"

lemma encloses_update:
  "encloses smallest largest a b \<Longrightarrow> encloses (update_smallest smallest s) (update_largest largest e) a b"
  by (auto simp: encloses_def update_smallest_def update_largest_def)

lemma encloses_updated:
  "(smallest = None \<longleftrightarrow> largest = None) \<Longrightarrow>
   encloses (update_smallest smallest s) (update_largest largest e) s e"
  by (auto simp: encloses_def update_smallest_def update_largest_def split: option.splits)

lemma update_None_iff:
  "(update_smallest smallest s = None \<longleftrightarrow> update_largest largest e = None)"
  by (auto simp: update_smallest_def update_largest_def split: option.splits)

lemma key_bounds_loop_Some:
  "\<forall>t\<in>set ts. finite_tombstone t \<Longrightarrow> (smallest = None \<longleftrightarrow> largest = None) \<Longrightarrow>
   \<exists>s l. key_bounds_loop ts smallest largest = Some (s, l) \<and>
     (\<forall>a b. encloses smallest largest a b \<longrightarrow> encloses s l a b) \<and>
     (\<forall>t\<in>set ts. \<forall>a b. finite_bound_bytes (kr_start (rt_range t)) = Some a \<longrightarrow>
        finite_bound_bytes (kr_end (rt_range t)) = Some b \<longrightarrow> encloses s l a b)"
proof (induction ts arbitrary: smallest largest)
  case (Cons t ts)
  obtain a b where ab: "finite_bound_bytes (kr_start (rt_range t)) = Some a"
    "finite_bound_bytes (kr_end (rt_range t)) = Some b"
    using Cons(2) by (auto simp: finite_tombstone_def)
  have fin: "\<forall>t\<in>set ts. finite_tombstone t" using Cons(2) by simp
  let ?s = "update_smallest smallest a" and ?l = "update_largest largest b"
  obtain s l where IH: "key_bounds_loop ts ?s ?l = Some (s, l)"
    "\<forall>x y. encloses ?s ?l x y \<longrightarrow> encloses s l x y"
    "\<forall>t\<in>set ts. \<forall>x y. finite_bound_bytes (kr_start (rt_range t)) = Some x \<longrightarrow>
        finite_bound_bytes (kr_end (rt_range t)) = Some y \<longrightarrow> encloses s l x y"
    using Cons(1) [OF fin update_None_iff] by blast
  have here: "encloses s l a b"
    using IH(2) encloses_updated [OF Cons(3)] by blast
  have "\<forall>x y. encloses smallest largest x y \<longrightarrow> encloses s l x y"
    using IH(2) encloses_update by blast
  then show ?case
    using IH(1,3) here ab by (intro exI [of _ s] exI [of _ l]) simp
qed simp

lemma covered_key_in_span:
  assumes "key_is_in_range key r" "finite_bound_bytes (kr_start r) = Some a" "finite_bound_bytes (kr_end r) = Some b"
  shows "a \<le> key" "key \<le> b"
  using assms by (cases "kr_start r"; cases "kr_end r"; auto simp: key_is_in_range_def)+

lemma table_key_bounds_enclose:
  assumes "btree_ok rs" "\<forall>t\<in>set ts. finite_tombstone t" "table_key_bounds rs ts = (s, l)"
  shows "r \<in> set rs \<Longrightarrow> s \<le> user_key (fst r) \<and> user_key (fst r) \<le> l"
    and "t \<in> set ts \<Longrightarrow> key_is_in_range key (rt_range t) \<Longrightarrow> s \<le> key \<and> key \<le> l"
proof -
  let ?sm = "if rs = [] then None else Some (user_key (fst (hd rs)))"
  let ?lg = "if rs = [] then None else Some (user_key (fst (last rs)))"
  have none: "?sm = None \<longleftrightarrow> ?lg = None" by simp
  obtain s' l' where loop: "key_bounds_loop ts ?sm ?lg = Some (s', l')"
    "\<forall>a b. encloses ?sm ?lg a b \<longrightarrow> encloses s' l' a b"
    "\<forall>t\<in>set ts. \<forall>a b. finite_bound_bytes (kr_start (rt_range t)) = Some a \<longrightarrow>
        finite_bound_bytes (kr_end (rt_range t)) = Some b \<longrightarrow> encloses s' l' a b"
    using key_bounds_loop_Some [OF assms(2), of ?sm ?lg] none by blast
  have out: "s \<le> a \<and> b \<le> l" if "encloses s' l' a b" for a b
    using that assms(3) loop(1) by (auto simp: table_key_bounds_def encloses_def Let_def)
  show "s \<le> user_key (fst r) \<and> user_key (fst r) \<le> l" if r: "r \<in> set rs"
  proof -
    have "encloses ?sm ?lg (user_key (fst r)) (user_key (fst r))"
      using r btree_ok_bounds [OF assms(1) r] by (auto simp: encloses_def intro: user_key_mono)
    then show ?thesis using loop(2) out by blast
  qed
  show "s \<le> key \<and> key \<le> l" if t: "t \<in> set ts" "key_is_in_range key (rt_range t)"
  proof -
    obtain a b where ab: "finite_bound_bytes (kr_start (rt_range t)) = Some a"
      "finite_bound_bytes (kr_end (rt_range t)) = Some b"
      using assms(2) t(1) by (auto simp: finite_tombstone_def)
    have "s \<le> a \<and> b \<le> l"
      using loop(3) t(1) ab out by blast
    then show ?thesis
      using covered_key_in_span [OF t(2) ab] order_trans by blast
  qed
qed

lemma fold_min_max_sequence:
  "fold min_max_sequence xs (Some (lo, hi)) = Some (lo', hi') \<Longrightarrow>
   lo' \<le> lo \<and> hi \<le> hi' \<and> (\<forall>x\<in>set xs. lo' \<le> x \<and> x \<le> hi')"
proof (induction xs arbitrary: lo hi)
  case (Cons x xs)
  then show ?case
    using Cons(1) [of "min lo x" "max hi x"] by (auto simp: min_max_sequence_def)
qed simp

lemma fold_min_max_Some: "\<exists>b. fold min_max_sequence xs (Some a) = Some b"
  by (induction xs arbitrary: a) (auto simp: min_max_sequence_def split: prod.splits)

lemma table_properties_sequences:
  assumes "x \<in> set (map (\<lambda>r. ik_sequence (fst r)) rs @ map rt_sequence ts)"
  shows "smallest_sequence (table_properties_of i lv c rs ts) \<le> x"
    "x \<le> largest_sequence (table_properties_of i lv c rs ts)"
proof -
  obtain y ys where ys: "map (\<lambda>r. ik_sequence (fst r)) rs @ map rt_sequence ts = y # ys"
    using assms by (metis list.set_cases)
  obtain lo hi where b: "fold min_max_sequence ys (Some (y, y)) = Some (lo, hi)"
    using fold_min_max_Some [of ys "(y, y)"] by auto
  have "fold min_max_sequence (y # ys) None = Some (lo, hi)"
    using b by (simp add: min_max_sequence_def)
  then show "smallest_sequence (table_properties_of i lv c rs ts) \<le> x"
    "x \<le> largest_sequence (table_properties_of i lv c rs ts)"
    using assms fold_min_max_sequence [OF b] unfolding ys
    by (auto simp: table_properties_of_def Let_def ys)
qed

section \<open>Well-formed tables as sources of records and tombstones\<close>

definition table_wf :: "table \<Rightarrow> bool" where
  "table_wf t \<longleftrightarrow>
     table_ok t \<and> tombstones_sorted rt_range (tbl_range_tombstones t) \<and>
     (tbl_range_tombstones t \<noteq> [] \<longrightarrow> may_have_range_tombstones t) \<and>
     (\<forall>r\<in>set (table_records t). table_may_contain_key t (user_key (fst r)) \<and>
        \<not> prefix_filter_misses (tbl_prefix_filter t) (user_key (fst r)) \<and>
        smallest_sequence (properties t) \<le> ik_sequence (fst r) \<and>
        ik_sequence (fst r) \<le> largest_sequence (properties t)) \<and>
     (\<forall>ts\<in>set (tbl_range_tombstones t).
        (\<forall>key. key_is_in_range key (rt_range ts) \<longrightarrow> key_bounds_may_contain_key t key) \<and>
        smallest_sequence (properties t) \<le> rt_sequence ts \<and> rt_sequence ts \<le> largest_sequence (properties t))"

lemma table_lookup_newest:
  assumes "table_ok t"
  shows "\<exists>c. newest_visible_point_value_record_for_key t key s policy = Inr c \<and>
    newest_of c (visible_records key s (set (table_records t)))"
proof -
  have "sorted (map fst (table_records t))"
    using assms by (simp add: table_ok_def btree_ok_def strict_sorted_iff)
  from find_newest [OF this, of "\<lambda>r. user_key (fst r) = key \<and> ik_sequence (fst r) \<le> s"]
  have "newest_of (find (\<lambda>r. user_key (fst r) = key \<and> ik_sequence (fst r) \<le> s) (table_records t))
      (visible_records key s (set (table_records t)))"
    by (simp add: visible_records_def can_see_def)
  then show ?thesis
    using newest_visible_point_value_record_eq [OF assms] by blast
qed

interpretation tbl: point_source table_ok "\<lambda>t. set (table_records t)"
  "\<lambda>t key s. newest_visible_point_value_record_for_key t key s policy"
  for policy
  by unfold_locales (rule table_lookup_newest)

lemma table_covers_iff:
  assumes "tombstones_sorted rt_range (tbl_range_tombstones t)"
    "tbl_range_tombstones t \<noteq> [] \<longrightarrow> may_have_range_tombstones t"
  shows "table_range_tombstone_covers_visible_point t key ps pb s \<longleftrightarrow>
    (\<exists>ts\<in>set (tbl_range_tombstones t). covers_visible_point ts key ps pb s)"
  using assms
  by (auto simp: table_range_tombstone_covers_visible_point_def covering_key_filter list_ex_iff
      covers_visible_point_iff)

lemma tombstones_sorted_rti_new: "tombstones_sorted range_of (rti_new range_of ts)"
  by (simp add: rti_new_def)

lemma write_table_wf:
  assumes "rs \<noteq> [] \<or> ts \<noteq> []" and sep: "sep options table_id (sort_point_records_if_needed rs) = Inr prs"
    and prs: "btree_ok prs" "length prs < 2 ^ 32" and len: "\<And>t. payload t < 2 ^ 32"
    and fin: "\<forall>t\<in>set ts. finite_tombstone t" and ne: "prs = [] \<longrightarrow> ts \<noteq> []"
  shows "\<exists>t. write_table_with_backend sep payload table_id level options rs ts = Inr t \<and>
    table_wf t \<and> table_records t = prs \<and> set (tbl_range_tombstones t) = set ts \<and>
    properties t = table_properties_of table_id level (wo_codec options) prs ts"
proof -
  obtain t where t: "write_table_with_backend sep payload table_id level options rs ts = Inr t"
    "table_ok t" "table_records t = prs"
    "properties t = table_properties_of table_id level (wo_codec options) prs ts"
    "tbl_range_tombstones t = rti_new rt_range ts" "may_have_range_tombstones t = (ts \<noteq> [])"
    "tbl_point_key_filter t =
      (if should_pin_read_metadata level then build_point_key_filter options prs level else None)"
    "tbl_prefix_filter t =
      (if should_pin_read_metadata level then build_prefix_filter options prs level else None)"
    using write_table_ok [where sep = sep and payload = payload, OF assms(1) sep prs len] by blast
  have set_ts: "set (tbl_range_tombstones t) = set ts"
    by (simp add: t(5) rti_new_def sort_tombstones_def)
  obtain s l where sl: "table_key_bounds prs ts = (s, l)" by fastforce
  have props: "smallest_user_key (properties t) = s" "largest_user_key (properties t) = l"
    by (simp_all add: t(4) table_properties_of_def Let_def sl)
  note enclose = table_key_bounds_enclose [OF prs(1) fin sl]
  have blocks: "prs \<noteq> [] \<Longrightarrow> data_block_count t \<noteq> 0"
    using t(2,3) by (auto simp: table_ok_def table_records_def)
  have point: "table_may_contain_key t (user_key (fst r))" if r: "r \<in> set prs" for r
  proof -
    have "prs \<noteq> []" using r by auto
    then have "has_key_bounds t" using blocks by (simp add: has_key_bounds_def)
    then have "key_bounds_may_contain_key t (user_key (fst r))"
      using enclose(1) [OF r] by (simp add: key_bounds_may_contain_key_def props)
    then show ?thesis
      using build_point_key_filter_hits [OF r prs(2), of options level] t(7)
      by (simp add: table_may_contain_key_def point_filter_misses_def split: option.splits if_splits)
  qed
  have prefix: "\<not> prefix_filter_misses (tbl_prefix_filter t) (user_key (fst r))" if r: "r \<in> set prs" for r
    using build_prefix_filter_hits [OF r prs(2), of options level] t(8) by (simp add: prefix_filter_misses_def)
  have range_ok: "key_bounds_may_contain_key t key" if "x \<in> set ts" "key_is_in_range key (rt_range x)" for x key
    using enclose(2) [OF that] that(1) t(6) by (auto simp: key_bounds_may_contain_key_def props)
  have seqs: "smallest_sequence (properties t) \<le> x \<and> x \<le> largest_sequence (properties t)"
    if "x \<in> set (map (\<lambda>r. ik_sequence (fst r)) prs @ map rt_sequence ts)" for x
    using table_properties_sequences [OF that] by (simp add: t(4))
  have some: "tbl_range_tombstones t \<noteq> [] \<longrightarrow> may_have_range_tombstones t"
    using set_ts t(6) by auto
  have "table_wf t"
    unfolding table_wf_def t(3) set_ts
    using t(2) some point prefix range_ok seqs tombstones_sorted_rti_new [of rt_range ts, folded t(5)] by simp
  then show ?thesis using t(1,3,4) set_ts by blast
qed

section \<open>Properties\<close>

text \<open>C6: A table that the writer publishes answers every point lookup with the newest visible version
  of the key among the records it was given, whatever the block size, the filter options, the level and
  the search policy: splitting into blocks and index partitions, the hash index and the filters lose
  nothing. The records may be given in any order; separating large values into a blob file may change
  how a value is held but not which internal keys there are.\<close>
theorem write_table_lookup_newest:
  assumes "rs \<noteq> []" "distinct (map fst rs)" "length rs < 2 ^ 32"
    and separate: "\<And>xs. \<exists>ys. separate_values options table_id xs = Ok ys \<and> map fst ys = map fst xs"
    and payload: "\<And>t. encoded_payload_len t < 2 ^ 32"
  shows "\<exists>t prs. write_table_with_backend separate_values encoded_payload_len table_id level options rs ts = Ok t \<and>
    separate_values options table_id (sort_point_records_if_needed rs) = Ok prs \<and>
    all_point_records t = Ok prs \<and>
    (\<forall>key s policy. \<exists>c. newest_visible_point_value_record_for_key t key s policy = Ok c \<and>
       newest_of c (visible_records key s (set prs)))"
proof -
  let ?sorted = "sort_point_records_if_needed rs"
  obtain prs where prs: "separate_values options table_id ?sorted = Inr prs" "map fst prs = map fst ?sorted"
    using separate by blast
  have ok: "btree_ok prs"
    using sort_point_records_if_needed_ok(1) [OF assms(2)] by (simp add: btree_ok_def prs(2))
  have "length prs = length rs"
    using sort_point_records_if_needed_ok(2) [OF assms(2)] prs(2) by (metis length_map size_mset)
  then have len: "length prs < 2 ^ 32" using assms(3) by simp
  obtain t where "write_table_with_backend separate_values encoded_payload_len table_id level options rs ts = Inr t"
    "table_ok t" "table_records t = prs"
    using write_table_ok [where sep = separate_values and payload = encoded_payload_len, OF _ prs(1) ok len payload]
      assms(1) by blast
  then show ?thesis
    using prs(1) table_lookup_newest [of t] all_point_records_eq [of t] by auto
qed

definition plain_options :: table_write_options where
  "plain_options = \<lparr>wo_codec = CodecNone, wo_block_bytes = 64, wo_filter_policy = FilterDisabled,
     wo_prefix_extractor = Disabled, wo_prefix_filter_policy = PrefixFilterDisabled,
     wo_filter_depth_curve = CurveAuto, wo_blob_threshold_bytes = 1024, wo_rewrite_blob_indexes = False\<rparr>"

definition sample_records :: "point_record list" where
  "sample_records = [(InternalKey [1] 3 Put 0, Some (Inline [9])), (InternalKey [2] 5 Put 0, Some (Inline [7]))]"

theorem write_table_lookup_newest_witness:
  "\<exists>t. write_table_with_backend (\<lambda>_ _ xs. Ok xs) (\<lambda>_. 100) 1 0 plain_options (rev sample_records) [] = Ok t \<and>
    (\<exists>c. newest_visible_point_value_record_for_key t [2] 6 Auto = Ok c \<and>
      newest_of c {(InternalKey [2] 5 Put 0, Some (Inline [7]))})"
proof -
  let ?rs = "rev sample_records"
  have d: "distinct (map fst ?rs)" "?rs \<noteq> []" "length ?rs < 2 ^ 32"
    by (simp_all add: sample_records_def)
  obtain t where t: "write_table_with_backend (\<lambda>_ _ xs. Inr xs) (\<lambda>_. 100) 1 0 plain_options ?rs [] = Inr t"
    "\<forall>key s policy. \<exists>c. newest_visible_point_value_record_for_key t key s policy = Inr c \<and>
       newest_of c (visible_records key s (set (sort_point_records_if_needed ?rs)))"
    using write_table_lookup_newest [of ?rs "\<lambda>_ _ xs. Inr xs" plain_options 1 "\<lambda>_. 100" 0 "[]"] d by auto
  have set_eq: "set (sort_point_records_if_needed ?rs) = set sample_records"
    using mset_eq_setD [OF sort_point_records_if_needed_ok(2) [OF d(1)]] by simp
  have "visible_records [2] 6 (set sample_records) = {(InternalKey [2] 5 Put 0, Some (Inline [7]))}"
    by (auto simp: visible_records_def can_see_def sample_records_def)
  then show ?thesis using t(1) t(2) [unfolded set_eq] by metis
qed

text \<open>C18: The batched lookup, which visits the blocks of a table in rounds and reads each block once per
  round for all keys that need it, always ends and returns for every key exactly what the single lookup
  returns for it.\<close>
theorem batch_lookup_agrees:
  assumes "table_ok t"
  shows "newest_visible_point_value_records_for_keys t keys s policy =
    map_result (\<lambda>key. newest_visible_point_value_record_for_key t key s policy) keys"
  using newest_visible_point_value_records_eq [OF assms] newest_visible_point_value_record_eq [OF assms]
  by (simp add: visible_in_def)

lemma sample_table:
  "\<exists>t. write_table_with_backend (\<lambda>_ _ xs. Inr xs) (\<lambda>_. 100) 1 0 plain_options sample_records [] = Inr t \<and>
     table_wf t \<and> table_records t = sample_records"
proof -
  have ok: "btree_ok sample_records"
    by (simp add: sample_records_def btree_ok_def less_internal_key_def internal_key_cmp_def order_simps)
  have "sort_point_records_if_needed sample_records = sample_records"
    using ok by (simp add: sort_point_records_if_needed_def btree_ok_def strict_sorted_iff)
  then show ?thesis
    using write_table_wf [of sample_records "[]" "\<lambda>_ _ xs. Inr xs" plain_options 1 sample_records "\<lambda>_. 100" 0] ok
    by (auto simp: sample_records_def)
qed

theorem batch_lookup_agrees_witness:
  "\<exists>t. write_table_with_backend (\<lambda>_ _ xs. Ok xs) (\<lambda>_. 100) 1 0 plain_options sample_records [] = Ok t \<and>
     newest_visible_point_value_records_for_keys t [[1], [2], [3]] 4 Binary =
     map_result (\<lambda>key. newest_visible_point_value_record_for_key t key 4 Binary) [[1], [2], [3]]"
  using sample_table batch_lookup_agrees [of _ "[[1], [2], [3]]" 4 Binary] unfolding table_wf_def by blast

text \<open>C34: Reading a range of a table returns records of the range only, in order, and every record of the
  range except, possibly, versions of the key at an included lower bound: the search for the restart
  point of the lower bound may start behind older restart points of the same key.\<close>
theorem range_read_complete_above_start:
  assumes "table_ok t"
  shows "\<exists>es. point_records_in_range t rng policy = Ok es \<and>
    set es \<subseteq> {r \<in> set (table_records t). key_is_in_range (user_key (fst r)) rng} \<and>
    filter (\<lambda>r. kr_start rng \<noteq> Included (user_key (fst r))) es =
    filter (\<lambda>r. key_is_in_range (user_key (fst r)) rng \<and> kr_start rng \<noteq> Included (user_key (fst r)))
      (table_records t)"
  using point_records_in_range_complete [OF assms] unfolding complete_above_start_def at_start_def by blast

theorem range_read_complete_above_start_witness:
  "\<exists>t. write_table_with_backend (\<lambda>_ _ xs. Ok xs) (\<lambda>_. 100) 1 0 plain_options sample_records [] = Ok t \<and>
     (\<exists>es. point_records_in_range t \<lparr>kr_start = Excluded [1], kr_end = Unbounded\<rparr> Auto = Ok es \<and>
        filter (\<lambda>r. Excluded [1] \<noteq> Included (user_key (fst r))) es =
        [(InternalKey [2] 5 Put 0, Some (Inline [7]))])"
proof -
  obtain t where t: "write_table_with_backend (\<lambda>_ _ xs. Inr xs) (\<lambda>_. 100) 1 0 plain_options sample_records [] = Inr t"
    "table_ok t" "table_records t = sample_records"
    using sample_table by (auto simp: table_wf_def)
  show ?thesis
    using range_read_complete_above_start [OF t(2), of "\<lparr>kr_start = Excluded [1], kr_end = Unbounded\<rparr>" Auto] t(1)
    by (auto simp: t(3) sample_records_def key_is_in_range_def)
qed

text \<open>C15: Pruning by key bounds and filter never hides a record or a tombstone of a written table when
  every tombstone of the table has two finite bounds: the table is probed for each of its keys, and its
  tombstones are consulted for each key that one of them covers.\<close>
theorem pruning_sound_for_finite_tombstones:
  assumes "rs \<noteq> [] \<or> ts \<noteq> []" "distinct (map fst rs)" "length rs < 2 ^ 32"
    and "\<forall>x\<in>set ts. finite_tombstone x" and "\<And>t. encoded_payload_len t < 2 ^ 32"
  shows "\<exists>t. write_table_with_backend (\<lambda>_ _ xs. Ok xs) encoded_payload_len table_id level options rs ts = Ok t \<and>
    (\<forall>r\<in>set rs. table_may_contain_key t (user_key (fst r))) \<and>
    (\<forall>x\<in>set ts. \<forall>key. key_is_in_range key (rt_range x) \<longrightarrow> key_bounds_may_contain_key t key)"
proof -
  let ?prs = "sort_point_records_if_needed rs"
  note sorted = sort_point_records_if_needed_ok [OF assms(2)]
  have len: "length ?prs < 2 ^ 32" and set_eq: "set ?prs = set rs"
    using sorted(2) assms(3) by (metis size_mset, metis mset_eq_setD)
  have "?prs = [] \<longrightarrow> ts \<noteq> []" using assms(1) set_eq by auto
  then obtain t where "write_table_with_backend (\<lambda>_ _ xs. Inr xs) encoded_payload_len table_id level options rs ts = Inr t"
    "table_wf t" "table_records t = ?prs" "set (tbl_range_tombstones t) = set ts"
    using write_table_wf [where sep = "\<lambda>_ _ xs. Inr xs" and payload = encoded_payload_len,
        OF assms(1) refl sorted(1) len assms(5,4)] by blast
  then show ?thesis
    using set_eq unfolding table_wf_def by (metis (no_types, lifting))
qed

theorem pruning_sound_for_finite_tombstones_witness:
  "\<exists>t. write_table_with_backend (\<lambda>_ _ xs. Ok xs) (\<lambda>_. 100) 1 0 plain_options sample_records
      [\<lparr>rt_range = \<lparr>kr_start = Included [4], kr_end = Excluded [8]\<rparr>, rt_sequence = 6, rt_batch_index = 0\<rparr>] = Ok t \<and>
    table_may_contain_key t [1] \<and> key_bounds_may_contain_key t [5]"
  using pruning_sound_for_finite_tombstones [of sample_records
      "[\<lparr>rt_range = \<lparr>kr_start = Included [4], kr_end = Excluded [8]\<rparr>, rt_sequence = 6, rt_batch_index = 0\<rparr>]"
      "\<lambda>_. 100" 1 0 plain_options]
  by (auto simp: sample_records_def finite_tombstone_def key_is_in_range_def)

lemma key_bounds_loop_None:
  "\<exists>t\<in>set ts. \<not> finite_tombstone t \<Longrightarrow> key_bounds_loop ts smallest largest = None"
  by (induction ts arbitrary: smallest largest) (auto simp: finite_tombstone_def split: option.splits)

text \<open>C16: A table that holds records together with a range tombstone with an unbounded end records empty key
  bounds to disable pruning, but the reader only ignores empty bounds when the table has no data block.
  Every record of such a table whose key is not empty is therefore pruned: the table holds the record
  and the lookup on the table finds it, yet the check that guards every lookup excludes the key.\<close>
theorem half_infinite_tombstone_hides_records:
  assumes "distinct (map fst rs)" "length rs < 2 ^ 32" "r \<in> set rs" "user_key (fst r) \<noteq> []"
    and "\<exists>x\<in>set ts. \<not> finite_tombstone x" and "\<And>t. encoded_payload_len t < 2 ^ 32"
  shows "\<exists>t prs. write_table_with_backend (\<lambda>_ _ xs. Ok xs) encoded_payload_len table_id level options rs ts = Ok t \<and>
    all_point_records t = Ok prs \<and> r \<in> set prs \<and> \<not> table_may_contain_key t (user_key (fst r))"
proof -
  let ?prs = "sort_point_records_if_needed rs"
  note sorted = sort_point_records_if_needed_ok [OF assms(1)]
  have len: "length ?prs < 2 ^ 32" and set_eq: "set ?prs = set rs"
    using sorted(2) assms(2) by (metis size_mset, metis mset_eq_setD)
  have ne: "rs \<noteq> [] \<or> ts \<noteq> []" using assms(3) by auto
  obtain t where t: "write_table_with_backend (\<lambda>_ _ xs. Inr xs) encoded_payload_len table_id level options rs ts = Inr t"
    "table_ok t" "table_records t = ?prs"
    "properties t = table_properties_of table_id level (wo_codec options) ?prs ts"
    using write_table_ok [where sep = "\<lambda>_ _ xs. Inr xs" and payload = encoded_payload_len,
        OF ne refl sorted(1) len assms(6)] by blast
  have "table_key_bounds ?prs ts = ([], [])"
    using key_bounds_loop_None [OF assms(5)] by (simp add: table_key_bounds_def)
  then have "smallest_user_key (properties t) = []" "largest_user_key (properties t) = []"
    by (simp_all add: t(4) table_properties_of_def Let_def)
  moreover have "?prs \<noteq> []" using set_eq assms(3) by auto
  then have "data_block_count t \<noteq> 0"
    using t(2,3) by (auto simp: table_ok_def table_records_def)
  ultimately have "\<not> table_may_contain_key t (user_key (fst r))"
    using assms(4) by (simp add: table_may_contain_key_def key_bounds_may_contain_key_def has_key_bounds_def)
  then show ?thesis
    using t(1) all_point_records_eq [OF t(2)] set_eq assms(3) t(3) by auto
qed

theorem half_infinite_tombstone_hides_records_witness:
  "\<exists>t prs. write_table_with_backend (\<lambda>_ _ xs. Ok xs) (\<lambda>_. 100) 1 0 plain_options sample_records
      [\<lparr>rt_range = \<lparr>kr_start = Included [4], kr_end = Unbounded\<rparr>, rt_sequence = 6, rt_batch_index = 0\<rparr>] = Ok t \<and>
    all_point_records t = Ok prs \<and> (InternalKey [2] 5 Put 0, Some (Inline [7])) \<in> set prs \<and>
    \<not> table_may_contain_key t [2]"
  using half_infinite_tombstone_hides_records [of sample_records "(InternalKey [2] 5 Put 0, Some (Inline [7]))"
      "[\<lparr>rt_range = \<lparr>kr_start = Included [4], kr_end = Unbounded\<rparr>, rt_sequence = 6, rt_batch_index = 0\<rparr>]"
      "\<lambda>_. 100" 1 0 plain_options]
  by (auto simp: sample_records_def finite_tombstone_def)

lemma fold_result_unitD: "fold_result f xs () = Inr () \<Longrightarrow> x \<in> set xs \<Longrightarrow> f x () = Inr ()"
  by (induction xs) (auto simp: and_then_eq_Inr_iff)

lemma validate_sorted_point_recordsD:
  assumes "validate_sorted_point_records rs = Inr ()"
  shows "btree_ok rs"
proof -
  have "fst (rs ! i) < fst (rs ! Suc i)" if "Suc i < length rs" for i
    using assms that by (auto simp: validate_sorted_point_records_def not_le split: if_splits)
  then show ?thesis
    by (simp add: btree_ok_def sorted_wrt_iff_nth_Suc_transp)
qed

text \<open>C35: A corrupted table file never feeds wrong records into a lookup silently: whatever the index
  partitions and blocks of a published table contain, a block that is loaded without an error is not
  empty, its records are strictly ordered, they begin and end with the keys the index states, and the
  filters of its index entry admit all of its keys; every other content is reported as an error.\<close>
theorem loaded_blocks_are_validated:
  assumes "point_records t = None" "load_data_block t i = Ok b"
  shows "\<exists>e. with_data_block_metadata t i = Ok e \<and> db_records b \<noteq> [] \<and> btree_ok (db_records b) \<and>
    fst (hd (db_records b)) = smallest_internal_key e \<and> fst (last (db_records b)) = largest_internal_key e \<and>
    (\<forall>r\<in>set (db_records b). \<not> point_filter_misses (tdb_point_key_filter e) (user_key (fst r)) \<and>
       \<not> prefix_filter_misses (tdb_prefix_filter e) (user_key (fst r)))"
proof -
  obtain e where e: "with_data_block_metadata t i = Inr e"
    "validate_decoded_data_block_entry e b = Inr ()" "validate_decoded_data_block_filters e b = Inr ()"
    using assms by (auto simp: load_data_block_def read_data_block_from_file_def and_then_eq_Inr_iff)
  have entry: "db_records b \<noteq> []" "fst (hd (db_records b)) = smallest_internal_key e"
    "fst (last (db_records b)) = largest_internal_key e" "btree_ok (db_records b)"
    using e(2) validate_sorted_point_recordsD
    by (auto simp: validate_decoded_data_block_entry_def split: if_splits)
  have "\<not> point_filter_misses (tdb_point_key_filter e) (user_key (fst r)) \<and>
      \<not> prefix_filter_misses (tdb_prefix_filter e) (user_key (fst r))" if "r \<in> set (db_records b)" for r
    using fold_result_unitD [OF e(3) [unfolded validate_decoded_data_block_filters_def] that]
    by (auto split: if_splits)
  then show ?thesis using e(1) entry by blast
qed

theorem loaded_blocks_are_validated_witness:
  "\<exists>t b. write_table_with_backend (\<lambda>_ _ xs. Ok xs) (\<lambda>_. 100) 1 0 plain_options sample_records [] = Ok t \<and>
     load_data_block t 0 = Ok b \<and> db_records b \<noteq> []"
proof -
  obtain t where t: "write_table_with_backend (\<lambda>_ _ xs. Inr xs) (\<lambda>_. 100) 1 0 plain_options sample_records [] = Inr t"
    "table_ok t" "table_records t = sample_records"
    using sample_table by (auto simp: table_wf_def)
  have "0 < data_block_count t"
    using t(2,3) by (cases "file_blocks t") (auto simp: table_ok_def table_records_def sample_records_def)
  then show ?thesis
    using loaded_blocks_are_validated [of t 0] t(1,2) load_data_block_Ok [OF t(2)] by (auto simp: table_ok_def)
qed

lemma unat_saturating_sub_word: "unat (saturating_sub_word a b) = unat a - unat b"
  by (auto simp: saturating_sub_word_def unat_sub word_le_nat_alt)

lemma unat_byte_max [simp]: "unat (- 1 :: byte) = 255"
  by (simp add: unsigned_minus_1_eq_mask mask_eq_exp_minus_1)

lemma unat_saturating_mul_u8: "unat (saturating_mul_u8 a b) = min (unat a * unat b) 255"
  by (auto simp: saturating_mul_u8_def unat_mult_lem [THEN iffD1] min_def)

lemma unat_saturating_add_u8: "unat (saturating_add_word (a :: byte) b) = min (unat a + unat b) 255"
  by (auto simp: saturating_add_word_def unat_add_lem [THEN iffD1] min_def)

text \<open>C36: The saturating byte arithmetic of the filter budget never distorts it: as unbounded numbers, a
  level \<open>n\<close> beyond the pinned levels 0 and 1 loses \<open>step\<close> bits per further level down to the smaller of
  floor and base under the built-in (step 2, floor 4) and the custom curve, gains \<open>step\<close> bits per
  further level up to the larger of ceiling and base under the cost-weighted curve, and keeps the base
  under the uniform curve. In particular levels 0 and 1 keep the base under every curve.\<close>
theorem level_adjusted_filter_bits_exact:
  "unat (level_adjusted_filter_bits (CurveCustom step floor) base level) =
     max (unat base - unat step * (unat level - 1)) (min (unat floor) (unat base)) \<and>
   unat (level_adjusted_filter_bits CurveAuto base level) = max (unat base - 2 * (unat level - 1)) (min 4 (unat base)) \<and>
   unat (level_adjusted_filter_bits (CurveCostWeighted step ceil) base level) =
     min (unat base + unat step * (unat level - 1)) (max (unat ceil) (unat base)) \<and>
   level_adjusted_filter_bits CurveUniform base level = base \<and>
   level_adjusted_filter_bits curve base 0 = base \<and> level_adjusted_filter_bits curve base 1 = base"
proof -
  note defs = level_adjusted_filter_bits_def Let_def
  let ?wide = "saturating_sub_word level PINNED_READ_METADATA_MAX_LEVEL"
  define dep :: byte where "dep = (if unat ?wide < 256 then ucast ?wide else - 1)"
  have wide: "unat ?wide = unat level - 1"
    by (simp add: unat_saturating_sub_word PINNED_READ_METADATA_MAX_LEVEL_def)
  have depth: "unat dep = min (unat level - 1) 255"
    using wide by (auto simp: dep_def unsigned_ucast_eq take_bit_nat_eq_self min_def)
  have bytes: "unat b \<le> 255" for b :: byte
    using unsigned_less [of b, where ?'a = nat] by simp
  have maxu: "unat (max a b) = max (unat a) (unat b)" "unat (min a b) = min (unat a) (unat b)" for a b :: byte
    by (simp_all add: max_def min_def word_le_nat_alt)
  have sat: "min (x * min d 255) 255 = min (x * d) (255 :: nat)" for x d
  proof (cases "x = 0 \<or> d \<le> 255")
    case False
    then have "255 \<le> x * 255" "255 \<le> x * d" using mult_le_mono [of 1 x 255 d] by simp_all
    then show ?thesis using False by (simp add: min_absorb2)
  qed auto
  have sub: "unat base - min x 255 = unat base - x" "min (unat base + min x 255) 255 = min (unat base + x) 255" for x
    using bytes [of base] by (auto simp: min_def)
  have cut: "min (min x 255) (max (unat a) (unat b)) = min x (max (unat a) (unat b))" for x and a b :: byte
    using bytes [of a] bytes [of b] by (auto simp: min_def max_def)
  have custom: "unat (level_adjusted_filter_bits (CurveCustom x y) base level) =
      max (unat base - unat x * (unat level - 1)) (min (unat y) (unat base))" for x y
  proof -
    have "level_adjusted_filter_bits (CurveCustom x y) base level =
        max (saturating_sub_word base (saturating_mul_u8 x dep)) (min y base)" by (simp add: defs dep_def)
    then show ?thesis by (simp add: maxu unat_saturating_sub_word unat_saturating_mul_u8 depth sat sub)
  qed
  moreover have "unat (level_adjusted_filter_bits CurveAuto base level) = max (unat base - 2 * (unat level - 1)) (min 4 (unat base))"
    using custom [of 2 4] by (simp add: level_adjusted_filter_bits_def)
  moreover have "unat (level_adjusted_filter_bits (CurveCostWeighted step ceil) base level) =
      min (unat base + unat step * (unat level - 1)) (max (unat ceil) (unat base))"
  proof -
    have "level_adjusted_filter_bits (CurveCostWeighted step ceil) base level =
        min (saturating_add_word base (saturating_mul_u8 step dep)) (max ceil base)" by (simp add: defs dep_def)
    then show ?thesis by (simp add: maxu unat_saturating_add_u8 unat_saturating_mul_u8 depth sat sub cut)
  qed
  moreover have "level_adjusted_filter_bits curve base l = base" if "l = 0 \<or> l = 1" for l
  proof -
    have "saturating_sub_word l PINNED_READ_METADATA_MAX_LEVEL = 0"
      using that by (auto simp: saturating_sub_word_def PINNED_READ_METADATA_MAX_LEVEL_def)
    then have "unat (level_adjusted_filter_bits curve base l) = unat base"
      using bytes [of base] by (cases curve) (auto simp: defs maxu
        unat_saturating_sub_word unat_saturating_add_u8 unat_saturating_mul_u8)
    then show ?thesis by (simp only: word_unat_eq_iff)
  qed
  ultimately show ?thesis by (simp add: level_adjusted_filter_bits_def)
qed

end
