(* ===== verification/Lsm_Version.thy ===== *)
theory Lsm_Version
  imports Table_Build
begin

text \<open>
  The table layout of a tree (\<^verbatim>\<open>src/src/lsm/version.rs\<close>): level zero holds overlapping tables, newest
  first; every deeper level holds tables with disjoint key bounds, ordered by key, or one single table
  without bounds. The version decides which tables a point read, a tombstone check or a range scan has
  to consult. Statistics are not modelled.

  Shown here: an installed version satisfies its layout invariant, keeps exactly the given tables and
  rejects every other layout; the one table per deeper level that a lookup probes is the only one that
  can hold the key, so no table whose bounds and filter admit a key is ever left out.
\<close>

section \<open>Levels\<close>

record level_state =
  ls_level :: u32
  ls_tables :: "table list"

record lsm_version =
  levels :: "level_state list"

definition compare_l0_tables_for_reads :: "table \<Rightarrow> table \<Rightarrow> ordering" where
  "compare_l0_tables_for_reads left right =
     then_with (cmp (tp_level (properties left)) (tp_level (properties right)))
      (then_with (cmp (largest_sequence (properties right)) (largest_sequence (properties left)))
        (cmp (tp_id (properties right)) (tp_id (properties left))))"

definition compare_non_overlapping_tables :: "table \<Rightarrow> table \<Rightarrow> ordering" where
  "compare_non_overlapping_tables left right =
     then_with (cmp (has_key_bounds right) (has_key_bounds left))
      (then_with (cmp (smallest_user_key (properties left)) (smallest_user_key (properties right)))
        (then_with (cmp (largest_user_key (properties left)) (largest_user_key (properties right)))
          (cmp (tp_id (properties left)) (tp_id (properties right)))))"

definition validate_table_key_bounds :: "table \<Rightarrow> unit result" where
  "validate_table_key_bounds t =
     (if has_key_bounds t \<and> smallest_user_key (properties t) > largest_user_key (properties t)
      then Err (Corruption ''table has invalid key bounds'') else Ok ())"

fun validate_tables_from :: "usize \<Rightarrow> table option \<Rightarrow> table list \<Rightarrow> unit result" where
  "validate_tables_from table_count previous [] = Ok ()"
| "validate_tables_from table_count previous (t # ts) =
     and_then (validate_table_key_bounds t) (\<lambda>_.
     if \<not> has_key_bounds t then
       (if table_count > 1
        then Err (Corruption ''level has an unbounded table mixed with other tables'')
        else validate_tables_from table_count previous ts)
     else if (case previous of
                None \<Rightarrow> False
              | Some p \<Rightarrow> largest_user_key (properties p) \<ge> smallest_user_key (properties t))
     then Err (Corruption ''level has overlapping tables'')
     else validate_tables_from table_count (Some t) ts)"

definition validate_non_overlapping_level :: "table list \<Rightarrow> unit result" where
  "validate_non_overlapping_level ts = validate_tables_from (length ts) None ts"

definition level_state_new :: "u32 \<Rightarrow> table list \<Rightarrow> level_state result" where
  "level_state_new level ts =
     (if level = 0 then Ok \<lparr>ls_level = level, ls_tables = sort_by compare_l0_tables_for_reads ts\<rparr>
      else
        let sorted = sort_by compare_non_overlapping_tables ts
        in and_then (validate_non_overlapping_level sorted) (\<lambda>_. Ok \<lparr>ls_level = level, ls_tables = sorted\<rparr>))"

definition table_for_key :: "level_state \<Rightarrow> bytes \<Rightarrow> table option" where
  "table_for_key ls key =
     (let index = partition_point (\<lambda>t. has_key_bounds t \<and> largest_user_key (properties t) < key) (ls_tables ls)
      in Option.bind (nth_opt (ls_tables ls) index) (\<lambda>t.
         if key_bounds_may_contain_key t key then Some t else None))"

definition tables_overlapping_range :: "level_state \<Rightarrow> key_range \<Rightarrow> table list" where
  "tables_overlapping_range ls rng = filter (\<lambda>t. key_bounds_overlap_range t rng) (ls_tables ls)"

definition table_key_bounds_overlap :: "table \<Rightarrow> table \<Rightarrow> bool" where
  "table_key_bounds_overlap left right =
     (if \<not> has_key_bounds left \<or> \<not> has_key_bounds right then True
      else smallest_user_key (properties left) \<le> largest_user_key (properties right) \<and>
           smallest_user_key (properties right) \<le> largest_user_key (properties left))"

fun tables_overlap_pairwise :: "table list \<Rightarrow> bool" where
  "tables_overlap_pairwise [] = False"
| "tables_overlap_pairwise (left # rest) =
     (list_ex (table_key_bounds_overlap left) rest \<or> tables_overlap_pairwise rest)"

definition has_overlapping_tables :: "level_state \<Rightarrow> bool" where
  "has_overlapping_tables ls = tables_overlap_pairwise (ls_tables ls)"

section \<open>Versions\<close>

definition push_by_level :: "table \<Rightarrow> (u32 \<times> table list) list \<Rightarrow> (u32 \<times> table list) list" where
  "push_by_level t by_level =
     (let level = tp_level (properties t)
      in btree_insert level ((case map_of by_level level of None \<Rightarrow> [] | Some ts \<Rightarrow> ts) @ [t]) by_level)"

definition lsm_version_new :: "table list \<Rightarrow> lsm_version result" where
  "lsm_version_new ts =
     and_then (map_result (\<lambda>(level, ts). level_state_new level ts) (fold push_by_level ts [])) (\<lambda>ls.
     Ok \<lparr>levels = ls\<rparr>)"

definition table_handles :: "lsm_version \<Rightarrow> table list" where
  "table_handles v = concat (map ls_tables (levels v))"

definition point_lookup_tables :: "lsm_version \<Rightarrow> bytes \<Rightarrow> table list" where
  "point_lookup_tables v key =
     concat (map (\<lambda>ls.
       if ls_level ls = 0
       then filter (\<lambda>t. key_bounds_may_contain_key t key \<and> table_may_contain_key t key) (ls_tables ls)
       else case table_for_key ls key of
              None \<Rightarrow> []
            | Some t \<Rightarrow> if table_may_contain_key t key then [t] else []) (levels v))"

text \<open>The closures \<^verbatim>\<open>should_probe\<close> and \<^verbatim>\<open>visit\<close> share the state \<open>c\<close> that they capture.\<close>

definition for_each_point_lookup_table ::
  "lsm_version \<Rightarrow> bytes \<Rightarrow> (table \<Rightarrow> 'c \<Rightarrow> bool) \<Rightarrow> (table \<Rightarrow> 'c \<Rightarrow> 'c result) \<Rightarrow> 'c \<Rightarrow> 'c result" where
  "for_each_point_lookup_table v key should_probe visit c =
     fold_result (\<lambda>ls c.
       if ls_level ls = 0
       then fold_result (\<lambda>t c.
              if \<not> key_bounds_may_contain_key t key then Ok c
              else if \<not> should_probe t c then Ok c
              else if table_may_contain_key t key then visit t c else Ok c) (ls_tables ls) c
       else case table_for_key ls key of
              None \<Rightarrow> Ok c
            | Some t \<Rightarrow>
                if \<not> should_probe t c then Ok c
                else if table_may_contain_key t key then visit t c else Ok c) (levels v) c"

definition range_tombstone_tables_for_key :: "lsm_version \<Rightarrow> bytes \<Rightarrow> table list" where
  "range_tombstone_tables_for_key v key =
     concat (map (\<lambda>ls.
       if ls_level ls = 0
       then filter (\<lambda>t. may_have_range_tombstones t \<and> key_bounds_may_contain_key t key) (ls_tables ls)
       else case table_for_key ls key of
              None \<Rightarrow> []
            | Some t \<Rightarrow>
                if may_have_range_tombstones t \<and> key_bounds_may_contain_key t key then [t] else []) (levels v))"

definition range_scan_tables :: "lsm_version \<Rightarrow> key_range \<Rightarrow> table list" where
  "range_scan_tables v rng = concat (map (\<lambda>ls. tables_overlapping_range ls rng) (levels v))"

definition l0_level :: "lsm_version \<Rightarrow> level_state option" where
  "l0_level v = find (\<lambda>ls. ls_level ls = 0) (levels v)"

definition l0_table_count :: "lsm_version \<Rightarrow> usize" where
  "l0_table_count v = (case l0_level v of None \<Rightarrow> 0 | Some ls \<Rightarrow> length (ls_tables ls))"

definition l0_has_overlapping_tables :: "lsm_version \<Rightarrow> bool" where
  "l0_has_overlapping_tables v = (case l0_level v of None \<Rightarrow> False | Some ls \<Rightarrow> has_overlapping_tables ls)"

definition with_added_l0_table :: "lsm_version \<Rightarrow> table \<Rightarrow> lsm_version result" where
  "with_added_l0_table v t =
     (if tp_level (properties t) \<noteq> 0 then Err (Corruption ''flush table was not written to L0'')
      else lsm_version_new (table_handles v @ [t]))"

definition with_replaced_tables ::
  "lsm_version \<Rightarrow> u64 list \<Rightarrow> table list \<Rightarrow> (lsm_version \<times> table list) result" where
  "with_replaced_tables v input_table_ids output_tables =
     (let ids = remdups input_table_ids;
          is_input = (\<lambda>t. tp_id (properties t) \<in> set ids);
          removed = filter is_input (table_handles v);
          ts = filter (\<lambda>t. \<not> is_input t) (table_handles v)
      in if length removed \<noteq> length ids
         then Err (Corruption ''compaction tried to replace a table outside current version'')
         else and_then (lsm_version_new (ts @ output_tables)) (\<lambda>v'. Ok (v', removed)))"

section \<open>Layout invariant\<close>

definition disjoint_tables :: "table list \<Rightarrow> bool" where
  "disjoint_tables ts \<longleftrightarrow>
     (1 < length ts \<longrightarrow> (\<forall>t\<in>set ts. has_key_bounds t)) \<and>
     (\<forall>t\<in>set ts. has_key_bounds t \<longrightarrow> smallest_user_key (properties t) \<le> largest_user_key (properties t)) \<and>
     sorted_wrt (\<lambda>a b. has_key_bounds a \<and> has_key_bounds b \<longrightarrow>
       largest_user_key (properties a) < smallest_user_key (properties b)) ts"

definition level_ok :: "level_state \<Rightarrow> bool" where
  "level_ok ls \<longleftrightarrow> (\<forall>t\<in>set (ls_tables ls). tp_level (properties t) = ls_level ls) \<and>
     (if ls_level ls = 0 then sorted_by compare_l0_tables_for_reads (ls_tables ls)
      else disjoint_tables (ls_tables ls))"

definition version_ok :: "lsm_version \<Rightarrow> bool" where
  "version_ok v \<longleftrightarrow> (\<forall>ls\<in>set (levels v). level_ok ls) \<and> sorted_wrt (<) (map ls_level (levels v))"

lemma validate_table_key_bounds_Ok:
  "validate_table_key_bounds t = Inr u \<longleftrightarrow>
   (has_key_bounds t \<longrightarrow> smallest_user_key (properties t) \<le> largest_user_key (properties t))"
  by (auto simp: validate_table_key_bounds_def not_less)

lemma validate_tables_from_Ok:
  "validate_tables_from n prev ts = Inr () \<Longrightarrow>
   (\<forall>p\<in>set_option prev. has_key_bounds p \<and> smallest_user_key (properties p) \<le> largest_user_key (properties p)) \<Longrightarrow>
   (\<forall>t\<in>set ts. has_key_bounds t \<longrightarrow> smallest_user_key (properties t) \<le> largest_user_key (properties t)) \<and>
   (1 < n \<longrightarrow> (\<forall>t\<in>set ts. has_key_bounds t)) \<and>
   (\<forall>p\<in>set_option prev. \<forall>t\<in>set ts. has_key_bounds t \<longrightarrow>
      largest_user_key (properties p) < smallest_user_key (properties t)) \<and>
   sorted_wrt (\<lambda>a b. has_key_bounds a \<and> has_key_bounds b \<longrightarrow>
       largest_user_key (properties a) < smallest_user_key (properties b)) ts"
proof (induction n prev ts rule: validate_tables_from.induct)
  case (2 n prev t ts)
  have bounds: "has_key_bounds t \<longrightarrow> smallest_user_key (properties t) \<le> largest_user_key (properties t)"
    using 2(3) by (auto simp: and_then_eq_Inr_iff validate_table_key_bounds_Ok)
  show ?case
  proof (cases "has_key_bounds t")
    case False
    then have rest: "validate_tables_from n prev ts = Inr ()" and n: "\<not> 1 < n"
      using 2(3) by (auto simp: and_then_eq_Inr_iff validate_table_key_bounds_Ok split: if_splits)
    show ?thesis
      using 2(1) [OF _ False n rest 2(4)] False n bounds by (auto simp: validate_table_key_bounds_Ok)
  next
    case True
    have after: "\<forall>p\<in>set_option prev. largest_user_key (properties p) < smallest_user_key (properties t)"
      using 2(3) True by (auto simp: and_then_eq_Inr_iff not_le split: if_splits option.splits)
    have rest: "validate_tables_from n (Some t) ts = Inr ()"
      and free: "\<not> (case prev of None \<Rightarrow> False | Some p \<Rightarrow> largest_user_key (properties p) \<ge> smallest_user_key (properties t))"
      using 2(3) True by (auto simp: and_then_eq_Inr_iff split: if_splits)
    have IH: "(\<forall>t\<in>set ts. has_key_bounds t \<longrightarrow> smallest_user_key (properties t) \<le> largest_user_key (properties t)) \<and>
      (1 < n \<longrightarrow> (\<forall>t\<in>set ts. has_key_bounds t)) \<and>
      (\<forall>x\<in>set ts. has_key_bounds x \<longrightarrow> largest_user_key (properties t) < smallest_user_key (properties x)) \<and>
      sorted_wrt (\<lambda>a b. has_key_bounds a \<and> has_key_bounds b \<longrightarrow>
       largest_user_key (properties a) < smallest_user_key (properties b)) ts"
      using 2(2) [OF _ _ free rest] True bounds by (simp add: validate_table_key_bounds_Ok)
    have "largest_user_key (properties p) < smallest_user_key (properties x)"
      if "p \<in> set_option prev" "x \<in> set ts" "has_key_bounds x" for p x
      using after that IH bounds True by (meson order.strict_trans order.strict_trans2)
    then show ?thesis using IH after bounds True by simp
  qed
qed simp

lemma validate_non_overlapping_level_Ok:
  "validate_non_overlapping_level ts = Inr () \<Longrightarrow> disjoint_tables ts"
  using validate_tables_from_Ok [of "length ts" None ts]
  unfolding validate_non_overlapping_level_def disjoint_tables_def by simp

lemma total_preorder_l0: "total_preorder compare_l0_tables_for_reads"
proof -
  have eq: "compare_l0_tables_for_reads = (\<lambda>a b.
     then_with (cmp (tp_level (properties a)) (tp_level (properties b)))
      (then_with (cmp (largest_sequence (properties b)) (largest_sequence (properties a)))
        (cmp (tp_id (properties b)) (tp_id (properties a)))))"
    by (simp add: fun_eq_iff compare_l0_tables_for_reads_def)
  show ?thesis
    unfolding total_preorder_def eq by (auto simp: order_simps)
qed

lemma level_state_new_Ok:
  assumes "level_state_new level ts = Inr ls" "\<forall>t\<in>set ts. tp_level (properties t) = level"
  shows "level_ok ls" "ls_level ls = level" "mset (ls_tables ls) = mset ts"
  using assms sorted_by_sort_by [OF total_preorder_l0, of ts] validate_non_overlapping_level_Ok
  by (auto simp: level_state_new_def level_ok_def Let_def and_then_eq_Inr_iff split: if_splits)

subsection \<open>Grouping by level\<close>

definition grouped :: "(u32 \<times> table list) list \<Rightarrow> bool" where
  "grouped m \<longleftrightarrow> btree_ok m \<and> (\<forall>(level, ts)\<in>set m. \<forall>t\<in>set ts. tp_level (properties t) = level)"

lemma sum_mset_btree_insert:
  "btree_ok m \<Longrightarrow>
   (\<Sum>e\<leftarrow>btree_insert k v m. mset (snd e)) + (case map_of m k of None \<Rightarrow> {#} | Some v0 \<Rightarrow> mset v0) =
   (\<Sum>e\<leftarrow>m. mset (snd e)) + mset v"
proof (induction m)
  case (Cons e m)
  obtain k' v' where e: "e = (k', v')" by fastforce
  have ok: "btree_ok m" and gt: "\<forall>x\<in>set m. k' < fst x"
    using Cons(2) by (auto simp: btree_ok_def e)
  have "k \<le> k' \<Longrightarrow> map_of m k = None"
    using gt by (fastforce simp: map_of_eq_None_iff)
  then show ?case
    using Cons(1) [OF ok] by (auto simp: e add.assoc add.commute add.left_commute split: option.splits)
qed simp

lemma grouped_insert:
  assumes "grouped m" "\<forall>x\<in>set ts. tp_level (properties x) = l"
  shows "grouped (btree_insert l ts m)"
proof -
  have ok: "btree_ok m" using assms by (simp add: grouped_def)
  show ?thesis
    unfolding grouped_def
  proof (intro conjI ballI)
    show "btree_ok (btree_insert l ts m)" by (rule btree_ok_insert [OF ok])
    show "case e of (level, ts) \<Rightarrow> \<forall>t\<in>set ts. tp_level (properties t) = level"
      if "e \<in> set (btree_insert l ts m)" for e
    proof -
      have "e = (l, ts) \<or> e \<in> set m" using that by (auto simp: set_btree_insert [OF ok])
      then show ?thesis using assms unfolding grouped_def by auto
    qed
  qed
qed

lemma grouped_push:
  assumes "grouped m"
  shows "grouped (push_by_level t m)"
    "(\<Sum>e\<leftarrow>push_by_level t m. mset (snd e)) = (\<Sum>e\<leftarrow>m. mset (snd e)) + {#t#}"
proof -
  let ?l = "tp_level (properties t)"
  let ?old = "case map_of m ?l of None \<Rightarrow> [] | Some ts \<Rightarrow> ts"
  have ok: "btree_ok m" using assms by (simp add: grouped_def)
  have old: "\<forall>x\<in>set ?old. tp_level (properties x) = ?l"
  proof (cases "map_of m ?l")
    case (Some ts)
    then show ?thesis using assms map_of_SomeD [OF Some] by (fastforce simp: grouped_def)
  qed simp
  show "grouped (push_by_level t m)"
    unfolding push_by_level_def Let_def by (rule grouped_insert [OF assms]) (use old in auto)
  show "(\<Sum>e\<leftarrow>push_by_level t m. mset (snd e)) = (\<Sum>e\<leftarrow>m. mset (snd e)) + {#t#}"
    using sum_mset_btree_insert [OF ok, of ?l "?old @ [t]"]
    by (auto simp: push_by_level_def Let_def split: option.splits)
qed

lemma grouped_fold:
  "grouped m \<Longrightarrow> grouped (fold push_by_level ts m) \<and>
   (\<Sum>e\<leftarrow>fold push_by_level ts m. mset (snd e)) = (\<Sum>e\<leftarrow>m. mset (snd e)) + mset ts"
  by (induction ts arbitrary: m) (auto simp: grouped_push)

lemma version_new_levels:
  assumes "btree_ok m" "\<forall>(level, ts)\<in>set m. \<forall>t\<in>set ts. tp_level (properties t) = level"
    "map_result (\<lambda>(level, ts). level_state_new level ts) m = Inr ls"
  shows "\<forall>l\<in>set ls. level_ok l" "map ls_level ls = map fst m"
    "mset (concat (map ls_tables ls)) = (\<Sum>e\<leftarrow>m. mset (snd e))"
proof -
  have "list_all2 (\<lambda>e l. level_state_new (fst e) (snd e) = Inr l) m ls"
    using assms(3) unfolding map_result_Ok_iff by (simp add: case_prod_beta)
  then have all: "list_all2 (\<lambda>e l. level_ok l \<and> ls_level l = fst e \<and> mset (ls_tables l) = mset (snd e)) m ls"
    by (rule list.rel_mono_strong) (use assms(2) level_state_new_Ok in fastforce)
  show "\<forall>l\<in>set ls. level_ok l"
    using all by (auto simp: list_all2_conv_all_nth in_set_conv_nth)
  show "map ls_level ls = map fst m"
    using all by (auto simp: list_all2_conv_all_nth intro: nth_equalityI)
  show "mset (concat (map ls_tables ls)) = (\<Sum>e\<leftarrow>m. mset (snd e))"
    using all by (induction rule: list_all2_induct) auto
qed

lemma lsm_version_new_Ok:
  assumes "lsm_version_new ts = Inr v"
  shows "version_ok v" "mset (table_handles v) = mset ts"
proof -
  have g: "grouped (fold push_by_level ts [])" "(\<Sum>e\<leftarrow>fold push_by_level ts []. mset (snd e)) = mset ts"
    using grouped_fold [of "[]" ts] by (auto simp: grouped_def)
  have m: "map_result (\<lambda>(level, ts). level_state_new level ts) (fold push_by_level ts []) = Inr (levels v)"
    using assms by (auto simp: lsm_version_new_def and_then_eq_Inr_iff)
  have grp: "btree_ok (fold push_by_level ts [])"
    "\<forall>(level, ts)\<in>set (fold push_by_level ts []). \<forall>t\<in>set ts. tp_level (properties t) = level"
    using g(1) by (auto simp: grouped_def)
  note v = version_new_levels [OF grp m]
  show "version_ok v"
    using v(1,2) grp(1) by (simp add: version_ok_def btree_ok_def)
  show "mset (table_handles v) = mset ts"
    using v(3) g(2) by (simp add: table_handles_def)
qed

subsection \<open>Layouts that are accepted\<close>

lemma sort_by_sorted: "sorted_by c xs \<Longrightarrow> sort_by c xs = xs"
proof (induction xs)
  case (Cons x xs)
  then have "sort_by c (x # xs) = insert_by c x xs" by (simp add: sort_by_def sorted_by_def)
  also have "\<dots> = x # xs" using Cons.prems by (cases xs) (auto simp: sorted_by_def)
  finally show ?case .
qed (simp add: sort_by_def)

lemma disjoint_tables_sorted:
  assumes "disjoint_tables ts"
  shows "sorted_by compare_non_overlapping_tables ts"
proof -
  let ?S = "\<lambda>t. smallest_user_key (properties t)" and ?L = "\<lambda>t. largest_user_key (properties t)"
  have "compare_non_overlapping_tables a b \<noteq> Greater"
    if "has_key_bounds a" "has_key_bounds b" "?S a \<le> ?L a" "?L a < ?S b" for a b
    using that le_less_trans [of "?S a" "?L a" "?S b"]
    by (auto simp: compare_non_overlapping_tables_def order_simps)
  note less = this
  show ?thesis
  proof (cases "1 < length ts")
    case True
    then have ok: "\<forall>t\<in>set ts. has_key_bounds t \<and> ?S t \<le> ?L t"
      "sorted_wrt (\<lambda>a b. has_key_bounds a \<and> has_key_bounds b \<longrightarrow> ?L a < ?S b) ts"
      using assms by (auto simp: disjoint_tables_def)
    show ?thesis
      unfolding sorted_by_def by (rule sorted_wrt_mono_rel [OF _ ok(2)]) (use less ok(1) in blast)
  next
    case False
    then show ?thesis by (cases ts) (auto simp: sorted_by_def)
  qed
qed

lemma validate_tables_from_complete:
  assumes "disjoint_tables (prev @ ts)" "n = length (prev @ ts)" "length prev \<le> 1"
    "\<forall>p\<in>set prev. has_key_bounds p"
  shows "validate_tables_from n' (case prev of [] \<Rightarrow> None | p # _ \<Rightarrow> Some p) ts = Inr () \<or>
    (\<exists>t\<in>set ts. \<not> has_key_bounds t \<and> 1 < n')"
  using assms
proof (induction ts arbitrary: prev n)
  case (Cons t ts)
  have b: "has_key_bounds t \<longrightarrow> smallest_user_key (properties t) \<le> largest_user_key (properties t)"
    using Cons.prems(1) by (auto simp: disjoint_tables_def)
  show ?case
  proof (cases "has_key_bounds t")
    case True
    have "disjoint_tables ([t] @ ts)"
      using Cons.prems(1,2) True unfolding disjoint_tables_def by (auto simp: sorted_wrt_append)
    from Cons.IH [OF this refl] True
    have "validate_tables_from n' (Some t) ts = Inr () \<or> (\<exists>t\<in>set ts. \<not> has_key_bounds t \<and> 1 < n')" by simp
    moreover have "\<forall>p\<in>set prev. largest_user_key (properties p) < smallest_user_key (properties t)"
      using Cons.prems(1,4) True by (auto simp: disjoint_tables_def sorted_wrt_append)
    ultimately show ?thesis
      using True b by (cases prev) (auto simp: validate_table_key_bounds_def and_then_def)
  next
    case False
    have "disjoint_tables (prev @ ts)"
      using Cons.prems(1) unfolding disjoint_tables_def by (auto simp: sorted_wrt_append)
    from Cons.IH [OF this refl Cons.prems(3,4)] False show ?thesis
      by (auto simp: validate_table_key_bounds_def and_then_def)
  qed
qed simp

lemma level_state_new_complete:
  assumes "level = 0 \<or> disjoint_tables ts"
  shows "\<exists>ls. level_state_new level ts = Inr ls"
proof (cases "level = 0")
  case False
  then have d: "disjoint_tables ts" using assms by simp
  have "\<not> (\<exists>t\<in>set ts. \<not> has_key_bounds t \<and> 1 < length ts)"
    using d unfolding disjoint_tables_def by blast
  then have "validate_non_overlapping_level ts = Inr ()"
    using validate_tables_from_complete [of "[]" ts "length ts" "length ts"] d
    unfolding validate_non_overlapping_level_def by auto
  then show ?thesis
    using False by (simp add: level_state_new_def sort_by_sorted [OF disjoint_tables_sorted [OF d]])
qed (simp add: level_state_new_def)

lemma push_by_level_groups:
  assumes "\<forall>(l, g)\<in>set m. g = filter (\<lambda>t. tp_level (properties t) = l) us"
    "\<forall>u\<in>set us. tp_level (properties u) \<in> fst ` set m" "btree_ok m"
  shows "\<forall>(l, g)\<in>set (push_by_level t m). g = filter (\<lambda>t. tp_level (properties t) = l) (us @ [t])"
    "\<forall>u\<in>set (us @ [t]). tp_level (properties u) \<in> fst ` set (push_by_level t m)" "btree_ok (push_by_level t m)"
proof -
  let ?l = "tp_level (properties t)"
  let ?old = "case map_of m ?l of None \<Rightarrow> [] | Some ts \<Rightarrow> ts"
  have old: "?old = filter (\<lambda>t. tp_level (properties t) = ?l) us"
  proof (cases "map_of m ?l")
    case None
    then have "?l \<notin> fst ` set m" by (simp add: map_of_eq_None_iff)
    then have "\<forall>u\<in>set us. tp_level (properties u) \<noteq> ?l" using assms(2) by metis
    then show ?thesis using None by (simp add: filter_empty_conv)
  next
    case (Some g)
    then show ?thesis using assms(1) map_of_SomeD [OF Some] by auto
  qed
  have set: "set (push_by_level t m) = insert (?l, ?old @ [t]) {e \<in> set m. fst e \<noteq> ?l}"
    unfolding push_by_level_def Let_def by (rule set_btree_insert [OF assms(3)])
  show "\<forall>(l, g)\<in>set (push_by_level t m). g = filter (\<lambda>t. tp_level (properties t) = l) (us @ [t])"
    unfolding set old using assms(1) by auto
  show "\<forall>u\<in>set (us @ [t]). tp_level (properties u) \<in> fst ` set (push_by_level t m)"
    using assms(2) unfolding set by fastforce
  show "btree_ok (push_by_level t m)" unfolding push_by_level_def Let_def by (rule btree_ok_insert [OF assms(3)])
qed

lemma fold_push_groups:
  assumes "\<forall>(l, g)\<in>set m. g = filter (\<lambda>t. tp_level (properties t) = l) us"
    "\<forall>u\<in>set us. tp_level (properties u) \<in> fst ` set m" "btree_ok m"
  shows "\<forall>(l, g)\<in>set (fold push_by_level ts m). g = filter (\<lambda>t. tp_level (properties t) = l) (us @ ts)"
  using assms
proof (induction ts arbitrary: us m)
  case (Cons t ts)
  show ?case using Cons.IH [OF push_by_level_groups [OF Cons.prems, of t]] by simp
qed simp

lemma map_result_total: "(\<And>x. x \<in> set xs \<Longrightarrow> \<exists>y. f x = Inr y) \<Longrightarrow> \<exists>ys. map_result f xs = Inr ys"
  by (induction xs) (force simp: and_then_def)+

lemma lsm_version_new_complete:
  assumes "\<And>l. l \<noteq> 0 \<Longrightarrow> disjoint_tables (filter (\<lambda>t. tp_level (properties t) = l) ts)"
  shows "\<exists>v. lsm_version_new ts = Inr v"
proof -
  have "\<exists>ls. (\<lambda>(level, ts). level_state_new level ts) e = Inr ls" if "e \<in> set (fold push_by_level ts [])" for e
  proof -
    have "snd e = filter (\<lambda>t. tp_level (properties t) = fst e) ts"
      using fold_push_groups [of "[]" "[]" ts] that by (auto simp: btree_ok_def)
    then show ?thesis using assms [of "fst e"] level_state_new_complete [of "fst e" "snd e"]
      by (cases "fst e = 0") (simp_all add: case_prod_beta)
  qed
  from map_result_total [OF this]
  obtain ls where "map_result (\<lambda>(level, ts). level_state_new level ts) (fold push_by_level ts []) = Inr ls" ..
  then show ?thesis by (simp add: lsm_version_new_def)
qed

lemma version_level_filter:
  assumes "version_ok v"
  shows "filter (\<lambda>t. tp_level (properties t) = l) (table_handles v) =
    (case find (\<lambda>ls. ls_level ls = l) (levels v) of None \<Rightarrow> [] | Some ls \<Rightarrow> ls_tables ls)"
proof -
  have "filter (\<lambda>t. tp_level (properties t) = l) (concat (map ls_tables lss)) =
      (case find (\<lambda>ls. ls_level ls = l) lss of None \<Rightarrow> [] | Some ls \<Rightarrow> ls_tables ls)"
    if "\<forall>ls\<in>set lss. level_ok ls" "sorted_wrt (<) (map ls_level lss)" for lss
    using that
  proof (induction lss)
    case (Cons ls lss)
    have lev: "\<forall>t\<in>set (ls_tables ls). tp_level (properties t) = ls_level ls"
      using Cons.prems(1) by (simp add: level_ok_def)
    have later: "find (\<lambda>ls. ls_level ls = ls_level ls0) lss = None" if "ls0 = ls" for ls0
      using Cons.prems(2) that by (auto simp: find_None_iff)
    show ?case
    proof (cases "ls_level ls = l")
      case True
      then show ?thesis using Cons lev later [OF refl] by (simp add: filter_True True [symmetric])
    next
      case False
      then have "filter (\<lambda>t. tp_level (properties t) = l) (ls_tables ls) = []"
        using lev by (simp add: filter_empty_conv)
      then show ?thesis using Cons False by simp
    qed
  qed simp
  then show ?thesis using assms by (simp add: version_ok_def table_handles_def)
qed

lemma with_added_l0_table_total:
  assumes "version_ok v" "tp_level (properties t) = 0"
  shows "\<exists>v'. with_added_l0_table v t = Inr v'"
proof -
  have "disjoint_tables (filter (\<lambda>t. tp_level (properties t) = l) (table_handles v @ [t]))" if "l \<noteq> 0" for l
  proof (cases "find (\<lambda>ls. ls_level ls = l) (levels v)")
    case None
    then show ?thesis
      using that assms(2) by (simp add: version_level_filter [OF assms(1)] disjoint_tables_def)
  next
    case (Some ls)
    then have "ls \<in> set (levels v)" "ls_level ls = l" by (auto simp: find_Some_iff)
    then show ?thesis
      using Some that assms by (auto simp: version_level_filter [OF assms(1)] version_ok_def level_ok_def)
  qed
  then show ?thesis using lsm_version_new_complete assms(2) by (simp add: with_added_l0_table_def)
qed

section \<open>Lookups consult every table that can hold the key\<close>

lemma disjoint_table_for_key:
  assumes "disjoint_tables (ls_tables ls)" "t \<in> set (ls_tables ls)" "key_bounds_may_contain_key t key"
  shows "table_for_key ls key = Some t"
proof -
  let ?P = "\<lambda>t. has_key_bounds t \<and> largest_user_key (properties t) < key"
  obtain xs ys where ts: "ls_tables ls = xs @ t # ys" using assms(2) by (meson split_list)
  have t: "\<not> ?P t" using assms(3) by (auto simp: key_bounds_may_contain_key_def split: if_splits)
  have "?P x" if x: "x \<in> set xs" for x
  proof -
    have "1 < length (ls_tables ls)" using x by (cases xs) (auto simp: ts)
    then have b: "has_key_bounds x" "has_key_bounds t"
      using assms(1) x by (auto simp: disjoint_tables_def ts)
    have "largest_user_key (properties x) < smallest_user_key (properties t)"
      using assms(1) x b by (auto simp: disjoint_tables_def ts sorted_wrt_append)
    also have "\<dots> \<le> key" using assms(3) b(2) by (simp add: key_bounds_may_contain_key_def)
    finally show ?thesis using b(1) by simp
  qed
  then have "partition_point ?P (ls_tables ls) = length xs"
    using t by (simp add: partition_point_def ts takeWhile_append)
  then show ?thesis
    using assms(3) by (simp add: table_for_key_def ts nth_opt_def)
qed

lemma table_for_key_mem:
  "table_for_key ls key = Some t \<Longrightarrow> t \<in> set (ls_tables ls) \<and> key_bounds_may_contain_key t key"
  by (auto simp: table_for_key_def Let_def nth_opt_def split: Option.bind_splits if_splits)

lemma set_table_for_key:
  "disjoint_tables (ls_tables ls) \<Longrightarrow>
   {t \<in> set (ls_tables ls). key_bounds_may_contain_key t key} = set_option (table_for_key ls key)"
  using disjoint_table_for_key [of ls _ key] table_for_key_mem [of ls key] by fastforce

lemma table_may_contain_bounds: "table_may_contain_key t key \<Longrightarrow> key_bounds_may_contain_key t key"
  by (auto simp: table_may_contain_key_def split: if_splits)

lemma set_concat_filter:
  "(\<And>x. x \<in> set xs \<Longrightarrow> set (f x) = {y \<in> set (g x). P y}) \<Longrightarrow>
   set (concat (map f xs)) = {y \<in> set (concat (map g xs)). P y}"
  by auto

lemma set_point_lookup_tables:
  assumes "version_ok v"
  shows "set (point_lookup_tables v key) = {t \<in> set (table_handles v). table_may_contain_key t key}"
proof -
  have "set (if ls_level ls = 0
       then filter (\<lambda>t. key_bounds_may_contain_key t key \<and> table_may_contain_key t key) (ls_tables ls)
       else case table_for_key ls key of None \<Rightarrow> []
            | Some t \<Rightarrow> if table_may_contain_key t key then [t] else []) =
      {t \<in> set (ls_tables ls). table_may_contain_key t key}" if "ls \<in> set (levels v)" for ls
  proof (cases "ls_level ls = 0")
    case True
    then show ?thesis using table_may_contain_bounds by auto
  next
    case False
    then have "disjoint_tables (ls_tables ls)"
      using assms that by (auto simp: version_ok_def level_ok_def)
    note only = set_table_for_key [OF this, of key]
    show ?thesis
    proof (cases "table_for_key ls key")
      case None
      then show ?thesis using only False table_may_contain_bounds by auto
    next
      case (Some t)
      then have "table_may_contain_key x key \<Longrightarrow> x \<in> set (ls_tables ls) \<Longrightarrow> x = t" for x
        using only table_may_contain_bounds [of x key] by auto
      then show ?thesis using Some only False by auto
    qed
  qed
  then show ?thesis
    unfolding point_lookup_tables_def table_handles_def by (rule set_concat_filter)
qed

lemma set_range_tombstone_tables_for_key:
  assumes "version_ok v"
  shows "set (range_tombstone_tables_for_key v key) =
    {t \<in> set (table_handles v). may_have_range_tombstones t \<and> key_bounds_may_contain_key t key}"
proof -
  have "set (if ls_level ls = 0
       then filter (\<lambda>t. may_have_range_tombstones t \<and> key_bounds_may_contain_key t key) (ls_tables ls)
       else case table_for_key ls key of None \<Rightarrow> []
            | Some t \<Rightarrow> if may_have_range_tombstones t \<and> key_bounds_may_contain_key t key then [t] else []) =
      {t \<in> set (ls_tables ls). may_have_range_tombstones t \<and> key_bounds_may_contain_key t key}"
    if "ls \<in> set (levels v)" for ls
  proof (cases "ls_level ls = 0")
    case False
    then have "disjoint_tables (ls_tables ls)"
      using assms that by (auto simp: version_ok_def level_ok_def)
    note only = set_table_for_key [OF this, of key]
    show ?thesis
    proof (cases "table_for_key ls key")
      case None
      then show ?thesis using only False by auto
    next
      case (Some t)
      then show ?thesis using only False by auto
    qed
  qed auto
  then show ?thesis
    unfolding range_tombstone_tables_for_key_def table_handles_def by (rule set_concat_filter)
qed

lemma fold_result_append: "fold_result f (xs @ ys) c = and_then (fold_result f xs c) (fold_result f ys)"
  by (induction xs arbitrary: c) (auto simp: and_then_def split: sum.splits)

lemma fold_result_concat:
  "fold_result f (concat (map g xs)) c = fold_result (\<lambda>x. fold_result f (g x)) xs c"
  by (induction xs arbitrary: c) (auto simp: fold_result_append and_then_def split: sum.splits)

lemma fold_result_cong: "(\<And>x c. x \<in> set xs \<Longrightarrow> f x c = g x c) \<Longrightarrow> fold_result f xs c = fold_result g xs c"
  by (induction xs arbitrary: c) (auto simp: and_then_def split: sum.splits)

lemma for_each_point_lookup_table_eq:
  "for_each_point_lookup_table v key should_probe visit c =
   fold_result (\<lambda>t c. if should_probe t c then visit t c else Inr c) (point_lookup_tables v key) c"
proof -
  let ?f = "\<lambda>t c. if should_probe t c then visit t c else Inr c"
  let ?g = "\<lambda>t c. if \<not> key_bounds_may_contain_key t key then Inr c else if \<not> should_probe t c then Inr c
              else if table_may_contain_key t key then visit t c else Inr c"
  let ?p = "\<lambda>t. key_bounds_may_contain_key t key \<and> table_may_contain_key t key"
  have l0: "fold_result ?g ts c = fold_result ?f (filter ?p ts) c" for ts c
  proof (induction ts arbitrary: c)
    case (Cons t ts)
    have "fold_result ?g ts = fold_result ?f (filter ?p ts)" using Cons by (rule ext)
    then show ?case by simp
  qed simp
  show ?thesis
    unfolding for_each_point_lookup_table_def point_lookup_tables_def fold_result_concat l0
    by (rule fold_result_cong) (auto simp: and_then_def split: option.splits sum.splits)
qed

lemma with_added_l0_table_Ok:
  assumes "with_added_l0_table v t = Inr v'"
  shows "version_ok v'" "set (table_handles v') = insert t (set (table_handles v))"
    "tp_level (properties t) = 0"
proof -
  have new: "tp_level (properties t) = 0" "lsm_version_new (table_handles v @ [t]) = Inr v'"
    using assms by (auto simp: with_added_l0_table_def split: if_splits)
  show "version_ok v'" "tp_level (properties t) = 0" using lsm_version_new_Ok [OF new(2)] new(1) by auto
  show "set (table_handles v') = insert t (set (table_handles v))"
    using mset_eq_setD [OF lsm_version_new_Ok(2) [OF new(2)]] by auto
qed

lemma with_replaced_tables_Ok:
  assumes "with_replaced_tables v ids outputs = Inr (v', removed)"
  shows "version_ok v'" "removed = filter (\<lambda>t. tp_id (properties t) \<in> set ids) (table_handles v)"
    "mset (table_handles v') + mset removed = mset (table_handles v) + mset outputs"
proof -
  let ?ts = "filter (\<lambda>t. tp_id (properties t) \<notin> set ids) (table_handles v)"
  have new: "lsm_version_new (?ts @ outputs) = Inr v'"
    and removed: "removed = filter (\<lambda>t. tp_id (properties t) \<in> set ids) (table_handles v)"
    using assms by (auto simp: with_replaced_tables_def Let_def and_then_eq_Inr_iff split: if_splits)
  show "version_ok v'" by (rule lsm_version_new_Ok(1) [OF new])
  show "removed = filter (\<lambda>t. tp_id (properties t) \<in> set ids) (table_handles v)" by (rule removed)
  show "mset (table_handles v') + mset removed = mset (table_handles v) + mset outputs"
    using lsm_version_new_Ok(2) [OF new] multiset_partition [of "mset (table_handles v)" "\<lambda>t. tp_id (properties t) \<in> set ids"]
    by (simp add: removed ac_simps)
qed

lemma sample_level_table:
  fixes id :: u64 and level :: u32
  shows
  "\<exists>t. write_table_with_backend (\<lambda>_ _ xs. Inr xs) (\<lambda>_. 100) id level plain_options sample_records [] = Inr t \<and>
     table_wf t \<and> table_records t = sample_records \<and> tbl_range_tombstones t = [] \<and>
     properties t = table_properties_of id level (wo_codec plain_options) sample_records []"
proof -
  have ok: "btree_ok sample_records"
    by (simp add: sample_records_def btree_ok_def less_internal_key_def internal_key_cmp_def order_simps)
  have "sort_point_records_if_needed sample_records = sample_records"
    using ok by (simp add: sort_point_records_if_needed_def btree_ok_def strict_sorted_iff)
  then show ?thesis
    using write_table_wf [of sample_records "[]" "\<lambda>_ _ xs. Inr xs" plain_options id sample_records "\<lambda>_. 100" level] ok
    by (auto simp: sample_records_def)
qed

lemma sample_version:
  "\<exists>t v. write_table_with_backend (\<lambda>_ _ xs. Inr xs) (\<lambda>_. 100) 1 1 plain_options sample_records [] = Inr t \<and>
     table_wf t \<and> table_records t = sample_records \<and> tbl_range_tombstones t = [] \<and>
     tp_id (properties t) = 1 \<and> lsm_version_new [t] = Inr v"
proof -
  obtain t where t: "write_table_with_backend (\<lambda>_ _ xs. Inr xs) (\<lambda>_. 100) 1 1 plain_options sample_records [] = Inr t"
    "table_wf t" "table_records t = sample_records" "tbl_range_tombstones t = []"
    "properties t = table_properties_of 1 1 (wo_codec plain_options) sample_records []"
    using sample_level_table [of 1 1] by blast
  have "tp_id (properties t) = 1" "tp_level (properties t) = 1"
    "smallest_user_key (properties t) \<le> largest_user_key (properties t)"
    by (simp_all add: t(5) table_properties_of_def sample_records_def table_key_bounds_def Let_def
        update_smallest_def update_largest_def split: prod.splits)
  then have "\<exists>v. lsm_version_new [t] = Inr v"
    by (simp add: lsm_version_new_def push_by_level_def level_state_new_def validate_non_overlapping_level_def
        validate_table_key_bounds_def and_then_def sort_by_def not_less)
  with t \<open>tp_id (properties t) = 1\<close> show ?thesis by blast
qed

section \<open>Properties\<close>

text \<open>C14: A version that is installed holds exactly the tables it was built from, its levels are in
  increasing order, level zero is ordered from the newest to the oldest table, and the tables of every
  deeper level are ordered by key with bounds that do not touch, an unbounded table being alone in its
  level.\<close>
theorem version_layout:
  assumes "lsm_version_new ts = Ok v"
  shows "mset (table_handles v) = mset ts \<and> sorted_wrt (<) (map ls_level (levels v)) \<and>
    (\<forall>ls\<in>set (levels v).
       (\<forall>t\<in>set (ls_tables ls). tp_level (properties t) = ls_level ls) \<and>
       (ls_level ls = 0 \<longrightarrow>
          sorted_wrt (\<lambda>a b. largest_sequence (properties b) \<le> largest_sequence (properties a)) (ls_tables ls)) \<and>
       (ls_level ls \<noteq> 0 \<longrightarrow> (1 < length (ls_tables ls) \<longrightarrow> (\<forall>t\<in>set (ls_tables ls). has_key_bounds t)) \<and>
          sorted_wrt (\<lambda>a b. has_key_bounds a \<and> has_key_bounds b \<longrightarrow>
            largest_user_key (properties a) < smallest_user_key (properties b)) (ls_tables ls)))"
proof -
  have ok: "version_ok v" "mset (table_handles v) = mset ts" using lsm_version_new_Ok [OF assms] by auto
  have newest: "largest_sequence (properties b) \<le> largest_sequence (properties a)"
    if "compare_l0_tables_for_reads a b \<noteq> Greater" "tp_level (properties a) = tp_level (properties b)" for a b
    using that by (auto simp: compare_l0_tables_for_reads_def order_simps split: if_splits)
  show ?thesis
  proof (intro conjI ballI impI)
    fix ls assume ls: "ls \<in> set (levels v)"
    then have lev: "\<forall>t\<in>set (ls_tables ls). tp_level (properties t) = ls_level ls"
      using ok(1) by (auto simp: version_ok_def level_ok_def)
    show "sorted_wrt (\<lambda>a b. largest_sequence (properties b) \<le> largest_sequence (properties a)) (ls_tables ls)"
      if "ls_level ls = 0"
    proof -
      have "sorted_by compare_l0_tables_for_reads (ls_tables ls)"
        using ok(1) ls that by (auto simp: version_ok_def level_ok_def)
      then show ?thesis
        unfolding sorted_by_def by (rule sorted_wrt_mono_rel [rotated]) (use newest lev in auto)
    qed
  qed (use ok in \<open>auto simp: version_ok_def level_ok_def disjoint_tables_def\<close>)
qed

theorem version_layout_witness:
  "\<exists>t v. write_table_with_backend (\<lambda>_ _ xs. Ok xs) (\<lambda>_. 100) 1 1 plain_options sample_records [] = Ok t \<and>
     lsm_version_new [t] = Ok v \<and> mset (table_handles v) = {#t#} \<and> sorted_wrt (<) (map ls_level (levels v))"
proof -
  obtain t v where t: "write_table_with_backend (\<lambda>_ _ xs. Inr xs) (\<lambda>_. 100) 1 1 plain_options sample_records [] = Inr t"
    "lsm_version_new [t] = Inr v"
    using sample_version by blast
  then show ?thesis using version_layout [OF t(2)] by auto
qed

text \<open>C11: Through a version built from \<^verbatim>\<open>ts\<close> a point lookup consults exactly the tables whose key bounds
  and filter admit the key, although it probes only one table of each deeper level, and the tombstone
  check consults exactly the tables that may hold tombstones and whose bounds admit the key.\<close>
theorem version_lookup_complete:
  assumes "lsm_version_new ts = Ok v"
  shows "set (point_lookup_tables v key) = {t \<in> set ts. table_may_contain_key t key} \<and>
    set (range_tombstone_tables_for_key v key) =
      {t \<in> set ts. may_have_range_tombstones t \<and> key_bounds_may_contain_key t key}"
proof -
  have "version_ok v" and m: "mset (table_handles v) = mset ts" using lsm_version_new_Ok [OF assms] by auto
  then show ?thesis
    using set_point_lookup_tables set_range_tombstone_tables_for_key mset_eq_setD [OF m] by simp
qed

theorem version_lookup_complete_witness:
  "\<exists>t v. write_table_with_backend (\<lambda>_ _ xs. Ok xs) (\<lambda>_. 100) 1 1 plain_options sample_records [] = Ok t \<and>
     lsm_version_new [t] = Ok v \<and> set (point_lookup_tables v [2]) = {t}"
proof -
  obtain t v where t: "write_table_with_backend (\<lambda>_ _ xs. Inr xs) (\<lambda>_. 100) 1 1 plain_options sample_records [] = Inr t"
    "table_wf t" "table_records t = sample_records" "lsm_version_new [t] = Inr v"
    using sample_version by blast
  have "table_may_contain_key t [2]"
    using t(2,3) by (auto simp: table_wf_def sample_records_def)
  then show ?thesis using version_lookup_complete [OF t(4), of "[2]"] t(1,4) by auto
qed

end
