(* ===== verification/Lsm_Delta.thy ===== *)
theory Lsm_Delta
  imports Memtable Write_Batch
begin

text \<open>
  The in-memory deltas of a tree (\<^verbatim>\<open>src/src/lsm/delta.rs\<close>). A database without storage publishes every
  commit as one delta per shard that it touches, instead of writing to the active memtable. Keys are
  spread over sixteen shards by a hash; a range deletion goes to every shard. A shard merges its chain
  of deltas into one when the chain or its byte estimate reaches the budget. Locks and the counters
  that only tests read are not modelled.

  Shown here: publication keeps the shards well formed and every chain shorter than the limit; the
  shard that a reader of a key consults holds, afterwards, what it held before and the operations of
  the commit that concern the key, whether or not the chain was merged.
\<close>

section \<open>State\<close>

definition DELTA_SHARD_COUNT :: usize where "DELTA_SHARD_COUNT = 16"
definition DELTA_EPOCH_MAX_DELTAS :: usize where "DELTA_EPOCH_MAX_DELTAS = 8"

record in_memory_delta =
  d_memtable :: memtable
  d_range_tombstones :: "range_tombstone list"
  d_estimated_bytes :: u64
  d_sequence :: sequence

record delta_epoch =
  deltas :: "in_memory_delta list"
  epoch_bytes :: u64

record delta_shard_state =
  open_epoch :: delta_epoch
  sealed_epoch_count :: u64
  merged_epoch_count :: u64
  retired_delta_count :: u64

record delta_builder =
  b_memtable :: memtable
  b_range_tombstones :: "range_tombstone list"
  b_range_tombstone_bytes :: u64

type_synonym delta_shard_set = "delta_shard_state list"

definition delta_epoch_default :: delta_epoch where
  "delta_epoch_default = \<lparr>deltas = [], epoch_bytes = 0\<rparr>"

definition delta_shard_default :: delta_shard_state where
  "delta_shard_default =
     \<lparr>open_epoch = delta_epoch_default, sealed_epoch_count = 0, merged_epoch_count = 0,
      retired_delta_count = 0\<rparr>"

definition delta_shard_set_new :: delta_shard_set where
  "delta_shard_set_new = replicate DELTA_SHARD_COUNT delta_shard_default"

section \<open>Building the deltas of a commit\<close>

definition stable_key_hash :: "bytes \<Rightarrow> u64" where
  "stable_key_hash key =
     foldl (\<lambda>hash b. (xor hash (ucast b)) * 0x100000001b3) 0xcbf29ce484222325 key"

fun bound_bytes :: "bytes bound \<Rightarrow> u64" where
  "bound_bytes (Included bs) = usize_to_u64_saturating (length bs)"
| "bound_bytes (Excluded bs) = usize_to_u64_saturating (length bs)"
| "bound_bytes Unbounded = 0"

definition delta_range_tombstone_bytes :: "key_range \<Rightarrow> u64" where
  "delta_range_tombstone_bytes rng =
     saturating_add_word (saturating_add_word (bound_bytes (kr_start rng)) (bound_bytes (kr_end rng))) 32"

definition delta_builder_new :: delta_builder where
  "delta_builder_new =
     \<lparr>b_memtable = memtable_default, b_range_tombstones = [], b_range_tombstone_bytes = 0\<rparr>"

definition builder_put :: "bytes \<Rightarrow> bytes \<Rightarrow> sequence \<Rightarrow> u32 \<Rightarrow> delta_builder \<Rightarrow> delta_builder" where
  "builder_put key v sequence bidx b =
     b\<lparr>b_memtable := memtable_insert (b_memtable b) (InternalKey key sequence Put bidx) (Some (Inline v))\<rparr>"

definition builder_delete :: "bytes \<Rightarrow> sequence \<Rightarrow> u32 \<Rightarrow> delta_builder \<Rightarrow> delta_builder" where
  "builder_delete key sequence bidx b =
     b\<lparr>b_memtable := memtable_insert (b_memtable b) (InternalKey key sequence PointDelete bidx) None\<rparr>"

definition builder_delete_range :: "key_range \<Rightarrow> sequence \<Rightarrow> u32 \<Rightarrow> delta_builder \<Rightarrow> delta_builder" where
  "builder_delete_range rng sequence bidx b =
     b\<lparr>b_range_tombstone_bytes :=
         saturating_add_word (b_range_tombstone_bytes b) (delta_range_tombstone_bytes rng),
       b_range_tombstones :=
         insert_sorted rt_range (b_range_tombstones b)
           \<lparr>rt_range = rng, rt_sequence = sequence, rt_batch_index = bidx\<rparr>\<rparr>"

definition builder_finish :: "delta_builder \<Rightarrow> sequence \<Rightarrow> in_memory_delta option" where
  "builder_finish b sequence =
     (let estimated = saturating_add_word (mt_estimated_bytes (b_memtable b)) (b_range_tombstone_bytes b)
      in if estimated = 0 then None
         else Some \<lparr>d_memtable = b_memtable b, d_range_tombstones = b_range_tombstones b,
                    d_estimated_bytes = estimated, d_sequence = sequence\<rparr>)"

section \<open>Epochs and shards\<close>

definition epoch_push :: "in_memory_delta \<Rightarrow> delta_epoch \<Rightarrow> delta_epoch" where
  "epoch_push d e =
     e\<lparr>epoch_bytes := saturating_add_word (epoch_bytes e) (d_estimated_bytes d), deltas := deltas e @ [d]\<rparr>"

definition merge_delta ::
  "in_memory_delta \<Rightarrow> memtable \<times> range_tombstone list \<times> u64 \<times> sequence \<Rightarrow>
   memtable \<times> range_tombstone list \<times> u64 \<times> sequence" where
  "merge_delta d = (\<lambda>(m, tombstones, bytes, sequence).
     (fold (\<lambda>(ik, v) m. memtable_insert m ik v) (mt_entries (d_memtable d)) m,
      tombstones @ d_range_tombstones d,
      fold (\<lambda>t bytes. saturating_add_word bytes (delta_range_tombstone_bytes (rt_range t)))
        (d_range_tombstones d) bytes,
      max sequence (d_sequence d)))"

definition merge_deltas :: "in_memory_delta list \<Rightarrow> in_memory_delta" where
  "merge_deltas ds =
     (let (m, tombstones, bytes, sequence) = fold merge_delta ds (memtable_default, [], 0, 0)
      in \<lparr>d_memtable = m, d_range_tombstones = sort_tombstones rt_range tombstones,
          d_estimated_bytes = saturating_add_word (mt_estimated_bytes m) bytes, d_sequence = sequence\<rparr>)"

definition seal_and_merge_open_epoch :: "delta_shard_state \<Rightarrow> delta_shard_state" where
  "seal_and_merge_open_epoch st =
     (if length (deltas (open_epoch st)) \<le> 1 then st
      else
        let sealed = open_epoch st;
            retired = usize_to_u64_saturating (length (deltas sealed));
            merged = merge_deltas (deltas sealed)
        in \<lparr>open_epoch = epoch_push merged delta_epoch_default,
            sealed_epoch_count = saturating_add_word (sealed_epoch_count st) 1,
            merged_epoch_count = saturating_add_word (merged_epoch_count st) 1,
            retired_delta_count = saturating_add_word (retired_delta_count st) retired\<rparr>)"

definition open_epoch_exceeds_budget :: "delta_shard_state \<Rightarrow> u64 \<Rightarrow> bool" where
  "open_epoch_exceeds_budget st max_epoch_bytes =
     (length (deltas (open_epoch st)) \<ge> DELTA_EPOCH_MAX_DELTAS \<or>
      epoch_bytes (open_epoch st) \<ge> max_epoch_bytes)"

definition shard_publish :: "delta_shard_state \<Rightarrow> in_memory_delta \<Rightarrow> u64 \<Rightarrow> delta_shard_state" where
  "shard_publish st d max_epoch_bytes =
     (let st = st\<lparr>open_epoch := epoch_push d (open_epoch st)\<rparr>
      in if open_epoch_exceeds_budget st max_epoch_bytes then seal_and_merge_open_epoch st else st)"

section \<open>The shard set\<close>

definition shard_index_for_key :: "usize \<Rightarrow> bytes \<Rightarrow> usize" where
  "shard_index_for_key shard_count key = unat (stable_key_hash key mod word_of_nat shard_count)"

fun builders_step ::
  "usize \<Rightarrow> sequence \<Rightarrow> batch_operation \<times> u32 \<Rightarrow> delta_builder list \<Rightarrow> delta_builder list" where
  "builders_step shard_count sequence (OpPut _ key v, bidx) bs =
     (let i = shard_index_for_key shard_count key
      in bs[i := builder_put key v sequence bidx (bs ! i)])"
| "builders_step shard_count sequence (OpDelete _ key, bidx) bs =
     (let i = shard_index_for_key shard_count key
      in bs[i := builder_delete key sequence bidx (bs ! i)])"
| "builders_step shard_count sequence (OpDeleteRange _ rng, bidx) bs =
     map (builder_delete_range rng sequence bidx) bs"

definition publish_operations_with_budget ::
  "delta_shard_set \<Rightarrow> (batch_operation \<times> u32) list \<Rightarrow> sequence \<Rightarrow> u64 \<Rightarrow> delta_shard_set" where
  "publish_operations_with_budget shards ops sequence max_epoch_bytes =
     (let builders = fold (builders_step (length shards) sequence) ops
                       (replicate (length shards) delta_builder_new)
      in map (\<lambda>(shard, b). case builder_finish b sequence of
                             None \<Rightarrow> shard
                           | Some d \<Rightarrow> shard_publish shard d max_epoch_bytes) (zip shards builders))"

definition shard_snapshot :: "delta_shard_state \<Rightarrow> in_memory_delta list" where
  "shard_snapshot st = deltas (open_epoch st)"

definition snapshot_all :: "delta_shard_set \<Rightarrow> in_memory_delta list" where
  "snapshot_all shards = concat (map shard_snapshot shards)"

definition snapshot_for_key :: "delta_shard_set \<Rightarrow> bytes \<Rightarrow> in_memory_delta list" where
  "snapshot_for_key shards key = shard_snapshot (shards ! shard_index_for_key (length shards) key)"

definition snapshot_for_keys :: "delta_shard_set \<Rightarrow> bytes list \<Rightarrow> in_memory_delta list" where
  "snapshot_for_keys shards keys =
     (let selected = fold (\<lambda>key sel. sel[shard_index_for_key (length shards) key := True]) keys
                       (replicate (length shards) False)
      in concat (map (\<lambda>(shard, s). if s then shard_snapshot shard else []) (zip shards selected)))"

definition delta_set_estimated_bytes :: "delta_shard_set \<Rightarrow> u64" where
  "delta_set_estimated_bytes shards =
     fold (\<lambda>shard bytes. saturating_add_word bytes (epoch_bytes (open_epoch shard))) shards 0"

section \<open>What operations stand for\<close>

fun op_record :: "sequence \<Rightarrow> batch_operation \<times> u32 \<Rightarrow> point_record option" where
  "op_record s (OpPut _ key v, i) = Some (InternalKey key s Put i, Some (Inline v))"
| "op_record s (OpDelete _ key, i) = Some (InternalKey key s PointDelete i, None)"
| "op_record s (OpDeleteRange _ _, i) = None"

fun op_tombstone :: "sequence \<Rightarrow> batch_operation \<times> u32 \<Rightarrow> range_tombstone option" where
  "op_tombstone s (OpDeleteRange _ rng, i) = Some \<lparr>rt_range = rng, rt_sequence = s, rt_batch_index = i\<rparr>"
| "op_tombstone s (_, i) = None"

definition op_records :: "sequence \<Rightarrow> (batch_operation \<times> u32) list \<Rightarrow> point_record list" where
  "op_records s ops = List.map_filter (op_record s) ops"

definition op_tombstones :: "sequence \<Rightarrow> (batch_operation \<times> u32) list \<Rightarrow> range_tombstone list" where
  "op_tombstones s ops = List.map_filter (op_tombstone s) ops"

lemma op_records_simps [simp]:
  "op_records s [] = []"
  "op_records s (op # ops) = (case op_record s op of None \<Rightarrow> op_records s ops | Some r \<Rightarrow> r # op_records s ops)"
  by (simp_all add: op_records_def map_filter_simps split: option.split)

lemma op_tombstones_simps [simp]:
  "op_tombstones s [] = []"
  "op_tombstones s (op # ops) =
     (case op_tombstone s op of None \<Rightarrow> op_tombstones s ops | Some t \<Rightarrow> t # op_tombstones s ops)"
  by (simp_all add: op_tombstones_def map_filter_simps split: option.split)

lemma op_record_Some:
  "op_record s op = Some r \<Longrightarrow> ik_sequence (fst r) = s \<and> batch_index (fst r) = snd op"
  by (cases "(s, op)" rule: op_record.cases) auto

lemma op_records_sequence: "r \<in> set (op_records s ops) \<Longrightarrow> ik_sequence (fst r) = s"
  by (induction ops) (auto split: option.splits dest: op_record_Some)

lemma op_records_indices: "r \<in> set (op_records s ops) \<Longrightarrow> batch_index (fst r) \<in> set (map snd ops)"
  by (induction ops) (auto split: option.splits dest: op_record_Some)

lemma op_records_distinct: "distinct (map snd ops) \<Longrightarrow> distinct (map fst (op_records s ops))"
proof (induction ops)
  case (Cons op ops)
  have "snd op \<notin> snd ` set ops" using Cons by auto
  then have "fst r \<notin> fst ` set (op_records s ops)" if "op_record s op = Some r" for r
    using op_record_Some [OF that] op_records_indices [of _ s ops] by fastforce
  then show ?case using Cons by (auto split: option.splits)
qed simp

section \<open>Inserting many records\<close>

abbreviation insert_all :: "point_record list \<Rightarrow> memtable \<Rightarrow> memtable" where
  "insert_all es m \<equiv> fold (\<lambda>(ik, v) m. memtable_insert m ik v) es m"

lemma memtable_insert_btree: "btree_ok (mt_entries m) \<Longrightarrow> btree_ok (mt_entries (memtable_insert m k v))"
  by (simp add: memtable_insert_def Let_def)

lemma insert_all_entries:
  assumes "btree_ok (mt_entries m)" "distinct (map fst es)" "fst ` set es \<inter> fst ` set (mt_entries m) = {}"
  shows "btree_ok (mt_entries (insert_all es m)) \<and>
    set (mt_entries (insert_all es m)) = set (mt_entries m) \<union> set es"
  using assms
proof (induction es arbitrary: m)
  case (Cons e es)
  obtain k v where e: "e = (k, v)" by fastforce
  have set: "set (mt_entries (memtable_insert m k v)) = insert e (set (mt_entries m))"
    using memtable_insert_entries [OF Cons.prems(1)] Cons.prems(3) by (force simp: e)
  have "btree_ok (mt_entries (insert_all es (memtable_insert m k v))) \<and>
      set (mt_entries (insert_all es (memtable_insert m k v))) = set (mt_entries (memtable_insert m k v)) \<union> set es"
    by (rule Cons.IH [OF memtable_insert_btree]) (use Cons.prems set in \<open>auto simp: e\<close>)
  then show ?case by (simp add: e set)
qed simp

lemma entries_bytes_insert_le:
  "btree_ok es \<Longrightarrow> entries_bytes (btree_insert k v es) \<le> entries_bytes es + unat (entry_bytes k v)"
  using entries_bytes_btree_insert [of es k v] by linarith

lemma insert_all_ok:
  assumes "memtable_ok m" "entries_bytes (mt_entries m) + entries_bytes es < 2 ^ 64"
  shows "memtable_ok (insert_all es m) \<and>
    entries_bytes (mt_entries (insert_all es m)) \<le> entries_bytes (mt_entries m) + entries_bytes es"
  using assms
proof (induction es arbitrary: m)
  case (Cons e es)
  obtain k v where e: "e = (k, v)" by fastforce
  have le: "entries_bytes (mt_entries (memtable_insert m k v)) \<le> entries_bytes (mt_entries m) + unat (entry_bytes k v)"
    using entries_bytes_insert_le Cons.prems(1) by (simp add: memtable_insert_def Let_def memtable_ok_def)
  then have ok: "memtable_ok (memtable_insert m k v)"
    "entries_bytes (mt_entries (memtable_insert m k v)) + entries_bytes es < 2 ^ 64"
    using Cons.prems by (auto simp: e intro!: memtable_insert_ok)
  show ?case using Cons.IH [OF ok] le by (simp add: e)
qed simp

lemma insert_all_concat:
  "fold (\<lambda>xs. insert_all (f xs)) xss m = insert_all (concat (map f xss)) m"
  by (induction xss arbitrary: m) auto

section \<open>Builders\<close>

fun builder_apply :: "usize \<Rightarrow> sequence \<Rightarrow> usize \<Rightarrow> batch_operation \<times> u32 \<Rightarrow> delta_builder \<Rightarrow> delta_builder" where
  "builder_apply n s j (OpPut _ key v, i) b = (if shard_index_for_key n key = j then builder_put key v s i b else b)"
| "builder_apply n s j (OpDelete _ key, i) b = (if shard_index_for_key n key = j then builder_delete key s i b else b)"
| "builder_apply n s j (OpDeleteRange _ rng, i) b = builder_delete_range rng s i b"

lemma length_builders_step [simp]: "length (builders_step n s op bs) = length bs"
  by (cases "(n, s, op, bs)" rule: builders_step.cases) (auto simp: Let_def)

lemma builders_step_nth: "j < length bs \<Longrightarrow> builders_step n s op bs ! j = builder_apply n s j op (bs ! j)"
  by (cases "(n, s, j, op, bs ! j)" rule: builder_apply.cases) (auto simp: Let_def nth_list_update)

lemma builders_fold_nth:
  "j < length bs \<Longrightarrow> fold (builders_step n s) ops bs ! j = fold (builder_apply n s j) ops (bs ! j)"
  "length (fold (builders_step n s) ops bs) = length bs"
  by (induction ops arbitrary: bs) (auto simp: builders_step_nth)

definition shard_op_records :: "usize \<Rightarrow> usize \<Rightarrow> sequence \<Rightarrow> (batch_operation \<times> u32) list \<Rightarrow> point_record list" where
  "shard_op_records n j s ops = filter (\<lambda>r. shard_index_for_key n (user_key (fst r)) = j) (op_records s ops)"

lemma saturating_add_zero: "saturating_add_word a b = 0 \<longleftrightarrow> a = 0 \<and> b = (0 :: 'a::len word)"
proof -
  have "unat (saturating_add_word a b) = 0 \<longleftrightarrow> unat a = 0 \<and> unat b = 0"
    using one_less_power [of "2 :: nat" "LENGTH('a)"] by (auto simp: unat_saturating_add_word min_def split: if_splits)
  then show ?thesis by (simp add: unat_eq_0)
qed

lemma delta_range_tombstone_bytes_pos [simp]: "delta_range_tombstone_bytes rng \<noteq> 0"
  by (simp add: delta_range_tombstone_bytes_def saturating_add_zero)

lemma builder_fold:
  "b_memtable (fold (builder_apply n s j) ops b) = insert_all (shard_op_records n j s ops) (b_memtable b)"
  "set (b_range_tombstones (fold (builder_apply n s j) ops b)) = set (b_range_tombstones b) \<union> set (op_tombstones s ops)"
  "b_range_tombstone_bytes (fold (builder_apply n s j) ops b) = 0 \<longleftrightarrow>
     b_range_tombstone_bytes b = 0 \<and> op_tombstones s ops = []"
proof (induction ops arbitrary: b)
  case (Cons op ops)
  { case 1 show ?case
      by (cases "(n, s, j, op, b)" rule: builder_apply.cases)
        (auto simp: Cons shard_op_records_def builder_put_def builder_delete_def builder_delete_range_def) }
  { case 2 show ?case
      by (cases "(n, s, j, op, b)" rule: builder_apply.cases)
        (auto simp: Cons builder_put_def builder_delete_def builder_delete_range_def) }
  { case 3 show ?case
      by (cases "(n, s, j, op, b)" rule: builder_apply.cases)
        (auto simp: Cons builder_put_def builder_delete_def builder_delete_range_def saturating_add_zero) }
qed (auto simp: shard_op_records_def)

section \<open>Invariant\<close>

abbreviation delta_records :: "in_memory_delta \<Rightarrow> point_record set" where
  "delta_records d \<equiv> set (mt_entries (d_memtable d))"

definition chain_records :: "in_memory_delta list \<Rightarrow> point_record set" where
  "chain_records ds = (\<Union>d\<in>set ds. delta_records d)"

definition chain_tombstones :: "in_memory_delta list \<Rightarrow> range_tombstone set" where
  "chain_tombstones ds = (\<Union>d\<in>set ds. set (d_range_tombstones d))"

definition delta_ok :: "in_memory_delta \<Rightarrow> bool" where
  "delta_ok d \<longleftrightarrow>
     memtable_ok (d_memtable d) \<and> (\<forall>e\<in>delta_records d. ik_sequence (fst e) \<le> d_sequence d) \<and>
     (d_estimated_bytes d = 0 \<longrightarrow> mt_estimated_bytes (d_memtable d) = 0)"

text \<open>No version of a key is in two deltas of a chain.\<close>

definition separate :: "point_record set \<Rightarrow> point_record set \<Rightarrow> bool" where
  "separate A B \<longleftrightarrow>
     (\<forall>a\<in>A. \<forall>b\<in>B. \<not> (user_key (fst a) = user_key (fst b) \<and> ik_sequence (fst a) = ik_sequence (fst b)))"

abbreviation chain_separate :: "in_memory_delta list \<Rightarrow> bool" where
  "chain_separate \<equiv> sorted_wrt (\<lambda>a b. separate (delta_records a) (delta_records b))"

definition chain_bytes :: "in_memory_delta list \<Rightarrow> nat" where
  "chain_bytes ds = (\<Sum>d\<leftarrow>ds. entries_bytes (mt_entries (d_memtable d)))"

definition chain_ok :: "usize \<Rightarrow> in_memory_delta list \<Rightarrow> bool" where
  "chain_ok j ds \<longleftrightarrow> (\<forall>d\<in>set ds. delta_ok d) \<and> chain_separate ds \<and>
     (\<forall>e\<in>chain_records ds. shard_index_for_key DELTA_SHARD_COUNT (user_key (fst e)) = j)"

lemma chain_simps [simp]:
  "chain_records [] = {}" "chain_records (d # ds) = delta_records d \<union> chain_records ds"
  "chain_records (ds @ es) = chain_records ds \<union> chain_records es"
  "chain_tombstones [] = {}" "chain_tombstones (d # ds) = set (d_range_tombstones d) \<union> chain_tombstones ds"
  "chain_tombstones (ds @ es) = chain_tombstones ds \<union> chain_tombstones es"
  "chain_bytes [] = 0" "chain_bytes (d # ds) = entries_bytes (mt_entries (d_memtable d)) + chain_bytes ds"
  "chain_bytes (ds @ es) = chain_bytes ds + chain_bytes es"
  by (auto simp: chain_records_def chain_tombstones_def chain_bytes_def)

lemma separate_keys: "separate A B \<Longrightarrow> fst ` A \<inter> fst ` B = {}"
  unfolding separate_def by fastforce

lemma fold_merge_delta:
  "fold merge_delta ds (m, ts, bytes, s) = (m', ts', bytes', s') \<Longrightarrow>
   m' = insert_all (concat (map (\<lambda>d. mt_entries (d_memtable d)) ds)) m \<and>
   set ts' = set ts \<union> chain_tombstones ds \<and> s \<le> s' \<and> (\<forall>d\<in>set ds. d_sequence d \<le> s')"
proof (induction ds arbitrary: m ts bytes s)
  case (Cons d ds)
  from Cons.prems have "fold merge_delta ds (insert_all (mt_entries (d_memtable d)) m,
      ts @ d_range_tombstones d,
      fold (\<lambda>t bytes. saturating_add_word bytes (delta_range_tombstone_bytes (rt_range t)))
        (d_range_tombstones d) bytes, max s (d_sequence d)) = (m', ts', bytes', s')"
    unfolding fold_simps merge_delta_def [of d] prod.case .
  from Cons.IH [OF this] show ?case by (auto simp: max_def split: if_splits)
qed auto

lemma chain_keys_distinct:
  assumes "\<forall>d\<in>set ds. delta_ok d" "chain_separate ds"
  shows "distinct (map fst (concat (map (\<lambda>d. mt_entries (d_memtable d)) ds)))"
  using assms
proof (induction ds)
  case (Cons d ds)
  have "fst ` delta_records d \<inter> fst ` delta_records d' = {}" if "d' \<in> set ds" for d'
    by (rule separate_keys) (use Cons.prems(2) that in simp)
  then have disj: "set (map fst (mt_entries (d_memtable d))) \<inter>
      set (map fst (concat (map (\<lambda>d. mt_entries (d_memtable d)) ds))) = {}"
    unfolding set_map set_concat image_UN by blast
  have "distinct (map fst (mt_entries (d_memtable d)))"
    using Cons.prems(1) by (simp add: delta_ok_def memtable_ok_def btree_ok_def strict_sorted_iff)
  moreover have "distinct (map fst (concat (map (\<lambda>d. mt_entries (d_memtable d)) ds)))"
    by (rule Cons.IH) (use Cons.prems in auto)
  ultimately show ?case using disj unfolding list.map concat.simps map_append distinct_append by blast
qed simp

lemma entries_bytes_append [simp]: "entries_bytes (xs @ ys) = entries_bytes xs + entries_bytes ys"
  by (induction xs) auto

lemma chain_bytes_concat: "chain_bytes ds = entries_bytes (concat (map (\<lambda>d. mt_entries (d_memtable d)) ds))"
  by (induction ds) auto

lemma merge_deltas_ok:
  assumes "\<forall>d\<in>set ds. delta_ok d" "chain_separate ds" "chain_bytes ds < 2 ^ 64"
  shows "delta_ok (merge_deltas ds)" "delta_records (merge_deltas ds) = chain_records ds"
    "set (d_range_tombstones (merge_deltas ds)) = chain_tombstones ds"
proof -
  obtain m ts bytes s where f: "fold merge_delta ds (memtable_default, [], 0, 0) = (m, ts, bytes, s)"
    by (metis prod_cases4)
  let ?es = "concat (map (\<lambda>d. mt_entries (d_memtable d)) ds)"
  have m: "m = insert_all ?es memtable_default" and ts: "set ts = chain_tombstones ds"
    and s: "\<forall>d\<in>set ds. d_sequence d \<le> s"
    using fold_merge_delta [OF f] by auto
  have ok: "memtable_ok m"
    unfolding m using insert_all_ok [of memtable_default ?es] assms(3) by (simp add: chain_bytes_concat)
  have recs: "set (mt_entries m) = chain_records ds"
    using insert_all_entries [of memtable_default ?es] chain_keys_distinct [OF assms(1,2)]
    by (simp add: m chain_records_def btree_ok_def)
  have "ik_sequence (fst e) \<le> s" if "e \<in> chain_records ds" for e
    using that assms(1) s by (fastforce simp: chain_records_def delta_ok_def intro: order_trans)
  then show "delta_ok (merge_deltas ds)" "delta_records (merge_deltas ds) = chain_records ds"
    "set (d_range_tombstones (merge_deltas ds)) = chain_tombstones ds"
    using ok recs ts by (auto simp: merge_deltas_def f delta_ok_def saturating_add_zero)
qed

lemma separate_commute: "separate A B \<longleftrightarrow> separate B A"
  unfolding separate_def by metis

lemma chain_ok_append1:
  assumes "chain_ok j ds" "delta_ok d" "separate (chain_records ds) (delta_records d)"
    "\<forall>e\<in>delta_records d. shard_index_for_key DELTA_SHARD_COUNT (user_key (fst e)) = j"
  shows "chain_ok j (ds @ [d])"
proof -
  have "separate (delta_records a) (delta_records d)" if "a \<in> set ds" for a
    using assms(3) that unfolding separate_def chain_records_def by blast
  then show ?thesis
    using assms unfolding chain_ok_def by (auto simp: sorted_wrt_append)
qed

definition shard_ok :: "usize \<Rightarrow> delta_shard_state \<Rightarrow> bool" where
  "shard_ok j st \<longleftrightarrow> chain_ok j (shard_snapshot st) \<and> length (shard_snapshot st) < DELTA_EPOCH_MAX_DELTAS"

lemma shard_publish_ok:
  assumes st: "shard_ok j st" and d: "delta_ok d" "separate (chain_records (shard_snapshot st)) (delta_records d)"
    "\<forall>e\<in>delta_records d. shard_index_for_key DELTA_SHARD_COUNT (user_key (fst e)) = j"
    and bytes: "chain_bytes (shard_snapshot st @ [d]) < 2 ^ 64"
  shows "shard_ok j (shard_publish st d mx)"
    "chain_records (shard_snapshot (shard_publish st d mx)) = chain_records (shard_snapshot st) \<union> delta_records d"
    "chain_tombstones (shard_snapshot (shard_publish st d mx)) =
       chain_tombstones (shard_snapshot st) \<union> set (d_range_tombstones d)"
proof -
  let ?ds = "shard_snapshot st @ [d]"
  have ok: "chain_ok j ?ds" using chain_ok_append1 d st by (simp add: shard_ok_def)
  have "shard_snapshot (shard_publish st d mx) = ?ds \<and> length ?ds < DELTA_EPOCH_MAX_DELTAS \<or>
      shard_snapshot (shard_publish st d mx) = [merge_deltas ?ds]"
    by (auto simp: shard_publish_def Let_def shard_snapshot_def epoch_push_def delta_epoch_default_def
        open_epoch_exceeds_budget_def seal_and_merge_open_epoch_def DELTA_EPOCH_MAX_DELTAS_def)
  moreover have "shard_ok j (shard_publish st d mx)" if "shard_snapshot (shard_publish st d mx) = [merge_deltas ?ds]"
    using ok merge_deltas_ok [of ?ds] bytes
    by (auto simp: shard_ok_def that chain_ok_def DELTA_EPOCH_MAX_DELTAS_def)
  ultimately show "shard_ok j (shard_publish st d mx)"
    using ok by (auto simp: shard_ok_def)
  have merged: "delta_records (merge_deltas ?ds) = chain_records ?ds"
    "set (d_range_tombstones (merge_deltas ?ds)) = chain_tombstones ?ds"
    using merge_deltas_ok [of ?ds] ok bytes by (auto simp: chain_ok_def)
  show "chain_records (shard_snapshot (shard_publish st d mx)) = chain_records (shard_snapshot st) \<union> delta_records d"
    "chain_tombstones (shard_snapshot (shard_publish st d mx)) =
       chain_tombstones (shard_snapshot st) \<union> set (d_range_tombstones d)"
    using \<open>_ \<or> shard_snapshot _ = [merge_deltas ?ds]\<close> merged by auto
qed

text \<open>Every shard holds the same range tombstones, since a range deletion is published to each.\<close>

definition shards_ok :: "delta_shard_set \<Rightarrow> bool" where
  "shards_ok shards \<longleftrightarrow> length shards = DELTA_SHARD_COUNT \<and>
     (\<forall>j<DELTA_SHARD_COUNT. shard_ok j (shards ! j)) \<and>
     (\<forall>j<DELTA_SHARD_COUNT. chain_tombstones (shard_snapshot (shards ! j)) =
        chain_tombstones (shard_snapshot (shards ! 0)))"

definition shards_records :: "delta_shard_set \<Rightarrow> point_record set" where
  "shards_records shards = (\<Union>st\<in>set shards. chain_records (shard_snapshot st))"

definition shards_tombstones :: "delta_shard_set \<Rightarrow> range_tombstone set" where
  "shards_tombstones shards = (\<Union>st\<in>set shards. chain_tombstones (shard_snapshot st))"

lemma shards_ok_new [simp]: "shards_ok delta_shard_set_new"
  by (simp add: shards_ok_def delta_shard_set_new_def shard_ok_def chain_ok_def delta_shard_default_def
      shard_snapshot_def delta_epoch_default_def DELTA_SHARD_COUNT_def DELTA_EPOCH_MAX_DELTAS_def)

lemma shards_new_empty [simp]:
  "shards_records delta_shard_set_new = {}" "shards_tombstones delta_shard_set_new = {}"
  by (simp_all add: shards_records_def shards_tombstones_def delta_shard_set_new_def delta_shard_default_def
      shard_snapshot_def delta_epoch_default_def)

lemma shard_index_less: "shard_index_for_key DELTA_SHARD_COUNT key < DELTA_SHARD_COUNT"
proof -
  have "stable_key_hash key mod 16 < 16" by (rule word_mod_less_divisor) simp
  then show ?thesis
    unfolding shard_index_for_key_def DELTA_SHARD_COUNT_def by (simp add: word_less_nat_alt)
qed

lemma snapshot_for_key_records:
  assumes "shards_ok shards"
  shows "visible_records key s (chain_records (snapshot_for_key shards key)) =
    visible_records key s (shards_records shards)"
proof -
  let ?i = "shard_index_for_key DELTA_SHARD_COUNT key"
  have n: "length shards = DELTA_SHARD_COUNT" using assms by (simp add: shards_ok_def)
  have "shards ! ?i \<in> set shards" using shard_index_less n by simp
  then have "chain_records (snapshot_for_key shards key) \<subseteq> shards_records shards"
    unfolding snapshot_for_key_def shards_records_def n by blast
  moreover have "e \<in> chain_records (snapshot_for_key shards key)"
    if e: "e \<in> shards_records shards" "user_key (fst e) = key" for e
  proof -
    obtain j where j: "j < length shards" "e \<in> chain_records (shard_snapshot (shards ! j))"
      using e(1) by (auto simp: shards_records_def in_set_conv_nth)
    then have "?i = j" using assms n e(2) by (auto simp: shards_ok_def shard_ok_def chain_ok_def)
    then show ?thesis using j(2) by (simp add: snapshot_for_key_def n)
  qed
  ultimately show ?thesis by (auto simp: record_simps)
qed

lemma snapshot_for_key_tombstones:
  assumes "shards_ok shards"
  shows "chain_tombstones (snapshot_for_key shards key) = shards_tombstones shards"
proof -
  let ?T = "\<lambda>j. chain_tombstones (shard_snapshot (shards ! j))"
  have n: "length shards = DELTA_SHARD_COUNT" and eq: "\<And>j. j < DELTA_SHARD_COUNT \<Longrightarrow> ?T j = ?T 0"
    using assms unfolding shards_ok_def by blast+
  have "shards_tombstones shards = (\<Union>j\<in>{..<DELTA_SHARD_COUNT}. ?T j)"
    unfolding shards_tombstones_def set_conv_nth n by blast
  also have "\<dots> = (\<Union>j\<in>{..<DELTA_SHARD_COUNT}. ?T 0)" using eq by (intro SUP_cong) blast+
  also have "\<dots> = ?T 0" by (simp add: DELTA_SHARD_COUNT_def lessThan_empty_iff)
  finally show ?thesis
    unfolding snapshot_for_key_def n using eq [OF shard_index_less [of key]] by (rule trans [OF _ sym, rotated])
qed

section \<open>Publication\<close>

lemma entries_bytes_filter_le: "entries_bytes (filter P es) \<le> entries_bytes es"
  by (induction es) auto

lemma shard_builder:
  fixes s ops j n
  assumes "distinct (map snd ops)" "entries_bytes (op_records s ops) < 2 ^ 64"
  defines "b \<equiv> fold (builder_apply n s j) ops delta_builder_new"
  shows "memtable_ok (b_memtable b)"
    "set (mt_entries (b_memtable b)) = set (shard_op_records n j s ops)"
    "entries_bytes (mt_entries (b_memtable b)) \<le> entries_bytes (op_records s ops)"
    "set (b_range_tombstones b) = set (op_tombstones s ops)"
    "b_range_tombstone_bytes b = 0 \<longleftrightarrow> op_tombstones s ops = []"
proof -
  let ?es = "shard_op_records n j s ops"
  have d: "distinct (map fst ?es)"
    unfolding shard_op_records_def by (rule distinct_map_filter [OF op_records_distinct [OF assms(1)]])
  have le: "entries_bytes ?es \<le> entries_bytes (op_records s ops)"
    unfolding shard_op_records_def by (rule entries_bytes_filter_le)
  have m: "b_memtable b = insert_all ?es memtable_default"
    by (simp add: b_def builder_fold(1) delta_builder_new_def)
  have "memtable_ok (insert_all ?es memtable_default) \<and>
      entries_bytes (mt_entries (insert_all ?es memtable_default)) \<le> 0 + entries_bytes ?es"
    using insert_all_ok [of memtable_default ?es] le assms(2) by simp
  then show "memtable_ok (b_memtable b)"
    "entries_bytes (mt_entries (b_memtable b)) \<le> entries_bytes (op_records s ops)"
    using le by (simp_all add: m)
  show "set (mt_entries (b_memtable b)) = set ?es"
    using insert_all_entries [of memtable_default ?es] d by (simp add: m btree_ok_def)
  show "set (b_range_tombstones b) = set (op_tombstones s ops)"
    "b_range_tombstone_bytes b = 0 \<longleftrightarrow> op_tombstones s ops = []"
    by (simp_all add: b_def builder_fold delta_builder_new_def)
qed

lemma builder_finish_cases:
  assumes "memtable_ok (b_memtable b)" "b_range_tombstone_bytes b = 0 \<longleftrightarrow> b_range_tombstones b = []"
  obtains (empty) "builder_finish b s = None" "mt_entries (b_memtable b) = []" "b_range_tombstones b = []"
    | (delta) d where "builder_finish b s = Some d" "d_memtable d = b_memtable b"
      "d_range_tombstones d = b_range_tombstones b" "d_sequence d = s" "d_estimated_bytes d \<noteq> 0"
proof (cases "builder_finish b s")
  case None
  have "mt_estimated_bytes (b_memtable b) = 0 \<longleftrightarrow> mt_entries (b_memtable b) = []"
    using assms(1) entries_bytes_zero [of "mt_entries (b_memtable b)"] by (auto simp: memtable_ok_def unat_eq_0)
  then show ?thesis
    using None assms(2) empty by (simp add: builder_finish_def Let_def saturating_add_zero split: if_splits)
next
  case (Some d)
  then show ?thesis
    by (intro delta) (auto simp: builder_finish_def Let_def split: if_splits)
qed

lemma publish_nth:
  fixes mx :: u64
  assumes "shards_ok shards" "j < DELTA_SHARD_COUNT" "distinct (map snd ops)"
    and fresh: "separate (shards_records shards) (set (op_records s ops))"
    and bytes: "chain_bytes (shard_snapshot (shards ! j)) + entries_bytes (op_records s ops) < 2 ^ 64"
  defines "st \<equiv> publish_operations_with_budget shards ops s mx ! j"
  shows "shard_ok j st \<and>
    chain_records (shard_snapshot st) =
      chain_records (shard_snapshot (shards ! j)) \<union> set (shard_op_records DELTA_SHARD_COUNT j s ops) \<and>
    chain_tombstones (shard_snapshot st) = chain_tombstones (shard_snapshot (shards ! j)) \<union> set (op_tombstones s ops)"
proof -
  have n: "length shards = DELTA_SHARD_COUNT" and ok: "shard_ok j (shards ! j)"
    using assms(1,2) unfolding shards_ok_def by blast+
  let ?b = "fold (builder_apply DELTA_SHARD_COUNT s j) ops delta_builder_new"
  note b = shard_builder [OF assms(3), of s DELTA_SHARD_COUNT j]
  have st: "st = (case builder_finish ?b s of None \<Rightarrow> shards ! j | Some d \<Rightarrow> shard_publish (shards ! j) d mx)"
    using assms(2) by (simp add: st_def publish_operations_with_budget_def n builders_fold_nth)
  have eb: "entries_bytes (op_records s ops) < 2 ^ 64" using bytes by linarith
  have "b_range_tombstone_bytes ?b = 0 \<longleftrightarrow> b_range_tombstones ?b = []"
    using b(4,5) [OF eb] by (metis set_empty2)
  from b(1) [OF eb] this show ?thesis
  proof (cases rule: builder_finish_cases [where s = s])
    case empty
    then show ?thesis
      using ok b(2,4) [OF eb] by (simp add: st)
  next
    case (delta d)
    have recs: "delta_records d = set (shard_op_records DELTA_SHARD_COUNT j s ops)"
      and ts: "set (d_range_tombstones d) = set (op_tombstones s ops)"
      using delta b(2,4) [OF eb] by simp_all
    have d: "delta_ok d"
      using delta b(1) [OF eb] recs op_records_sequence by (auto simp: delta_ok_def shard_op_records_def)
    have "shards ! j \<in> set shards" using assms(2) n by simp
    then have sep: "separate (chain_records (shard_snapshot (shards ! j))) (delta_records d)"
      using fresh unfolding separate_def shards_records_def recs shard_op_records_def set_filter by blast
    have "chain_bytes (shard_snapshot (shards ! j) @ [d]) < 2 ^ 64"
      using delta(2) b(3) [OF eb] bytes by simp
    moreover have "\<forall>e\<in>delta_records d. shard_index_for_key DELTA_SHARD_COUNT (user_key (fst e)) = j"
      by (simp add: recs shard_op_records_def)
    ultimately show ?thesis
      using shard_publish_ok [OF ok d sep] by (simp add: st delta(1) recs ts)
  qed
qed

lemma UN_set_nth: "(\<Union>x\<in>set xs. f x) = (\<Union>j\<in>{..<length xs}. f (xs ! j))"
  unfolding set_conv_nth by blast

lemma UN_shard_op_records:
  "(\<Union>j\<in>{..<DELTA_SHARD_COUNT}. set (shard_op_records DELTA_SHARD_COUNT j s ops)) = set (op_records s ops)"
  using shard_index_less unfolding shard_op_records_def by fastforce

lemma length_publish [simp]: "length (publish_operations_with_budget shards ops s mx) = length shards"
  by (simp add: publish_operations_with_budget_def builders_fold_nth)

lemma publish_shards:
  assumes "shards_ok shards" "distinct (map snd ops)"
    and fresh: "separate (shards_records shards) (set (op_records s ops))"
    and bytes: "\<forall>st\<in>set shards. chain_bytes (shard_snapshot st) + entries_bytes (op_records s ops) < 2 ^ 64"
  shows "shards_ok (publish_operations_with_budget shards ops s mx)"
    "shards_records (publish_operations_with_budget shards ops s mx) = shards_records shards \<union> set (op_records s ops)"
    "shards_tombstones (publish_operations_with_budget shards ops s mx) =
       shards_tombstones shards \<union> set (op_tombstones s ops)"
proof -
  let ?p = "publish_operations_with_budget shards ops s mx"
  have n: "length shards = DELTA_SHARD_COUNT" using assms(1) by (simp add: shards_ok_def)
  have pub: "shard_ok j (?p ! j)" "chain_records (shard_snapshot (?p ! j)) =
      chain_records (shard_snapshot (shards ! j)) \<union> set (shard_op_records DELTA_SHARD_COUNT j s ops)"
    "chain_tombstones (shard_snapshot (?p ! j)) =
      chain_tombstones (shard_snapshot (shards ! j)) \<union> set (op_tombstones s ops)" if "j < DELTA_SHARD_COUNT" for j
    using publish_nth [OF assms(1) that assms(2) fresh, of mx] bytes that n by simp_all
  have "chain_tombstones (shard_snapshot (?p ! j)) = chain_tombstones (shard_snapshot (?p ! 0))"
    if "j < DELTA_SHARD_COUNT" for j
  proof -
    have "0 < DELTA_SHARD_COUNT" by (simp add: DELTA_SHARD_COUNT_def)
    moreover have "chain_tombstones (shard_snapshot (shards ! j)) = chain_tombstones (shard_snapshot (shards ! 0))"
      using assms(1) that unfolding shards_ok_def by blast
    ultimately show ?thesis unfolding pub(3) [OF that] by (simp only: pub(3))
  qed
  then show "shards_ok ?p" using pub(1) n unfolding shards_ok_def length_publish by blast
  show "shards_records ?p = shards_records shards \<union> set (op_records s ops)"
    unfolding shards_records_def UN_set_nth [of _ ?p] UN_set_nth [of _ shards] length_publish n
      UN_shard_op_records [symmetric] using pub(2) by auto
  show "shards_tombstones ?p = shards_tombstones shards \<union> set (op_tombstones s ops)"
    unfolding shards_tombstones_def UN_set_nth [of _ ?p] UN_set_nth [of _ shards] length_publish n
    using pub(3) by (auto simp: DELTA_SHARD_COUNT_def lessThan_empty_iff)
qed

lemma list_update_True: "j < length sel \<Longrightarrow> sel[i := True] ! j \<longleftrightarrow> sel ! j \<or> i = j"
  by (cases "i = j") auto

lemma selected_nth:
  "j < n \<Longrightarrow> length sel = n \<Longrightarrow>
   fold (\<lambda>key sel. sel[shard_index_for_key n key := True]) keys sel ! j \<longleftrightarrow>
   sel ! j \<or> (\<exists>key\<in>set keys. shard_index_for_key n key = j)"
  "length (fold (\<lambda>key sel. sel[shard_index_for_key n key := True]) keys sel) = length sel"
  by (induction keys arbitrary: sel) (auto simp: list_update_True)

lemma snapshot_for_keys_deltas:
  assumes "length shards = DELTA_SHARD_COUNT"
  shows "set (snapshot_for_keys shards keys) =
    (\<Union>j\<in>{j. j < DELTA_SHARD_COUNT \<and> (\<exists>key\<in>set keys. shard_index_for_key DELTA_SHARD_COUNT key = j)}.
      set (shard_snapshot (shards ! j)))"
proof -
  let ?sel = "fold (\<lambda>key sel. sel[shard_index_for_key (length shards) key := True]) keys (replicate (length shards) False)"
  have "set (snapshot_for_keys shards keys) =
      (\<Union>j\<in>{..<length shards}. if ?sel ! j then set (shard_snapshot (shards ! j)) else {})"
    by (auto simp: snapshot_for_keys_def Let_def set_zip selected_nth(2) split: if_splits)
  then show ?thesis
    by (auto simp: assms selected_nth split: if_splits)
qed

text \<open>C5: Publishing a commit to the in-memory deltas refines adding its records and range tombstones
  to the contents of the shards, merged or not: the shards stay well formed, hold what they held and
  what the operations stand for, and every chain stays shorter than the limit. The sequence is new to
  the keys it writes, the batch indices differ and the byte estimates fit their counters.\<close>
theorem publish_operations_refines:
  assumes "shards_ok shards" "distinct (map snd ops)"
    and "separate (shards_records shards) (set (op_records s ops))"
    and "\<forall>st\<in>set shards. chain_bytes (shard_snapshot st) + entries_bytes (op_records s ops) < 2 ^ 64"
  shows "shards_ok (publish_operations_with_budget shards ops s mx) \<and>
    shards_records (publish_operations_with_budget shards ops s mx) = shards_records shards \<union> set (op_records s ops) \<and>
    shards_tombstones (publish_operations_with_budget shards ops s mx) =
      shards_tombstones shards \<union> set (op_tombstones s ops) \<and>
    (\<forall>st\<in>set (publish_operations_with_budget shards ops s mx). length (shard_snapshot st) < DELTA_EPOCH_MAX_DELTAS)"
proof -
  note p = publish_shards [OF assms, of mx]
  have "length (shard_snapshot st) < DELTA_EPOCH_MAX_DELTAS"
    if "st \<in> set (publish_operations_with_budget shards ops s mx)" for st
    using p(1) that unfolding shards_ok_def shard_ok_def by (metis in_set_conv_nth)
  then show ?thesis using p by blast
qed

theorem publish_operations_refines_witness:
  "shards_records (publish_operations_with_budget delta_shard_set_new
     [(OpPut [] [1] [9], 0), (OpDeleteRange [] (half_open [2] [5]), 1)] 7 0) =
   {(InternalKey [1] 7 Put 0, Some (Inline [9]))} \<and>
   shards_tombstones (publish_operations_with_budget delta_shard_set_new
     [(OpPut [] [1] [9], 0), (OpDeleteRange [] (half_open [2] [5]), 1)] 7 0) =
   {\<lparr>rt_range = half_open [2] [5], rt_sequence = 7, rt_batch_index = 1\<rparr>}"
proof -
  let ?ops = "[(OpPut [] [1] [9], 0), (OpDeleteRange [] (half_open [2] [5]), 1)]"
  have "separate (shards_records delta_shard_set_new) (set (op_records 7 ?ops))"
    by (simp add: separate_def)
  moreover have "\<forall>st\<in>set delta_shard_set_new. chain_bytes (shard_snapshot st) + entries_bytes (op_records 7 ?ops) < 2 ^ 64"
    by (simp add: delta_shard_set_new_def delta_shard_default_def shard_snapshot_def delta_epoch_default_def
        entry_bytes_def saturating_add_word_def usize_to_u64_saturating_def)
  ultimately show ?thesis
    using publish_operations_refines [OF shards_ok_new, of ?ops 7 0] by simp
qed

end
