(* ===== verification/Lsm_Tree.thy ===== *)
theory Lsm_Tree
  imports Lsm_Version Lsm_Delta
begin

text \<open>
  One bucket's tree (\<^verbatim>\<open>src/src/lsm/tree.rs\<close>, \<^verbatim>\<open>lsm/write.rs\<close>, \<^verbatim>\<open>lsm/flush.rs\<close>): active memtable and its
  range tombstones, in-memory deltas, queue of frozen memtables and table version, with the write
  admission gate, operation application, freezing, flush preparation and flush installation. An
  \<^verbatim>\<open>Arc\<close> of a memtable is identified by a number, since a flush finds its memtable in the queue by
  pointer equality. Wakers and the condition variable of the gate are not modelled: a waiting drop is
  the predicate that its wait is over.

  Shown here: every operation keeps the tree invariant and refines an operation on the set of records
  and the set of tombstones that the tree holds; no write is in flight once a drop has drained the
  gate; the oldest unflushed sequence is exact.
\<close>

section \<open>Bucket options\<close>

datatype compression_profile = CompressionNone | CompressionFast

fun profile_codec_id :: "compression_profile \<Rightarrow> codec_id" where
  "profile_codec_id CompressionNone = CodecNone"
| "profile_codec_id CompressionFast = FastLz4Block"

datatype blob_level_merge_policy = BlobMergeDisabled | BlobMergeAuto | BlobMergeAlways

record bucket_options =
  allow_empty_keys :: bool
  compression :: compression_profile
  block_bytes :: usize
  bo_filter_policy :: filter_policy
  bo_prefix_extractor :: prefix_extractor
  bo_prefix_filter_policy :: prefix_filter_policy
  bo_index_search_policy :: index_search_policy
  blob_threshold_bytes :: usize
  bo_blob_level_merge_policy :: blob_level_merge_policy
  bo_filter_depth_curve :: filter_depth_curve

definition bucket_options_default :: bucket_options where
  "bucket_options_default =
     \<lparr>allow_empty_keys = True, compression = CompressionFast, block_bytes = 16 * 1024,
      bo_filter_policy = FilterBloom 10, bo_prefix_extractor = Disabled,
      bo_prefix_filter_policy = PrefixFilterBloom 10, bo_index_search_policy = Auto,
      blob_threshold_bytes = 1024 * 1024, bo_blob_level_merge_policy = BlobMergeAuto,
      bo_filter_depth_curve = CurveAuto\<rparr>"

definition flush_table_write_options :: "bucket_options \<Rightarrow> table_write_options" where
  "flush_table_write_options options =
     \<lparr>wo_codec = profile_codec_id (compression options), wo_block_bytes = block_bytes options,
      wo_filter_policy = bo_filter_policy options, wo_prefix_extractor = bo_prefix_extractor options,
      wo_prefix_filter_policy = bo_prefix_filter_policy options,
      wo_filter_depth_curve = bo_filter_depth_curve options,
      wo_blob_threshold_bytes = blob_threshold_bytes options, wo_rewrite_blob_indexes = False\<rparr>"

section \<open>State\<close>

record lsm_lifecycle =
  dropping :: bool
  active_writes :: usize

record immutable_memtable =
  im_memtable :: memtable
  im_handle :: nat
  im_range_tombstones :: "range_tombstone list"
  im_estimated_bytes :: u64
  im_freeze_sequence :: sequence

record lsm_tree =
  generation :: u64
  tree_options :: bucket_options
  active_memtable :: memtable
  active_handle :: nat
  active_range_tombstones :: "range_tombstone list"
  active_range_tombstone_bytes :: u64
  delta_shards :: delta_shard_set
  delta_mirror_sequence :: u64
  immutable_memtables :: "immutable_memtable list"
  immutable_memtable_count :: usize
  current_version :: lsm_version
  lifecycle :: lsm_lifecycle

definition new_with_generation :: "bucket_options \<Rightarrow> table list \<Rightarrow> u64 \<Rightarrow> lsm_tree result" where
  "new_with_generation options ts gen =
     and_then (lsm_version_new ts) (\<lambda>version.
     Ok \<lparr>generation = gen, tree_options = options, active_memtable = memtable_default, active_handle = 0,
         active_range_tombstones = [], active_range_tombstone_bytes = 0, delta_shards = delta_shard_set_new,
         delta_mirror_sequence = 0, immutable_memtables = [], immutable_memtable_count = 0,
         current_version = version, lifecycle = \<lparr>dropping = False, active_writes = 0\<rparr>\<rparr>)"

definition install_version :: "lsm_tree \<Rightarrow> lsm_version \<Rightarrow> lsm_tree" where
  "install_version t version = t\<lparr>current_version := version\<rparr>"

definition tables_snapshot :: "lsm_tree \<Rightarrow> table list" where
  "tables_snapshot t = table_handles (current_version t)"

definition has_immutable_memtable_fast :: "lsm_tree \<Rightarrow> bool" where
  "has_immutable_memtable_fast t = (immutable_memtable_count t \<noteq> 0)"

section \<open>The write admission gate\<close>

definition admit_write :: "lsm_lifecycle \<Rightarrow> lsm_lifecycle result" where
  "admit_write lc =
     (if dropping lc then Err (RuntimeBusy ''bucket deletion is in progress'')
      else and_then (ok_or (Corruption ''LSM active write count overflow'') (checked_add_usize (active_writes lc) 1))
        (\<lambda>n. Ok (lc\<lparr>active_writes := n\<rparr>)))"

definition write_admission_drop :: "lsm_lifecycle \<Rightarrow> lsm_lifecycle" where
  "write_admission_drop lc =
     (if active_writes lc = 0 then lc else lc\<lparr>active_writes := active_writes lc - 1\<rparr>)"

definition begin_drop :: "lsm_lifecycle \<Rightarrow> lsm_lifecycle result" where
  "begin_drop lc =
     (if dropping lc then Err (RuntimeBusy ''bucket deletion is already in progress'')
      else Ok (lc\<lparr>dropping := True\<rparr>))"

definition ensure_available :: "lsm_lifecycle \<Rightarrow> unit result" where
  "ensure_available lc =
     (if dropping lc then Err (RuntimeBusy ''bucket deletion is in progress'') else Ok ())"

definition wait_for_writes_is_over :: "lsm_lifecycle \<Rightarrow> bool" where
  "wait_for_writes_is_over lc = (active_writes lc = 0)"

definition drop_guard_drop :: "bool \<Rightarrow> lsm_lifecycle \<Rightarrow> lsm_lifecycle" where
  "drop_guard_drop committed lc = (if committed then lc else lc\<lparr>dropping := False\<rparr>)"

section \<open>Writes\<close>

definition mark_delta_mirror_sequence :: "sequence \<Rightarrow> lsm_tree \<Rightarrow> lsm_tree" where
  "mark_delta_mirror_sequence sequence t =
     t\<lparr>delta_mirror_sequence := max (delta_mirror_sequence t) sequence\<rparr>"

definition delta_mirror_covers :: "lsm_tree \<Rightarrow> sequence \<Rightarrow> bool" where
  "delta_mirror_covers t read_sequence =
     (delta_mirror_sequence t \<noteq> 0 \<and> delta_mirror_sequence t \<ge> read_sequence)"

definition publish_delta_operations_with_budget ::
  "lsm_tree \<Rightarrow> (batch_operation \<times> u32) list \<Rightarrow> sequence \<Rightarrow> u64 \<Rightarrow> lsm_tree" where
  "publish_delta_operations_with_budget t ops sequence max_epoch_bytes =
     t\<lparr>delta_shards := publish_operations_with_budget (delta_shards t) ops sequence max_epoch_bytes\<rparr>"

definition range_tombstone_bytes :: "key_range \<Rightarrow> u64" where
  "range_tombstone_bytes rng =
     saturating_add_word
       (saturating_add_word (saturating_add_word (bound_bytes (kr_start rng)) (bound_bytes (kr_end rng))) 8) 4"

definition apply_operation :: "lsm_tree \<Rightarrow> batch_operation \<Rightarrow> sequence \<Rightarrow> u32 \<Rightarrow> lsm_tree" where
  "apply_operation t op sequence bidx =
     mark_delta_mirror_sequence sequence
       (case op of
          OpPut _ key v \<Rightarrow>
            t\<lparr>active_memtable :=
                memtable_insert (active_memtable t) (InternalKey key sequence Put bidx) (Some (Inline v))\<rparr>
        | OpDelete _ key \<Rightarrow>
            t\<lparr>active_memtable :=
                memtable_insert (active_memtable t) (InternalKey key sequence PointDelete bidx) None\<rparr>
        | OpDeleteRange _ rng \<Rightarrow>
            t\<lparr>active_range_tombstones :=
                insert_sorted rt_range (active_range_tombstones t)
                  \<lparr>rt_range = rng, rt_sequence = sequence, rt_batch_index = bidx\<rparr>,
              active_range_tombstone_bytes := active_range_tombstone_bytes t + range_tombstone_bytes rng\<rparr>)"

definition active_memtable_bytes :: "lsm_tree \<Rightarrow> u64" where
  "active_memtable_bytes t =
     saturating_add_word (mt_estimated_bytes (active_memtable t)) (active_range_tombstone_bytes t)"

definition tree_memtable_bytes :: "lsm_tree \<Rightarrow> u64" where
  "tree_memtable_bytes t =
     fold (\<lambda>im bytes. saturating_add_word bytes (im_estimated_bytes im)) (immutable_memtables t)
       (saturating_add_word (active_memtable_bytes t) (delta_set_estimated_bytes (delta_shards t)))"

definition has_immutable_memtables_at_or_below :: "lsm_tree \<Rightarrow> sequence \<Rightarrow> bool" where
  "has_immutable_memtables_at_or_below t max_sequence =
     list_ex (\<lambda>im. im_freeze_sequence im \<le> max_sequence) (immutable_memtables t)"

definition freeze_active_memtable :: "lsm_tree \<Rightarrow> sequence \<Rightarrow> bool \<times> lsm_tree" where
  "freeze_active_memtable t freeze_sequence =
     (if memtable_is_empty (active_memtable t) \<and> active_range_tombstones t = [] then (False, t)
      else
        let immutable =
              \<lparr>im_memtable = active_memtable t, im_handle = active_handle t,
               im_range_tombstones = active_range_tombstones t,
               im_estimated_bytes =
                 saturating_add_word (mt_estimated_bytes (active_memtable t)) (active_range_tombstone_bytes t),
               im_freeze_sequence = freeze_sequence\<rparr>
        in (True, t\<lparr>immutable_memtables := immutable_memtables t @ [immutable],
                    immutable_memtable_count := immutable_memtable_count t + 1,
                    active_memtable := memtable_default, active_handle := active_handle t + 1,
                    active_range_tombstones := [], active_range_tombstone_bytes := 0\<rparr>))"

section \<open>Flush\<close>

record flush_input =
  fi_handle :: nat
  fi_freeze_sequence :: sequence
  fi_table_level :: u32
  fi_table_options :: table_write_options
  fi_point_records :: "point_record list"
  fi_range_tombstones :: "range_tombstone list"

definition update_oldest_sequence :: "sequence \<Rightarrow> sequence option \<Rightarrow> sequence option" where
  "update_oldest_sequence candidate oldest =
     Some (case oldest of None \<Rightarrow> candidate | Some current \<Rightarrow> min current candidate)"

definition update_oldest_point_sequence :: "memtable \<Rightarrow> sequence option \<Rightarrow> sequence option" where
  "update_oldest_point_sequence m oldest =
     fold (\<lambda>e. update_oldest_sequence (ik_sequence (fst e))) (mt_entries m) oldest"

definition oldest_unflushed_sequence_excluding :: "lsm_tree \<Rightarrow> nat list \<Rightarrow> sequence option" where
  "oldest_unflushed_sequence_excluding t flushed =
     fold (\<lambda>im oldest.
       if im_handle im \<in> set flushed then oldest
       else fold (\<lambda>ts. update_oldest_sequence (rt_sequence ts)) (im_range_tombstones im)
              (update_oldest_point_sequence (im_memtable im) oldest))
     (immutable_memtables t)
     (fold (\<lambda>ts. update_oldest_sequence (rt_sequence ts)) (active_range_tombstones t)
        (update_oldest_point_sequence (active_memtable t) None))"

definition prepare_flush_inputs :: "lsm_tree \<Rightarrow> flush_input list" where
  "prepare_flush_inputs t =
     concat (map (\<lambda>im.
       if mt_entries (im_memtable im) = [] \<and> im_range_tombstones im = [] then []
       else [\<lparr>fi_handle = im_handle im, fi_freeze_sequence = im_freeze_sequence im, fi_table_level = 0,
              fi_table_options = flush_table_write_options (tree_options t),
              fi_point_records = mt_entries (im_memtable im),
              fi_range_tombstones = im_range_tombstones im\<rparr>]) (immutable_memtables t))"

fun remove_first :: "('a \<Rightarrow> bool) \<Rightarrow> 'a list \<Rightarrow> 'a list option" where
  "remove_first P [] = None"
| "remove_first P (x # xs) = (if P x then Some xs else map_option ((#) x) (remove_first P xs))"

text \<open>The new version is installed before the frozen memtable leaves the queue, and stays installed when
  the memtable is not found.\<close>

definition install_flush_version :: "lsm_tree \<Rightarrow> table \<Rightarrow> lsm_tree result" where
  "install_flush_version t tab =
     and_then (with_added_l0_table (current_version t) tab) (\<lambda>version. Ok (install_version t version))"

definition install_flush_dequeue :: "lsm_tree \<Rightarrow> flush_input \<Rightarrow> unit result \<times> lsm_tree" where
  "install_flush_dequeue t input =
     (case remove_first (\<lambda>im. im_freeze_sequence im = fi_freeze_sequence input \<and> im_handle im = fi_handle input)
             (immutable_memtables t) of
        None \<Rightarrow> (Err (Corruption ''flushed immutable memtable is no longer queued''), t)
      | Some ims \<Rightarrow>
          (Ok (), t\<lparr>immutable_memtables := ims, immutable_memtable_count := immutable_memtable_count t - 1\<rparr>))"

definition install_flush :: "lsm_tree \<Rightarrow> flush_input \<Rightarrow> table \<Rightarrow> unit result \<times> lsm_tree" where
  "install_flush t input tab =
     (case install_flush_version t tab of
        Inl e \<Rightarrow> (Err e, t)
      | Inr t' \<Rightarrow> install_flush_dequeue t' input)"

section \<open>Contents and invariant\<close>

definition memory_records :: "lsm_tree \<Rightarrow> point_record set" where
  "memory_records t =
     set (mt_entries (active_memtable t)) \<union>
     (\<Union>im\<in>set (immutable_memtables t). set (mt_entries (im_memtable im)))"

definition memory_tombstones :: "lsm_tree \<Rightarrow> range_tombstone set" where
  "memory_tombstones t =
     set (active_range_tombstones t) \<union> (\<Union>im\<in>set (immutable_memtables t). set (im_range_tombstones im))"

definition version_records :: "lsm_version \<Rightarrow> point_record set" where
  "version_records v = (\<Union>tab\<in>set (table_handles v). set (table_records tab))"

definition version_tombstones :: "lsm_version \<Rightarrow> range_tombstone set" where
  "version_tombstones v = (\<Union>tab\<in>set (table_handles v). set (tbl_range_tombstones tab))"

definition tree_records :: "lsm_tree \<Rightarrow> point_record set" where
  "tree_records t = shards_records (delta_shards t) \<union> memory_records t \<union> version_records (current_version t)"

definition tree_tombstones :: "lsm_tree \<Rightarrow> range_tombstone set" where
  "tree_tombstones t =
     shards_tombstones (delta_shards t) \<union> memory_tombstones t \<union> version_tombstones (current_version t)"

definition tombstone_bytes :: "range_tombstone list \<Rightarrow> nat" where
  "tombstone_bytes ts = (\<Sum>t\<leftarrow>ts. unat (range_tombstone_bytes (rt_range t)))"

text \<open>A database keeps its unflushed commits either in the deltas or in the memtables, so the mirror
  sequence, which lets reads pass over the deltas, is only set while the deltas are empty.\<close>

definition tree_ok :: "lsm_tree \<Rightarrow> bool" where
  "tree_ok t \<longleftrightarrow>
     memtable_ok (active_memtable t) \<and> (\<forall>im\<in>set (immutable_memtables t). memtable_ok (im_memtable im)) \<and>
     tombstones_sorted rt_range (active_range_tombstones t) \<and>
     unat (active_range_tombstone_bytes t) = tombstone_bytes (active_range_tombstones t) \<and>
     immutable_memtable_count t = length (immutable_memtables t) \<and>
     distinct (map im_handle (immutable_memtables t)) \<and>
     (\<forall>im\<in>set (immutable_memtables t). im_handle im < active_handle t) \<and>
     shards_ok (delta_shards t) \<and>
     (delta_mirror_sequence t \<noteq> 0 \<longrightarrow>
        shards_records (delta_shards t) = {} \<and> shards_tombstones (delta_shards t) = {}) \<and>
     separate (memory_records t) (shards_records (delta_shards t)) \<and>
     version_ok (current_version t) \<and> (\<forall>tab\<in>set (table_handles (current_version t)). table_wf tab)"

lemma version_ok_empty [simp]: "version_ok \<lparr>levels = []\<rparr>"
  by (simp add: version_ok_def)

lemma new_tree_ok:
  assumes "new_with_generation options ts gen = Inr t" "\<forall>tab\<in>set ts. table_wf tab"
  shows "tree_ok t" "tree_records t = (\<Union>tab\<in>set ts. set (table_records tab))"
    "tree_tombstones t = (\<Union>tab\<in>set ts. set (tbl_range_tombstones tab))"
proof -
  obtain v where v: "lsm_version_new ts = Inr v" and t: "current_version t = v" "active_memtable t = memtable_default"
    "active_range_tombstones t = []" "active_range_tombstone_bytes t = 0" "delta_shards t = delta_shard_set_new"
    "delta_mirror_sequence t = 0" "immutable_memtables t = []" "immutable_memtable_count t = 0"
    using assms(1) by (auto simp: new_with_generation_def and_then_eq_Inr_iff)
  have set: "set (table_handles v) = set ts" by (rule mset_eq_setD [OF lsm_version_new_Ok(2) [OF v]])
  show "tree_ok t"
    using assms(2) lsm_version_new_Ok(1) [OF v]
    by (simp add: tree_ok_def t set tombstone_bytes_def tombstones_sorted_def sorted_by_def separate_def)
  show "tree_records t = (\<Union>tab\<in>set ts. set (table_records tab))"
    "tree_tombstones t = (\<Union>tab\<in>set ts. set (tbl_range_tombstones tab))"
    by (simp_all add: tree_records_def tree_tombstones_def memory_records_def memory_tombstones_def t
        version_records_def version_tombstones_def set)
qed

section \<open>Writes refine set operations\<close>

lemma range_tombstone_bytes_ge: "12 \<le> unat (range_tombstone_bytes rng)"
  by (simp add: range_tombstone_bytes_def unat_saturating_add_word)

lemma tombstone_bytes_simps [simp]:
  "tombstone_bytes [] = 0"
  "tombstone_bytes (t # ts) = unat (range_tombstone_bytes (rt_range t)) + tombstone_bytes ts"
  by (simp_all add: tombstone_bytes_def)

lemma tombstone_bytes_zero: "tombstone_bytes ts = 0 \<longleftrightarrow> ts = []"
proof (cases ts)
  case (Cons t ts')
  then show ?thesis using range_tombstone_bytes_ge [of "rt_range t"] by simp
qed simp

lemma tombstone_bytes_append: "tombstone_bytes (xs @ ys) = tombstone_bytes xs + tombstone_bytes ys"
  by (simp add: tombstone_bytes_def)

lemma tombstone_bytes_insert_sorted [simp]:
  "tombstone_bytes (insert_sorted rt_range ts t) = unat (range_tombstone_bytes (rt_range t)) + tombstone_bytes ts"
proof -
  have "tombstone_bytes (take n ts) + tombstone_bytes (drop n ts) = tombstone_bytes ts" for n
    by (simp flip: tombstone_bytes_append)
  then show ?thesis by (simp add: insert_sorted_def Let_def tombstone_bytes_append)
qed

lemma unat_add_fits: "unat a + unat b < 2 ^ 64 \<Longrightarrow> unat (a + b) = unat b + unat (a :: u64)"
  by (simp add: unat_word_ariths)

definition op_fits :: "lsm_tree \<Rightarrow> batch_operation \<Rightarrow> sequence \<Rightarrow> u32 \<Rightarrow> bool" where
  "op_fits t op s i \<longleftrightarrow>
     (case op_record s (op, i) of
        None \<Rightarrow> True
      | Some r \<Rightarrow> fst r \<notin> fst ` set (mt_entries (active_memtable t)) \<and>
          entries_bytes (mt_entries (active_memtable t)) + unat (entry_bytes (fst r) (snd r)) < 2 ^ 64) \<and>
     (case op_tombstone s (op, i) of
        None \<Rightarrow> True
      | Some ts \<Rightarrow> tombstone_bytes (active_range_tombstones t) + unat (range_tombstone_bytes (rt_range ts)) < 2 ^ 64)"

lemma memtable_insert_fresh:
  assumes "memtable_ok m" "k \<notin> fst ` set (mt_entries m)"
    "entries_bytes (mt_entries m) + unat (entry_bytes k v) < 2 ^ 64"
  shows "memtable_ok (memtable_insert m k v)"
    "set (mt_entries (memtable_insert m k v)) = insert (k, v) (set (mt_entries m))"
proof -
  have ok: "btree_ok (mt_entries m)" using assms(1) by (simp add: memtable_ok_def)
  have "entries_bytes (mt_entries (memtable_insert m k v)) < 2 ^ 64"
    using entries_bytes_insert_le [OF ok, of k v] assms(3) by (simp add: memtable_insert_def Let_def)
  then show "memtable_ok (memtable_insert m k v)" by (rule memtable_insert_ok [OF assms(1)])
  show "set (mt_entries (memtable_insert m k v)) = insert (k, v) (set (mt_entries m))"
    using memtable_insert_entries [OF ok] assms(2) by force
qed

lemma apply_operation_point:
  assumes "tree_ok t" "op_record s (op, i) = Some r" "op_fits t op s i"
  shows "apply_operation t op s i =
      mark_delta_mirror_sequence s (t\<lparr>active_memtable := memtable_insert (active_memtable t) (fst r) (snd r)\<rparr>)"
    "memtable_ok (memtable_insert (active_memtable t) (fst r) (snd r))"
    "set (mt_entries (memtable_insert (active_memtable t) (fst r) (snd r))) = insert r (set (mt_entries (active_memtable t)))"
  using assms(2) memtable_insert_fresh [of "active_memtable t" "fst r" "snd r"] assms(1,3)
  by (auto simp: apply_operation_def op_fits_def tree_ok_def split: batch_operation.splits)

lemma apply_operation_ok:
  assumes t: "tree_ok t" and mode: "shards_records (delta_shards t) = {}" "shards_tombstones (delta_shards t) = {}"
    and fits: "op_fits t op s i"
  shows "tree_ok (apply_operation t op s i)"
    "tree_records (apply_operation t op s i) = tree_records t \<union> set_option (op_record s (op, i))"
    "tree_tombstones (apply_operation t op s i) = tree_tombstones t \<union> set_option (op_tombstone s (op, i))"
proof -
  have "tree_ok (apply_operation t op s i) \<and>
    tree_records (apply_operation t op s i) = tree_records t \<union> set_option (op_record s (op, i)) \<and>
    tree_tombstones (apply_operation t op s i) = tree_tombstones t \<union> set_option (op_tombstone s (op, i))"
  proof (cases "op_record s (op, i)")
    case (Some r)
    note p = apply_operation_point [OF t Some fits]
    have "op_tombstone s (op, i) = None" using Some by (cases op) auto
    then show ?thesis
      using t p(2,3) mode unfolding p(1) tree_ok_def
      by (auto simp: Some mark_delta_mirror_sequence_def memory_records_def memory_tombstones_def tree_records_def
          tree_tombstones_def separate_def)
  next
    case None
    then obtain b rng where op: "op = OpDeleteRange b rng" by (cases op) auto
    have bytes: "unat (active_range_tombstone_bytes t + range_tombstone_bytes rng) =
        unat (range_tombstone_bytes rng) + tombstone_bytes (active_range_tombstones t)"
    proof -
      have eq: "unat (active_range_tombstone_bytes t) = tombstone_bytes (active_range_tombstones t)"
        using t unfolding tree_ok_def by blast
      have "tombstone_bytes (active_range_tombstones t) + unat (range_tombstone_bytes rng) < 2 ^ 64"
        using fits unfolding op_fits_def op by simp
      then show ?thesis unfolding eq [symmetric] by (rule unat_add_fits)
    qed
    have "tombstones_sorted rt_range (active_range_tombstones t)" using t unfolding tree_ok_def by blast
    then have sorted: "tombstones_sorted rt_range (insert_sorted rt_range (active_range_tombstones t) x)" for x
      by (rule insert_sorted_sorted)
    have "tree_ok (apply_operation t op s i)"
      using t mode bytes sorted unfolding tree_ok_def
      by (simp add: apply_operation_def op mark_delta_mirror_sequence_def memory_records_def)
    then show ?thesis
      by (auto simp: apply_operation_def op mark_delta_mirror_sequence_def memory_records_def memory_tombstones_def
          tree_records_def tree_tombstones_def)
  qed
  then show "tree_ok (apply_operation t op s i)"
    "tree_records (apply_operation t op s i) = tree_records t \<union> set_option (op_record s (op, i))"
    "tree_tombstones (apply_operation t op s i) = tree_tombstones t \<union> set_option (op_tombstone s (op, i))"
    by auto
qed

lemma publish_delta_ok:
  assumes "tree_ok t" "delta_mirror_sequence t = 0" "distinct (map snd ops)"
    "separate (shards_records (delta_shards t) \<union> memory_records t) (set (op_records s ops))"
    "\<forall>st\<in>set (delta_shards t). chain_bytes (shard_snapshot st) + entries_bytes (op_records s ops) < 2 ^ 64"
  shows "tree_ok (publish_delta_operations_with_budget t ops s mx)"
    "tree_records (publish_delta_operations_with_budget t ops s mx) = tree_records t \<union> set (op_records s ops)"
    "tree_tombstones (publish_delta_operations_with_budget t ops s mx) = tree_tombstones t \<union> set (op_tombstones s ops)"
proof -
  have sep: "separate (shards_records (delta_shards t)) (set (op_records s ops))"
    "separate (memory_records t) (set (op_records s ops))"
    using assms(4) unfolding separate_def by blast+
  have ok: "shards_ok (delta_shards t)" using assms(1) by (simp add: tree_ok_def)
  note p = publish_shards [OF ok assms(3) sep(1) assms(5), of mx]
  have "separate (memory_records t) (shards_records (delta_shards t) \<union> set (op_records s ops))"
    using sep(2) assms(1) unfolding separate_def tree_ok_def by blast
  then show "tree_ok (publish_delta_operations_with_budget t ops s mx)"
    "tree_records (publish_delta_operations_with_budget t ops s mx) = tree_records t \<union> set (op_records s ops)"
    "tree_tombstones (publish_delta_operations_with_budget t ops s mx) = tree_tombstones t \<union> set (op_tombstones s ops)"
    using assms(1,2) p
    by (auto simp: publish_delta_operations_with_budget_def tree_ok_def tree_records_def tree_tombstones_def
        memory_records_def memory_tombstones_def)
qed

lemma freeze_cases:
  obtains (idle) "freeze_active_memtable t s = (False, t)" "mt_entries (active_memtable t) = []"
      "active_range_tombstones t = []"
    | (freeze) im where "im_memtable im = active_memtable t" "im_handle im = active_handle t"
      "im_range_tombstones im = active_range_tombstones t" "im_freeze_sequence im = s"
      "mt_entries (active_memtable t) \<noteq> [] \<or> active_range_tombstones t \<noteq> []"
      "freeze_active_memtable t s = (True, t\<lparr>immutable_memtables := immutable_memtables t @ [im],
         immutable_memtable_count := immutable_memtable_count t + 1,
         active_memtable := memtable_default, active_handle := active_handle t + 1,
         active_range_tombstones := [], active_range_tombstone_bytes := 0\<rparr>)"
proof (cases "memtable_is_empty (active_memtable t) \<and> active_range_tombstones t = []")
  case True
  then show ?thesis by (intro idle) (auto simp: freeze_active_memtable_def memtable_is_empty_def)
next
  case False
  show ?thesis
    by (rule freeze [of "\<lparr>im_memtable = active_memtable t, im_handle = active_handle t,
               im_range_tombstones = active_range_tombstones t,
               im_estimated_bytes =
                 saturating_add_word (mt_estimated_bytes (active_memtable t)) (active_range_tombstone_bytes t),
               im_freeze_sequence = s\<rparr>"])
      (use False in \<open>simp_all add: freeze_active_memtable_def Let_def memtable_is_empty_def\<close>)
qed

lemma freeze_ok:
  assumes "tree_ok t" "freeze_active_memtable t s = (frozen, t')"
  shows "tree_ok t' \<and> tree_records t' = tree_records t \<and> tree_tombstones t' = tree_tombstones t \<and>
    (frozen \<longleftrightarrow> mt_entries (active_memtable t) \<noteq> [] \<or> active_range_tombstones t \<noteq> []) \<and>
    mt_entries (active_memtable t') = [] \<and> active_range_tombstones t' = []"
proof (cases rule: freeze_cases [where t = t and s = s])
  case idle
  then show ?thesis using assms by simp
next
  case (freeze im)
  have t': "frozen = True" "t' = t\<lparr>immutable_memtables := immutable_memtables t @ [im],
         immutable_memtable_count := immutable_memtable_count t + 1,
         active_memtable := memtable_default, active_handle := active_handle t + 1,
         active_range_tombstones := [], active_range_tombstone_bytes := 0\<rparr>"
    using assms(2) freeze(6) by simp_all
  have mem: "memory_records t' = memory_records t" "memory_tombstones t' = memory_tombstones t"
    using freeze(1,3) by (auto simp: t' memory_records_def memory_tombstones_def)
  have "active_handle t \<notin> im_handle ` set (immutable_memtables t)"
    "\<forall>im\<in>set (immutable_memtables t). im_handle im < Suc (active_handle t)"
    using assms(1) unfolding tree_ok_def by (auto simp: less_SucI)
  moreover have "separate (memory_records t') (shards_records (delta_shards t))"
    using assms(1) mem(1) unfolding tree_ok_def by simp
  ultimately have "tree_ok t'"
    using assms(1) freeze(1,2) unfolding tree_ok_def
    by (simp add: t' tombstones_sorted_def sorted_by_def)
  then show ?thesis
    using mem freeze(5) by (simp add: tree_records_def tree_tombstones_def t')
qed

section \<open>Flush\<close>

lemma remove_first_split:
  "x \<in> set xs \<Longrightarrow> P x \<Longrightarrow> \<exists>as y bs. xs = as @ y # bs \<and> P y \<and> remove_first P xs = Some (as @ bs)"
proof (induction xs)
  case (Cons z xs)
  show ?case
  proof (cases "P z")
    case True
    then have "z # xs = [] @ z # xs \<and> P z \<and> remove_first P (z # xs) = Some ([] @ xs)" by simp
    then show ?thesis by blast
  next
    case False
    then obtain as y bs where "xs = as @ y # bs" "P y" "remove_first P xs = Some (as @ bs)" using Cons by auto
    then have "z # xs = (z # as) @ y # bs \<and> P y \<and> remove_first P (z # xs) = Some ((z # as) @ bs)"
      using False by simp
    then show ?thesis by blast
  qed
qed simp

text \<open>A table that holds what an immutable memtable holds.\<close>

definition flushed_as :: "flush_input \<Rightarrow> table \<Rightarrow> bool" where
  "flushed_as input tab \<longleftrightarrow> table_wf tab \<and> tp_level (properties tab) = 0 \<and>
     set (table_records tab) = set (fi_point_records input) \<and>
     set (tbl_range_tombstones tab) = set (fi_range_tombstones input)"

lemma prepare_flush_inputs_iff:
  "input \<in> set (prepare_flush_inputs t) \<longleftrightarrow>
   (\<exists>im\<in>set (immutable_memtables t). (mt_entries (im_memtable im) \<noteq> [] \<or> im_range_tombstones im \<noteq> []) \<and>
      input = \<lparr>fi_handle = im_handle im, fi_freeze_sequence = im_freeze_sequence im, fi_table_level = 0,
              fi_table_options = flush_table_write_options (tree_options t),
              fi_point_records = mt_entries (im_memtable im),
              fi_range_tombstones = im_range_tombstones im\<rparr>)"
  by (auto simp: prepare_flush_inputs_def split: if_splits)

lemma install_flush_version_ok:
  assumes t: "tree_ok t" and im: "im \<in> set (immutable_memtables t)"
    and tab: "table_wf tab" "tp_level (properties tab) = 0"
    "set (table_records tab) = set (mt_entries (im_memtable im))"
    "set (tbl_range_tombstones tab) = set (im_range_tombstones im)"
  shows "\<exists>v. install_flush_version t tab = Inr (t\<lparr>current_version := v\<rparr>) \<and> version_ok v \<and>
    set (table_handles v) = insert tab (set (table_handles (current_version t))) \<and>
    tree_ok (t\<lparr>current_version := v\<rparr>) \<and> tree_records (t\<lparr>current_version := v\<rparr>) = tree_records t \<and>
    tree_tombstones (t\<lparr>current_version := v\<rparr>) = tree_tombstones t"
proof -
  have ok: "version_ok (current_version t)" using t unfolding tree_ok_def by blast
  obtain v where v: "with_added_l0_table (current_version t) tab = Inr v"
    using with_added_l0_table_total [OF ok tab(2)] by blast
  note added = with_added_l0_table_Ok [OF v]
  have "tree_ok (t\<lparr>current_version := v\<rparr>)"
    using t added(1,2) tab(1) unfolding tree_ok_def by (simp add: memory_records_def)
  moreover have "set (mt_entries (im_memtable im)) \<subseteq> memory_records t"
    "set (im_range_tombstones im) \<subseteq> memory_tombstones t"
    using im by (auto simp: memory_records_def memory_tombstones_def)
  then have "tree_records (t\<lparr>current_version := v\<rparr>) = tree_records t"
    "tree_tombstones (t\<lparr>current_version := v\<rparr>) = tree_tombstones t"
    by (auto simp: tree_records_def tree_tombstones_def version_records_def version_tombstones_def added(2) tab(3,4)
        memory_records_def memory_tombstones_def)
  ultimately show ?thesis
    using added v by (auto simp: install_flush_version_def install_version_def)
qed

lemma dequeue_ok:
  assumes t: "tree_ok t" and im: "im \<in> set (immutable_memtables t)"
    and input: "fi_handle input = im_handle im" "fi_freeze_sequence input = im_freeze_sequence im"
    and held: "set (mt_entries (im_memtable im)) \<subseteq> version_records (current_version t)"
      "set (im_range_tombstones im) \<subseteq> version_tombstones (current_version t)"
  shows "\<exists>t'. install_flush_dequeue t input = (Inr (), t') \<and> tree_ok t' \<and> tree_records t' = tree_records t \<and>
    tree_tombstones t' = tree_tombstones t \<and> im \<notin> set (immutable_memtables t')"
proof -
  let ?P = "\<lambda>im. im_freeze_sequence im = fi_freeze_sequence input \<and> im_handle im = fi_handle input"
  obtain as y bs where s: "immutable_memtables t = as @ y # bs" "?P y"
    "remove_first ?P (immutable_memtables t) = Some (as @ bs)"
    using remove_first_split [OF im, of ?P] input by auto
  have dist: "distinct (map im_handle (as @ y # bs))" using t s(1) unfolding tree_ok_def by simp
  have y: "y = im"
    by (rule inj_onD [OF distinct_map [THEN iffD1, OF dist, THEN conjunct2]]) (use s im input in auto)
  let ?t = "t\<lparr>immutable_memtables := as @ bs, immutable_memtable_count := immutable_memtable_count t - 1\<rparr>"
  have mem: "memory_records t = memory_records ?t \<union> set (mt_entries (im_memtable im))"
    "memory_tombstones t = memory_tombstones ?t \<union> set (im_range_tombstones im)"
    by (auto simp: memory_records_def memory_tombstones_def s(1) y)
  have "separate (memory_records ?t) (shards_records (delta_shards t))"
    using t mem(1) unfolding tree_ok_def separate_def by blast
  then have "tree_ok ?t"
    using t dist unfolding tree_ok_def by (auto simp: s(1))
  moreover have "tree_records ?t = tree_records t" "tree_tombstones ?t = tree_tombstones t"
    using held unfolding tree_records_def tree_tombstones_def mem by auto
  moreover have "im \<notin> set (as @ bs)" using dist y by auto
  ultimately show ?thesis
    using s(3) by (auto simp: install_flush_dequeue_def)
qed

lemma install_flush_ok:
  assumes t: "tree_ok t" and input: "input \<in> set (prepare_flush_inputs t)" and tab: "flushed_as input tab"
  shows "\<exists>tm t'. install_flush_version t tab = Inr tm \<and> tree_ok tm \<and>
    tree_records tm = tree_records t \<and> tree_tombstones tm = tree_tombstones t \<and>
    install_flush t input tab = (Inr (), t') \<and> tree_ok t' \<and>
    tree_records t' = tree_records t \<and> tree_tombstones t' = tree_tombstones t"
proof -
  obtain im where im: "im \<in> set (immutable_memtables t)" and i: "fi_handle input = im_handle im"
    "fi_freeze_sequence input = im_freeze_sequence im" "fi_point_records input = mt_entries (im_memtable im)"
    "fi_range_tombstones input = im_range_tombstones im"
    using input by (auto simp: prepare_flush_inputs_iff)
  have tab': "table_wf tab" "tp_level (properties tab) = 0"
    "set (table_records tab) = set (mt_entries (im_memtable im))"
    "set (tbl_range_tombstones tab) = set (im_range_tombstones im)"
    using tab by (simp_all add: flushed_as_def i)
  obtain v where v: "install_flush_version t tab = Inr (t\<lparr>current_version := v\<rparr>)"
    "set (table_handles v) = insert tab (set (table_handles (current_version t)))"
    "tree_ok (t\<lparr>current_version := v\<rparr>)" "tree_records (t\<lparr>current_version := v\<rparr>) = tree_records t"
    "tree_tombstones (t\<lparr>current_version := v\<rparr>) = tree_tombstones t"
    using install_flush_version_ok [OF t im tab'] by blast
  have held: "set (mt_entries (im_memtable im)) \<subseteq> version_records v"
    "set (im_range_tombstones im) \<subseteq> version_tombstones v"
    by (auto simp: version_records_def version_tombstones_def v(2) tab'(3,4))
  obtain t' where "install_flush_dequeue (t\<lparr>current_version := v\<rparr>) input = (Inr (), t')" "tree_ok t'"
    "tree_records t' = tree_records t" "tree_tombstones t' = tree_tombstones t"
    using dequeue_ok [OF v(3), of im input] im i held v(4,5) by auto
  then show ?thesis
    using v by (auto simp: install_flush_def)
qed

text \<open>What a flush writes.\<close>

lemma write_flush_input:
  assumes t: "tree_ok t" and input: "input \<in> set (prepare_flush_inputs t)"
    and "length (fi_point_records input) < 2 ^ 32" "\<And>tab. payload tab < 2 ^ 32"
    and fin: "\<forall>ts\<in>set (fi_range_tombstones input). finite_tombstone ts"
  shows "\<exists>tab. write_table_with_backend (\<lambda>_ _ xs. Inr xs) payload table_id (fi_table_level input)
      (fi_table_options input) (fi_point_records input) (fi_range_tombstones input) = Inr tab \<and> flushed_as input tab"
proof -
  obtain im where im: "im \<in> set (immutable_memtables t)" and i: "fi_point_records input = mt_entries (im_memtable im)"
    "fi_range_tombstones input = im_range_tombstones im" "fi_table_level input = 0"
    "mt_entries (im_memtable im) \<noteq> [] \<or> im_range_tombstones im \<noteq> []"
    using input by (auto simp: prepare_flush_inputs_iff)
  have ok: "btree_ok (fi_point_records input)"
    using t im i(1) unfolding tree_ok_def memtable_ok_def by simp
  have srt: "sort_point_records_if_needed (fi_point_records input) = fi_point_records input"
    using ok by (simp add: sort_point_records_if_needed_def btree_ok_def strict_sorted_iff)
  have "fi_point_records input \<noteq> [] \<or> fi_range_tombstones input \<noteq> []" using i by simp
  then obtain tab where "write_table_with_backend (\<lambda>_ _ xs. Inr xs) payload table_id (fi_table_level input)
      (fi_table_options input) (fi_point_records input) (fi_range_tombstones input) = Inr tab"
    "table_wf tab" "table_records tab = fi_point_records input"
    "set (tbl_range_tombstones tab) = set (fi_range_tombstones input)"
    "properties tab = table_properties_of table_id (fi_table_level input) (wo_codec (fi_table_options input))
       (fi_point_records input) (fi_range_tombstones input)"
    using write_table_wf [of "fi_point_records input" "fi_range_tombstones input" "\<lambda>_ _ xs. Inr xs"
        "fi_table_options input" table_id "fi_point_records input" payload "fi_table_level input"] ok srt assms(3-5)
    by auto
  then show ?thesis
    by (auto simp: flushed_as_def table_properties_of_def Let_def i(3) split: prod.splits)
qed

section \<open>The oldest unflushed sequence\<close>

definition is_oldest :: "sequence option \<Rightarrow> sequence set \<Rightarrow> bool" where
  "is_oldest x S = (case x of None \<Rightarrow> S = {} | Some m \<Rightarrow> m \<in> S \<and> (\<forall>y\<in>S. m \<le> y))"

lemma update_oldest: "is_oldest x S \<Longrightarrow> is_oldest (update_oldest_sequence c x) (insert c S)"
  by (cases x) (auto simp: is_oldest_def update_oldest_sequence_def min_def)

lemma fold_update_oldest:
  "is_oldest x S \<Longrightarrow> is_oldest (fold (\<lambda>e. update_oldest_sequence (f e)) es x) (f ` set es \<union> S)"
proof (induction es arbitrary: x S)
  case (Cons e es)
  from Cons.IH [OF update_oldest [OF Cons.prems, of "f e"]] show ?case by (simp add: insert_commute)
qed simp

definition unflushed_sequences :: "lsm_tree \<Rightarrow> nat list \<Rightarrow> sequence set" where
  "unflushed_sequences t flushed =
     (\<lambda>e. ik_sequence (fst e)) ` set (mt_entries (active_memtable t)) \<union>
     rt_sequence ` set (active_range_tombstones t) \<union>
     (\<Union>im\<in>{im \<in> set (immutable_memtables t). im_handle im \<notin> set flushed}.
        (\<lambda>e. ik_sequence (fst e)) ` set (mt_entries (im_memtable im)) \<union> rt_sequence ` set (im_range_tombstones im))"

lemma fold_immutable_oldest:
  assumes "is_oldest x S"
  shows "is_oldest (fold (\<lambda>im oldest.
       if im_handle im \<in> set flushed then oldest
       else fold (\<lambda>ts. update_oldest_sequence (rt_sequence ts)) (im_range_tombstones im)
              (update_oldest_point_sequence (im_memtable im) oldest)) ims x)
     (S \<union> (\<Union>im\<in>{im \<in> set ims. im_handle im \<notin> set flushed}.
        (\<lambda>e. ik_sequence (fst e)) ` set (mt_entries (im_memtable im)) \<union> rt_sequence ` set (im_range_tombstones im)))"
  using assms
proof (induction ims arbitrary: x S)
  case (Cons im ims)
  show ?case
  proof (cases "im_handle im \<in> set flushed")
    case True
    then have "{i \<in> set (im # ims). im_handle i \<notin> set flushed} = {i \<in> set ims. im_handle i \<notin> set flushed}" by auto
    then show ?thesis using Cons True by simp
  next
    case False
    let ?A = "(\<lambda>e. ik_sequence (fst e)) ` set (mt_entries (im_memtable im))"
    let ?B = "rt_sequence ` set (im_range_tombstones im)"
    have "is_oldest (update_oldest_point_sequence (im_memtable im) x) (?A \<union> S)"
      unfolding update_oldest_point_sequence_def by (rule fold_update_oldest [OF Cons.prems])
    from Cons.IH [OF fold_update_oldest [OF this, of rt_sequence "im_range_tombstones im"]] False
    have "is_oldest (fold (\<lambda>im oldest.
       if im_handle im \<in> set flushed then oldest
       else fold (\<lambda>ts. update_oldest_sequence (rt_sequence ts)) (im_range_tombstones im)
              (update_oldest_point_sequence (im_memtable im) oldest)) (im # ims) x)
     (?B \<union> (?A \<union> S) \<union> (\<Union>im\<in>{im \<in> set ims. im_handle im \<notin> set flushed}.
        (\<lambda>e. ik_sequence (fst e)) ` set (mt_entries (im_memtable im)) \<union> rt_sequence ` set (im_range_tombstones im)))"
      by simp
    moreover have "{i \<in> set (im # ims). im_handle i \<notin> set flushed} =
        insert im {i \<in> set ims. im_handle i \<notin> set flushed}" using False by auto
    ultimately show ?thesis by (simp add: Un_assoc Un_left_commute Un_commute)
  qed
qed simp

section \<open>The gate as a state machine\<close>

text \<open>The gate with the writes that hold an admission and the phase of the current drop guard.\<close>

datatype drop_phase = NoGuard | Waiting | Drained | Committed

inductive gate_step :: "lsm_lifecycle \<times> nat \<times> drop_phase \<Rightarrow> lsm_lifecycle \<times> nat \<times> drop_phase \<Rightarrow> bool" where
  admit: "admit_write lc = Ok lc' \<Longrightarrow> gate_step (lc, n, g) (lc', n + 1, g)"
| release: "0 < n \<Longrightarrow> gate_step (lc, n, g) (write_admission_drop lc, n - 1, g)"
| begin_guard: "begin_drop lc = Ok lc' \<Longrightarrow> gate_step (lc, n, g) (lc', n, Waiting)"
| drained: "wait_for_writes_is_over lc \<Longrightarrow> gate_step (lc, n, Waiting) (lc, n, Drained)"
| commit: "gate_step (lc, n, Drained) (drop_guard_drop True lc, n, Committed)"
| abort: "g = Waiting \<or> g = Drained \<Longrightarrow> gate_step (lc, n, g) (drop_guard_drop False lc, n, NoGuard)"

inductive_cases gate_stepE: "gate_step a b"

abbreviation gate_start :: "lsm_lifecycle \<times> nat \<times> drop_phase" where
  "gate_start \<equiv> (\<lparr>dropping = False, active_writes = 0\<rparr>, 0, NoGuard)"

fun gate_inv :: "lsm_lifecycle \<times> nat \<times> drop_phase \<Rightarrow> bool" where
  "gate_inv (lc, n, g) \<longleftrightarrow> active_writes lc = n \<and> (dropping lc \<longleftrightarrow> g \<noteq> NoGuard) \<and>
     (g = Drained \<or> g = Committed \<longrightarrow> n = 0)"

lemma gate_step_inv: "gate_step a b \<Longrightarrow> gate_inv a \<Longrightarrow> gate_inv b"
  by (induction rule: gate_step.induct)
    (auto simp: admit_write_def begin_drop_def write_admission_drop_def wait_for_writes_is_over_def
      drop_guard_drop_def checked_add_usize_def ok_or_def split: if_splits option.splits)

lemma gate_reachable_inv: "gate_step\<^sup>*\<^sup>* gate_start st \<Longrightarrow> gate_inv st"
  by (induction rule: rtranclp_induct) (auto dest: gate_step_inv)

lemma gate_committed_final:
  "gate_step\<^sup>*\<^sup>* a b \<Longrightarrow> gate_inv a \<Longrightarrow> snd (snd a) = Committed \<Longrightarrow> snd (snd b) = Committed \<and> gate_inv b"
proof (induction rule: rtranclp_induct)
  case (step b c)
  from step(2) step(3) [OF step.prems] show ?case
    using gate_step_inv [OF step(2)]
    by (induction rule: gate_step.induct) (auto simp: begin_drop_def split: if_splits)
qed auto

lemma drops_active: "active_writes ((write_admission_drop ^^ k) lc) = active_writes lc - k"
  by (induction k) (auto simp: write_admission_drop_def)

definition sample_tree :: lsm_tree where
  "sample_tree =
     \<lparr>generation = 0, tree_options = bucket_options_default, active_memtable = memtable_default, active_handle = 0,
      active_range_tombstones = [], active_range_tombstone_bytes = 0, delta_shards = delta_shard_set_new,
      delta_mirror_sequence = 0, immutable_memtables = [], immutable_memtable_count = 0,
      current_version = \<lparr>levels = []\<rparr>, lifecycle = \<lparr>dropping = False, active_writes = 0\<rparr>\<rparr>"

lemma sample_tree_new: "new_with_generation bucket_options_default [] 0 = Inr sample_tree"
  by (simp add: new_with_generation_def lsm_version_new_def sample_tree_def)

lemma sample_tree_ok: "tree_ok sample_tree" "tree_records sample_tree = {}" "tree_tombstones sample_tree = {}"
  using new_tree_ok [OF sample_tree_new] by simp_all

lemma sample_tree_simps:
  "active_memtable sample_tree = memtable_default" "delta_shards sample_tree = delta_shard_set_new"
  "immutable_memtables sample_tree = []" "active_range_tombstones sample_tree = []"
  by (simp_all add: sample_tree_def)

lemma sample_put_fits: "op_fits sample_tree (OpPut [] [1] [9]) 5 0"
  by (simp add: op_fits_def sample_tree_simps entry_bytes_def saturating_add_word_def usize_to_u64_saturating_def)

section \<open>Properties\<close>

text \<open>C7: Applying an operation of a commit to the tree refines adding its point record or its range
  tombstone to the contents of the tree, and keeps the tree invariant: the memtable stays ordered, the
  byte counters stay exact and the tombstones sorted.\<close>
theorem apply_operation_refines:
  assumes "tree_ok t" "shards_records (delta_shards t) = {}" "shards_tombstones (delta_shards t) = {}"
    "op_fits t op s i"
  shows "tree_ok (apply_operation t op s i) \<and>
    tree_records (apply_operation t op s i) = tree_records t \<union> set_option (op_record s (op, i)) \<and>
    tree_tombstones (apply_operation t op s i) = tree_tombstones t \<union> set_option (op_tombstone s (op, i))"
  using apply_operation_ok [OF assms] by blast

theorem apply_operation_refines_witness:
  "tree_ok (apply_operation sample_tree (OpPut [] [1] [9]) 5 0) \<and>
   tree_records (apply_operation sample_tree (OpPut [] [1] [9]) 5 0) = {(InternalKey [1] 5 Put 0, Some (Inline [9]))}"
  using apply_operation_refines [OF sample_tree_ok(1) _ _ sample_put_fits]
  by (simp add: sample_tree_simps sample_tree_ok)

text \<open>C3: Freezing the active memtable, writing a frozen memtable to a level zero table and installing
  this table leave the records and tombstones of the tree unchanged, also in the state between the two
  installation steps, where both copies are readable; installation never fails. Values stay inline and
  every tombstone has two finite bounds.\<close>
theorem flush_preserves_contents:
  assumes "tree_ok t" "freeze_active_memtable t s = (frozen, t1)" "input \<in> set (prepare_flush_inputs t1)"
    and "length (fi_point_records input) < 2 ^ 32" "\<And>tab. payload tab < 2 ^ 32"
    and "\<forall>ts\<in>set (fi_range_tombstones input). finite_tombstone ts"
  shows "\<exists>tab tm t'. write_table_with_backend (\<lambda>_ _ xs. Ok xs) payload table_id (fi_table_level input)
      (fi_table_options input) (fi_point_records input) (fi_range_tombstones input) = Ok tab \<and>
    install_flush_version t1 tab = Ok tm \<and> install_flush t1 input tab = (Ok (), t') \<and>
    tree_ok tm \<and> tree_records tm = tree_records t \<and> tree_tombstones tm = tree_tombstones t \<and>
    tree_ok t' \<and> tree_records t' = tree_records t \<and> tree_tombstones t' = tree_tombstones t"
proof -
  have t1: "tree_ok t1" "tree_records t1 = tree_records t" "tree_tombstones t1 = tree_tombstones t"
    using freeze_ok [OF assms(1,2)] by auto
  obtain tab where tab: "write_table_with_backend (\<lambda>_ _ xs. Inr xs) payload table_id (fi_table_level input)
      (fi_table_options input) (fi_point_records input) (fi_range_tombstones input) = Inr tab" "flushed_as input tab"
    using write_flush_input [OF t1(1) assms(3,4), of payload] assms(5,6) by blast
  from install_flush_ok [OF t1(1) assms(3) tab(2)] tab(1) show ?thesis
    unfolding t1(2,3) by blast
qed

theorem flush_preserves_contents_witness:
  "\<exists>t1 input tab t'. freeze_active_memtable (apply_operation sample_tree (OpPut [] [1] [9]) 5 0) 5 = (True, t1) \<and>
     prepare_flush_inputs t1 = [input] \<and>
     write_table_with_backend (\<lambda>_ _ xs. Ok xs) (\<lambda>_. 100) 1 (fi_table_level input) (fi_table_options input)
       (fi_point_records input) (fi_range_tombstones input) = Ok tab \<and>
     install_flush t1 input tab = (Ok (), t') \<and>
     tree_records t' = {(InternalKey [1] 5 Put 0, Some (Inline [9]))}"
proof -
  let ?t = "apply_operation sample_tree (OpPut [] [1] [9]) 5 0"
  have t: "tree_ok ?t" "tree_records ?t = {(InternalKey [1] 5 Put 0, Some (Inline [9]))}"
    using apply_operation_ok [OF sample_tree_ok(1) _ _ sample_put_fits] by (simp_all add: sample_tree_simps sample_tree_ok)
  have m: "mt_entries (active_memtable ?t) = [(InternalKey [1] 5 Put 0, Some (Inline [9]))]"
    "active_range_tombstones ?t = []" "immutable_memtables ?t = []"
    by (simp_all add: apply_operation_def mark_delta_mirror_sequence_def sample_tree_simps memtable_insert_def)
  obtain t1 input where f: "freeze_active_memtable ?t 5 = (True, t1)" and i: "prepare_flush_inputs t1 = [input]"
    "fi_point_records input = [(InternalKey [1] 5 Put 0, Some (Inline [9]))]" "fi_range_tombstones input = []"
    by (rule freeze_cases [of ?t 5]) (auto simp: m prepare_flush_inputs_def)
  have "input \<in> set (prepare_flush_inputs t1)" by (simp add: i)
  from flush_preserves_contents [OF t(1) f this, of "\<lambda>_. 100" 1] show ?thesis
    using f i t(2) by auto
qed

text \<open>C22: The oldest sequence that a recovery would still have to replay, once the given frozen
  memtables are durable, is the least sequence of a record or tombstone in the active memtable and the
  other frozen memtables, and is absent exactly when they hold none.\<close>
theorem oldest_unflushed_exact:
  "case oldest_unflushed_sequence_excluding t flushed of
     None \<Rightarrow> unflushed_sequences t flushed = {}
   | Some m \<Rightarrow> m \<in> unflushed_sequences t flushed \<and> (\<forall>x\<in>unflushed_sequences t flushed. m \<le> x)"
proof -
  have "is_oldest None {}" by (simp add: is_oldest_def)
  from fold_update_oldest [OF this, of "\<lambda>e. ik_sequence (fst e)" "mt_entries (active_memtable t)"]
  have "is_oldest (update_oldest_point_sequence (active_memtable t) None)
      ((\<lambda>e. ik_sequence (fst e)) ` set (mt_entries (active_memtable t)))"
    by (simp add: update_oldest_point_sequence_def)
  from fold_immutable_oldest [OF fold_update_oldest [OF this, of rt_sequence "active_range_tombstones t"],
      of flushed "immutable_memtables t"]
  have "is_oldest (oldest_unflushed_sequence_excluding t flushed) (unflushed_sequences t flushed)"
    unfolding oldest_unflushed_sequence_excluding_def unflushed_sequences_def
    by (simp only: Un_empty_right Un_commute [of "rt_sequence ` set (active_range_tombstones t)"])
  then show ?thesis by (simp only: is_oldest_def)
qed

theorem oldest_unflushed_exact_witness:
  "oldest_unflushed_sequence_excluding (apply_operation sample_tree (OpPut [] [1] [9]) 5 0) [] = Some 5"
proof -
  have "unflushed_sequences (apply_operation sample_tree (OpPut [] [1] [9]) 5 0) [] = {5}"
    by (simp add: unflushed_sequences_def apply_operation_def mark_delta_mirror_sequence_def sample_tree_simps
        memtable_insert_def)
  then show ?thesis
    using oldest_unflushed_exact [of "apply_operation sample_tree (OpPut [] [1] [9]) 5 0" "[]"]
    by (auto split: option.splits)
qed

text \<open>C21: Whatever the interleaving of writers and a bucket deletion, once the deletion has seen the gate
  drained no write holds an admission and none is admitted, until the deletion is aborted; a committed
  deletion keeps the gate closed for good; and while a deletion waits, its wait ends as soon as the
  admitted writes have finished.\<close>
theorem drop_gate_safe:
  assumes "gate_step\<^sup>*\<^sup>* gate_start (lc, n, g)"
  shows "(g = Drained \<or> g = Committed \<longrightarrow> n = 0 \<and> (\<exists>e. admit_write lc = Err e)) \<and>
    (g = Committed \<longrightarrow> (\<forall>lc' n' g'. gate_step\<^sup>*\<^sup>* (lc, n, g) (lc', n', g') \<longrightarrow> g' = Committed \<and> n' = 0)) \<and>
    (g = Waiting \<longrightarrow> wait_for_writes_is_over ((write_admission_drop ^^ n) lc))"
proof -
  have inv: "gate_inv (lc, n, g)" by (rule gate_reachable_inv [OF assms])
  then show ?thesis
    using gate_committed_final [of "(lc, n, g)"]
    by (fastforce simp: admit_write_def wait_for_writes_is_over_def drops_active)
qed

theorem drop_gate_safe_witness:
  "gate_step\<^sup>*\<^sup>* gate_start (\<lparr>dropping = True, active_writes = 0\<rparr>, 0, Committed) \<and>
   (\<exists>e. admit_write \<lparr>dropping = True, active_writes = 0\<rparr> = Err e)"
proof -
  let ?b = "\<lambda>d n. \<lparr>dropping = d, active_writes = n\<rparr>"
  have "gate_step (?b False 0, 0, NoGuard) (?b False 1, 1, NoGuard)"
    using gate_step.admit [of "?b False 0" "?b False 1" 0 NoGuard]
    by (simp add: admit_write_def checked_add_usize_def usize_max_def ok_or_def)
  moreover have "gate_step (?b False 1, 1, NoGuard) (?b True 1, 1, Waiting)"
    by (rule gate_step.begin_guard) (simp add: begin_drop_def)
  moreover have "gate_step (?b True 1, 1, Waiting) (?b True 0, 0, Waiting)"
    using gate_step.release [of 1 "?b True 1" Waiting] by (simp add: write_admission_drop_def)
  moreover have "gate_step (?b True 0, 0, Waiting) (?b True 0, 0, Drained)"
    by (rule gate_step.drained) (simp add: wait_for_writes_is_over_def)
  moreover have "gate_step (?b True 0, 0, Drained) (?b True 0, 0, Committed)"
    using gate_step.commit [of "?b True 0" 0] by (simp add: drop_guard_drop_def)
  ultimately have "gate_step\<^sup>*\<^sup>* gate_start (?b True 0, 0, Committed)"
    by (meson rtranclp.rtrancl_refl rtranclp.rtrancl_into_rtrancl)
  then show ?thesis using drop_gate_safe by blast
qed

end
