(* ===== verification/Lsm_Read.thy ===== *)
theory Lsm_Read
  imports Lsm_Tree
begin

text \<open>
  Point reads of a tree (\<^verbatim>\<open>src/src/lsm/read.rs\<close> and the batched table walk of \<^verbatim>\<open>lsm/version.rs\<close>): the
  snapshot of memtables, deltas and version that a read takes, the search for the newest visible record
  over memtables, deltas and tables with its shortcuts, the tombstone check, and the batched read that
  groups keys by table and removes duplicates. The optional block cache, the statistics and the
  asynchronous twins are not modelled (the batched one of these plans every table group before it reads
  the first); the read of a blob value is an argument.

  Shown here: a read returns what the reference semantics prescribes for the records and tombstones of
  the tree, and a batched read returns what the single reads return.
\<close>

section \<open>Snapshots\<close>

record lsm_point_read_snapshot =
  rs_version :: lsm_version
  rs_deltas :: "in_memory_delta list"
  rs_active_memtable :: memtable
  rs_active_range_tombstones :: "range_tombstone list"
  rs_immutable_memtables :: "immutable_memtable list"

definition point_read_snapshot_with_deltas :: "lsm_tree \<Rightarrow> in_memory_delta list \<Rightarrow> lsm_point_read_snapshot" where
  "point_read_snapshot_with_deltas t ds =
     \<lparr>rs_version = current_version t, rs_deltas = ds, rs_active_memtable = active_memtable t,
      rs_active_range_tombstones =
        (if active_range_tombstone_bytes t = 0 then [] else active_range_tombstones t),
      rs_immutable_memtables = (if has_immutable_memtable_fast t then immutable_memtables t else [])\<rparr>"

definition point_read_snapshot :: "lsm_tree \<Rightarrow> sequence \<Rightarrow> lsm_point_read_snapshot" where
  "point_read_snapshot t read_sequence =
     point_read_snapshot_with_deltas t
       (if delta_mirror_covers t read_sequence then [] else snapshot_all (delta_shards t))"

definition point_read_snapshot_for_key :: "lsm_tree \<Rightarrow> bytes \<Rightarrow> sequence \<Rightarrow> lsm_point_read_snapshot" where
  "point_read_snapshot_for_key t key read_sequence =
     point_read_snapshot_with_deltas t
       (if delta_mirror_covers t read_sequence then [] else snapshot_for_key (delta_shards t) key)"

definition point_read_snapshot_for_keys :: "lsm_tree \<Rightarrow> bytes list \<Rightarrow> sequence \<Rightarrow> lsm_point_read_snapshot" where
  "point_read_snapshot_for_keys t keys read_sequence =
     point_read_snapshot_with_deltas t
       (if delta_mirror_covers t read_sequence then [] else snapshot_for_keys (delta_shards t) keys)"

section \<open>Single reads\<close>

definition newest_visible_memtable_point_candidate_in_snapshot ::
  "lsm_point_read_snapshot \<Rightarrow> bytes \<Rightarrow> sequence \<Rightarrow> point_record option" where
  "newest_visible_memtable_point_candidate_in_snapshot snap key read_sequence =
     fold (\<lambda>d c.
       if (case c of None \<Rightarrow> False | Some current \<Rightarrow> d_sequence d \<le> ik_sequence (fst current)) then c
       else keep_newest_visible_memtable_point_candidate c (d_memtable d) key read_sequence) (rs_deltas snap)
     (fold (\<lambda>im c. keep_newest_visible_memtable_point_candidate c (im_memtable im) key read_sequence)
        (rs_immutable_memtables snap)
        (keep_newest_visible_memtable_point_candidate None (rs_active_memtable snap) key read_sequence))"

definition table_may_have_newer_point_record :: "table \<Rightarrow> sequence option \<Rightarrow> bool" where
  "table_may_have_newer_point_record tab newest =
     (case newest of None \<Rightarrow> True | Some sequence \<Rightarrow> largest_sequence (properties tab) \<ge> sequence)"

definition memtable_range_tombstones_in_snapshot :: "lsm_point_read_snapshot \<Rightarrow> range_tombstone list" where
  "memtable_range_tombstones_in_snapshot snap =
     rti_new rt_range
       (concat (map d_range_tombstones (rs_deltas snap)) @ rs_active_range_tombstones snap @
        concat (map im_range_tombstones (rs_immutable_memtables snap)))"

definition range_tombstones_cover ::
  "range_tombstone list \<Rightarrow> bytes \<Rightarrow> sequence \<Rightarrow> u32 \<Rightarrow> sequence \<Rightarrow> bool" where
  "range_tombstones_cover tombstones key point_sequence point_batch_index read_sequence =
     list_ex (\<lambda>ts. covers_visible_point ts key point_sequence point_batch_index read_sequence)
       (covering_key rt_range tombstones key)"

text \<open>\<open>read_blob\<close> stands for the blob read under the database path, absent for a database in memory. The
  single read contains the same code as \<^verbatim>\<open>resolve_point_candidate\<close>.\<close>

definition resolve_point_candidate ::
  "(value_ref \<Rightarrow> internal_key \<Rightarrow> bytes result) option \<Rightarrow> lsm_point_read_snapshot \<Rightarrow> range_tombstone list \<Rightarrow>
   bytes \<Rightarrow> point_record option \<Rightarrow> sequence \<Rightarrow> bytes option result" where
  "resolve_point_candidate read_blob snap memtable_range_tombstones key candidate read_sequence =
     (case candidate of
        None \<Rightarrow> Ok None
      | Some (ik, v) \<Rightarrow>
          (case ik_kind ik of
             Put \<Rightarrow>
               if range_tombstones_cover memtable_range_tombstones key (ik_sequence ik) (batch_index ik) read_sequence
               then Ok None
               else if list_ex (\<lambda>tab. table_range_tombstone_covers_visible_point tab key (ik_sequence ik)
                        (batch_index ik) read_sequence) (range_tombstone_tables_for_key (rs_version snap) key)
               then Ok None
               else and_then (point_value read_blob v ik) (\<lambda>bs. Ok (Some bs))
           | PointDelete \<Rightarrow> Ok None
           | RangeDelete \<Rightarrow> Ok None))"

definition read_visible_point_value_in_snapshot ::
  "(value_ref \<Rightarrow> internal_key \<Rightarrow> bytes result) option \<Rightarrow> index_search_policy \<Rightarrow> lsm_point_read_snapshot \<Rightarrow>
   bytes \<Rightarrow> sequence \<Rightarrow> bytes option result" where
  "read_visible_point_value_in_snapshot read_blob policy snap key read_sequence =
     and_then
       (for_each_point_lookup_table (rs_version snap) key
         (\<lambda>tab c. table_may_have_newer_point_record tab (map_option (\<lambda>r. ik_sequence (fst r)) c))
         (\<lambda>tab c. and_then (newest_visible_point_value_record_for_key tab key read_sequence policy)
            (\<lambda>rec. case rec of None \<Rightarrow> Ok c | Some r \<Rightarrow> Ok (keep_newer_point_candidate c (fst r) (snd r))))
         (newest_visible_memtable_point_candidate_in_snapshot snap key read_sequence))
       (\<lambda>candidate. resolve_point_candidate read_blob snap (memtable_range_tombstones_in_snapshot snap) key
          candidate read_sequence)"

definition read_visible_point ::
  "(value_ref \<Rightarrow> internal_key \<Rightarrow> bytes result) option \<Rightarrow> lsm_tree \<Rightarrow> bytes \<Rightarrow> sequence \<Rightarrow> bytes option result" where
  "read_visible_point read_blob t key read_sequence =
     read_visible_point_value_in_snapshot read_blob (bo_index_search_policy (tree_options t))
       (point_read_snapshot_for_key t key read_sequence) key read_sequence"

section \<open>Batched reads\<close>

record point_read_batch =
  unique_keys :: "bytes list"
  positions :: "usize list list"
  input_len :: usize

definition POINT_READ_BATCH_GROUPING_MIN_KEYS :: usize where "POINT_READ_BATCH_GROUPING_MIN_KEYS = 8"
definition POINT_READ_BATCH_LINEAR_DEDUP_MAX_KEYS :: usize where "POINT_READ_BATCH_LINEAR_DEDUP_MAX_KEYS = 32"

fun index_of :: "'a \<Rightarrow> 'a list \<Rightarrow> usize option" where
  "index_of x [] = None"
| "index_of x (y # ys) = (if x = y then Some 0 else map_option Suc (index_of x ys))"

fun batch_keys_linear ::
  "usize \<Rightarrow> bytes list \<Rightarrow> bytes list \<times> usize list list \<Rightarrow> bytes list \<times> usize list list" where
  "batch_keys_linear pos [] (us, ps) = (us, ps)"
| "batch_keys_linear pos (key # keys) (us, ps) =
     (case index_of key us of
        Some index \<Rightarrow> batch_keys_linear (pos + 1) keys (us, ps[index := ps ! index @ [pos]])
      | None \<Rightarrow> batch_keys_linear (pos + 1) keys (us @ [key], ps @ [[pos]]))"

fun batch_keys_indexed ::
  "usize \<Rightarrow> bytes list \<Rightarrow> (bytes \<times> usize) list \<times> bytes list \<times> usize list list \<Rightarrow> bytes list \<times> usize list list" where
  "batch_keys_indexed pos [] (m, us, ps) = (us, ps)"
| "batch_keys_indexed pos (key # keys) (m, us, ps) =
     (case map_of m key of
        Some index \<Rightarrow> batch_keys_indexed (pos + 1) keys (m, us, ps[index := ps ! index @ [pos]])
      | None \<Rightarrow>
          batch_keys_indexed (pos + 1) keys (btree_insert key (length us) m, us @ [key], ps @ [[pos]]))"

definition batch_from_keys :: "bytes list \<Rightarrow> point_read_batch" where
  "batch_from_keys keys =
     (let (us, ps) = (if length keys \<le> POINT_READ_BATCH_LINEAR_DEDUP_MAX_KEYS
                      then batch_keys_linear 0 keys ([], []) else batch_keys_indexed 0 keys ([], [], []))
      in \<lparr>unique_keys = us, positions = ps, input_len = length keys\<rparr>)"

definition batch_scatter :: "point_read_batch \<Rightarrow> 'v option list \<Rightarrow> 'v option list" where
  "batch_scatter batch unique_values =
     fold (\<lambda>(ps, v) vals. fold (\<lambda>pos vals. vals[pos := v]) ps vals)
       (zip (positions batch) unique_values) (replicate (input_len batch) None)"

fun keys_are_unique :: "bytes list \<Rightarrow> bytes list \<Rightarrow> bool" where
  "keys_are_unique seen [] = True"
| "keys_are_unique seen (key # keys) = (key \<notin> set seen \<and> keys_are_unique (seen @ [key]) keys)"

definition point_read_batch_prefers_single_key_path :: "bytes list \<Rightarrow> bool" where
  "point_read_batch_prefers_single_key_path keys =
     (length keys < POINT_READ_BATCH_GROUPING_MIN_KEYS \<and> keys_are_unique [] keys)"

text \<open>The walk over the tables for many keys. The closures share the state \<open>c\<close>.\<close>

definition l0_key_indices ::
  "bytes list \<Rightarrow> (table \<Rightarrow> usize \<Rightarrow> 'c \<Rightarrow> bool) \<Rightarrow> table \<Rightarrow> 'c \<Rightarrow> usize list" where
  "l0_key_indices keys should_probe tab c =
     filter (\<lambda>i. key_bounds_may_contain_key tab (keys ! i) \<and> should_probe tab i c \<and>
                 table_may_contain_key tab (keys ! i)) [0..<length keys]"

definition level_key_step ::
  "level_state \<Rightarrow> bytes list \<Rightarrow> (table \<Rightarrow> usize \<Rightarrow> 'c \<Rightarrow> bool) \<Rightarrow> (table \<Rightarrow> usize list \<Rightarrow> 'c \<Rightarrow> 'c result) \<Rightarrow>
   usize \<Rightarrow> table option \<times> usize list \<times> 'c \<Rightarrow> (table option \<times> usize list \<times> 'c) result" where
  "level_key_step ls keys should_probe visit i = (\<lambda>(current, indices, c).
     case table_for_key ls (keys ! i) of
       None \<Rightarrow> Ok (current, indices, c)
     | Some tab \<Rightarrow>
         if \<not> should_probe tab i c \<or> \<not> table_may_contain_key tab (keys ! i) then Ok (current, indices, c)
         else
           (case current of
              None \<Rightarrow> Ok (Some tab, indices @ [i], c)
            | Some cur \<Rightarrow>
                if tp_id (properties cur) \<noteq> tp_id (properties tab)
                then and_then (visit cur indices c) (\<lambda>c. Ok (Some tab, [i], c))
                else Ok (current, indices @ [i], c)))"

definition for_each_point_lookup_table_for_keys ::
  "lsm_version \<Rightarrow> bytes list \<Rightarrow> (table \<Rightarrow> usize \<Rightarrow> 'c \<Rightarrow> bool) \<Rightarrow> (table \<Rightarrow> usize list \<Rightarrow> 'c \<Rightarrow> 'c result) \<Rightarrow>
   'c \<Rightarrow> 'c result" where
  "for_each_point_lookup_table_for_keys v keys should_probe visit c =
     fold_result (\<lambda>ls c.
       if ls_level ls = 0
       then fold_result (\<lambda>tab c.
              let indices = l0_key_indices keys should_probe tab c
              in if indices = [] then Ok c else visit tab indices c) (ls_tables ls) c
       else and_then (fold_result (level_key_step ls keys should_probe visit) [0..<length keys] (None, [], c))
              (\<lambda>(current, indices, c). case current of None \<Rightarrow> Ok c | Some tab \<Rightarrow> visit tab indices c)) (levels v) c"

definition keep_batch_record ::
  "usize list \<Rightarrow> usize \<times> point_record option \<Rightarrow> point_record option list \<Rightarrow> point_record option list" where
  "keep_batch_record indices = (\<lambda>(local_index, rec) candidates.
     case rec of
       None \<Rightarrow> candidates
     | Some r \<Rightarrow>
         let i = indices ! local_index
         in candidates[i := keep_newer_point_candidate (candidates ! i) (fst r) (snd r)])"

definition visit_batch_table ::
  "bytes list \<Rightarrow> sequence \<Rightarrow> index_search_policy \<Rightarrow> table \<Rightarrow> usize list \<Rightarrow> point_record option list \<Rightarrow>
   point_record option list result" where
  "visit_batch_table keys read_sequence policy tab indices candidates =
     and_then (newest_visible_point_value_records_for_keys tab (map ((!) keys) indices) read_sequence policy)
       (\<lambda>recs. Ok (fold (keep_batch_record indices) (enumerate 0 recs) candidates))"

definition read_visible_point_values_in_snapshot ::
  "(value_ref \<Rightarrow> internal_key \<Rightarrow> bytes result) option \<Rightarrow> index_search_policy \<Rightarrow> lsm_point_read_snapshot \<Rightarrow>
   bytes list \<Rightarrow> sequence \<Rightarrow> bytes option list result" where
  "read_visible_point_values_in_snapshot read_blob policy snap keys read_sequence =
     (if keys = [] then Ok []
      else if point_read_batch_prefers_single_key_path keys
      then map_result (\<lambda>key. read_visible_point_value_in_snapshot read_blob policy snap key read_sequence) keys
      else
        let batch = batch_from_keys keys;
            us = unique_keys batch;
            candidates = map (\<lambda>key. newest_visible_memtable_point_candidate_in_snapshot snap key read_sequence) us
        in and_then
             (for_each_point_lookup_table_for_keys (rs_version snap) us
               (\<lambda>tab i c. table_may_have_newer_point_record tab (map_option (\<lambda>r. ik_sequence (fst r)) (c ! i)))
               (visit_batch_table us read_sequence policy) candidates)
             (\<lambda>candidates.
               if list_all (\<lambda>c. c = None) candidates
               then Ok (batch_scatter batch (replicate (length us) None))
               else
                 let tombstones = memtable_range_tombstones_in_snapshot snap
                 in and_then (map_result (\<lambda>(key, c). resolve_point_candidate read_blob snap tombstones key c
                                read_sequence) (zip us candidates))
                      (\<lambda>vals. Ok (batch_scatter batch vals))))"

section \<open>Lemmas on single reads\<close>

lemma newer_sequence_first:
  "user_key a = user_key b \<Longrightarrow> ik_sequence b < ik_sequence a \<Longrightarrow> a \<le> b"
  by (simp add: less_eq_internal_key_iff)

interpretation dlt: point_source delta_ok "\<lambda>d. delta_records d" "\<lambda>d. memtable_lookup (d_memtable d)"
  by unfold_locales (simp add: delta_ok_def mem.lookup_newest)

text \<open>What a read relies on: the sources are well formed, and no version of a key is in two of the deltas
  or in a delta and a memtable.\<close>

definition snapshot_ok :: "lsm_point_read_snapshot \<Rightarrow> bool" where
  "snapshot_ok snap \<longleftrightarrow>
     memtable_ok (rs_active_memtable snap) \<and> (\<forall>im\<in>set (rs_immutable_memtables snap). memtable_ok (im_memtable im)) \<and>
     (\<forall>d\<in>set (rs_deltas snap). delta_ok d) \<and> chain_separate (rs_deltas snap) \<and>
     separate (set (mt_entries (rs_active_memtable snap)) \<union>
        (\<Union>im\<in>set (rs_immutable_memtables snap). set (mt_entries (im_memtable im)))) (chain_records (rs_deltas snap)) \<and>
     version_ok (rs_version snap) \<and> (\<forall>tab\<in>set (table_handles (rs_version snap)). table_wf tab)"

definition snapshot_records :: "lsm_point_read_snapshot \<Rightarrow> point_record set" where
  "snapshot_records snap =
     set (mt_entries (rs_active_memtable snap)) \<union>
     (\<Union>im\<in>set (rs_immutable_memtables snap). set (mt_entries (im_memtable im))) \<union>
     chain_records (rs_deltas snap) \<union> version_records (rs_version snap)"

definition snapshot_tombstones :: "lsm_point_read_snapshot \<Rightarrow> range_tombstone set" where
  "snapshot_tombstones snap =
     chain_tombstones (rs_deltas snap) \<union> set (rs_active_range_tombstones snap) \<union>
     (\<Union>im\<in>set (rs_immutable_memtables snap). set (im_range_tombstones im)) \<union> version_tombstones (rs_version snap)"

lemma fold_immutables_newest:
  assumes "\<forall>im\<in>set ims. memtable_ok (im_memtable im)" "newest_of c S"
  shows "newest_of (fold (\<lambda>im c. keep_newest_visible_memtable_point_candidate c (im_memtable im) key s) ims c)
    (S \<union> (\<Union>im\<in>set ims. visible_records key s (set (mt_entries (im_memtable im)))))"
  using assms
proof (induction ims arbitrary: c S)
  case (Cons im ims)
  have "newest_of (keep_newest_visible_memtable_point_candidate c (im_memtable im) key s)
      (S \<union> visible_records key s (set (mt_entries (im_memtable im))))"
    unfolding memtable_candidate_merge [of c]
    by (rule merge_candidate_newest [OF Cons.prems(2) memtable_candidate_newest]) (use Cons.prems(1) in simp)
  from Cons.IH [OF _ this] Cons.prems(1) show ?case by (simp add: Un_assoc)
qed simp

lemma fold_deltas_newest:
  assumes ok: "\<forall>d\<in>set ds. delta_ok d" "chain_separate ds" and c: "newest_of c (visible_records key s R)"
    and sep: "separate R (chain_records ds)"
  shows "newest_of (fold (\<lambda>d c.
       if (case c of None \<Rightarrow> False | Some current \<Rightarrow> d_sequence d \<le> ik_sequence (fst current)) then c
       else keep_newest_visible_memtable_point_candidate c (d_memtable d) key s) ds c)
    (visible_records key s (R \<union> chain_records ds))"
proof -
  let ?probe = "\<lambda>d c. \<not> (case c of None \<Rightarrow> False | Some current \<Rightarrow> d_sequence d \<le> ik_sequence (fst current))"
  let ?V = "\<lambda>d. visible_records key s (delta_records d)"
  have eq: "fold_result (\<lambda>d c. if ?probe d c
        then and_then (memtable_lookup (d_memtable d) key s) (\<lambda>x. Inr (merge_candidate c x)) else Inr c) ds c =
      Inr (fold (\<lambda>d c. if \<not> ?probe d c then c
        else keep_newest_visible_memtable_point_candidate c (d_memtable d) key s) ds c)" for c
    by (induction ds arbitrary: c) (simp_all add: memtable_lookup_def memtable_candidate_merge [symmetric])
  have "\<exists>c'. fold_result (\<lambda>d c. if ?probe d c
        then and_then (memtable_lookup (d_memtable d) key s) (\<lambda>x. Inr (merge_candidate c x)) else Inr c) ds c = Inr c' \<and>
      newest_of c' (visible_records key s R \<union> (\<Union>d\<in>set ds. ?V d))"
  proof (rule dlt.fold_lookup_newest [OF ok(1) c])
    show "fst e0 \<le> fst e" if "ds = xs @ d # ys" "e0 \<in> visible_records key s R \<union> (\<Union>x\<in>set xs. ?V x)" "e \<in> ?V d"
      "\<not> ?probe d (Some e0)" for xs d ys e0 e
    proof (rule newer_sequence_first)
      show "user_key (fst e0) = user_key (fst e)" using that(2,3) by (auto simp: record_simps)
      have "separate (delta_records x) (delta_records d)" if "x \<in> set xs" for x
        using ok(2) that \<open>ds = xs @ d # ys\<close> by (auto simp: sorted_wrt_append)
      moreover have "separate R (delta_records d)"
        using sep that(1) unfolding separate_def chain_records_def by auto
      ultimately have "ik_sequence (fst e0) \<noteq> ik_sequence (fst e)"
        using that(2,3) unfolding separate_def by (fastforce simp: record_simps)
      moreover have "ik_sequence (fst e) \<le> d_sequence d"
        using ok(1) that(1,3) by (auto simp: delta_ok_def record_simps)
      ultimately show "ik_sequence (fst e) < ik_sequence (fst e0)" using that(4) by auto
    qed
  qed simp
  then show ?thesis
    unfolding eq by (simp add: chain_records_def record_simps)
qed

lemma memtable_candidate_in_snapshot:
  assumes "snapshot_ok snap"
  shows "newest_of (newest_visible_memtable_point_candidate_in_snapshot snap key s)
    (visible_records key s (set (mt_entries (rs_active_memtable snap)) \<union>
       (\<Union>im\<in>set (rs_immutable_memtables snap). set (mt_entries (im_memtable im))) \<union> chain_records (rs_deltas snap)))"
proof -
  have ok: "memtable_ok (rs_active_memtable snap)" "\<forall>im\<in>set (rs_immutable_memtables snap). memtable_ok (im_memtable im)"
    using assms unfolding snapshot_ok_def by blast+
  have "newest_of (fold (\<lambda>im c. keep_newest_visible_memtable_point_candidate c (im_memtable im) key s)
        (rs_immutable_memtables snap)
        (keep_newest_visible_memtable_point_candidate None (rs_active_memtable snap) key s))
      (visible_records key s (set (mt_entries (rs_active_memtable snap)) \<union>
       (\<Union>im\<in>set (rs_immutable_memtables snap). set (mt_entries (im_memtable im)))))"
    using fold_immutables_newest [OF ok(2) memtable_candidate_newest [OF ok(1), of key s]] by (simp add: record_simps)
  from fold_deltas_newest [OF _ _ this] assms show ?thesis
    unfolding newest_visible_memtable_point_candidate_in_snapshot_def snapshot_ok_def by blast
qed

lemma visit_merge:
  "and_then r (\<lambda>rec. case rec of None \<Rightarrow> Inr c | Some e \<Rightarrow> Inr (keep_newer_point_candidate c (fst e) (snd e))) =
   and_then r (\<lambda>d. Inr (merge_candidate c d))"
  by (cases r) (auto simp: merge_candidate_def split: option.splits)

abbreviation probe_newer :: "table \<Rightarrow> point_record option \<Rightarrow> bool" where
  "probe_newer tab c \<equiv> table_may_have_newer_point_record tab (map_option (\<lambda>r. ik_sequence (fst r)) c)"

definition table_candidate ::
  "lsm_version \<Rightarrow> index_search_policy \<Rightarrow> bytes \<Rightarrow> sequence \<Rightarrow> point_record option \<Rightarrow> point_record option result" where
  "table_candidate v policy key s c =
     fold_result (\<lambda>tab c. if probe_newer tab c
       then and_then (newest_visible_point_value_record_for_key tab key s policy) (\<lambda>d. Inr (merge_candidate c d))
       else Inr c) (point_lookup_tables v key) c"

lemma read_visible_point_value_in_snapshot_eq:
  "read_visible_point_value_in_snapshot read_blob policy snap key s =
     and_then (table_candidate (rs_version snap) policy key s
         (newest_visible_memtable_point_candidate_in_snapshot snap key s))
       (\<lambda>c. resolve_point_candidate read_blob snap (memtable_range_tombstones_in_snapshot snap) key c s)"
  unfolding read_visible_point_value_in_snapshot_def for_each_point_lookup_table_eq table_candidate_def
  by (simp only: visit_merge)

lemma table_candidate_newest:
  assumes v: "version_ok v" "\<forall>tab\<in>set (table_handles v). table_wf tab"
    and c: "newest_of c (visible_records key s R)"
  shows "\<exists>c'. table_candidate v policy key s c = Inr c' \<and>
    newest_of c' (visible_records key s (R \<union> version_records v))"
proof -
  let ?ts = "point_lookup_tables v key"
  let ?V = "\<lambda>tab. visible_records key s (set (table_records tab))"
  have ts: "set ?ts = {tab \<in> set (table_handles v). table_may_contain_key tab key}"
    by (rule set_point_lookup_tables [OF v(1)])
  have "\<forall>tab\<in>set ?ts. table_ok tab" using v(2) ts by (auto simp: table_wf_def)
  then have "\<exists>c'. table_candidate v policy key s c = Inr c' \<and>
      newest_of c' (visible_records key s R \<union> (\<Union>tab\<in>set ?ts. ?V tab))"
    unfolding table_candidate_def
  proof (rule tbl.fold_lookup_newest [OF _ c])
    show "e \<notin> ?V tab" if "tab \<in> set ?ts" "\<not> probe_newer tab None" for tab e
      using that by (simp add: table_may_have_newer_point_record_def)
    show "fst e0 \<le> fst e" if "?ts = xs @ tab # ys" "e0 \<in> visible_records key s R \<union> (\<Union>x\<in>set xs. ?V x)" "e \<in> ?V tab"
      "\<not> probe_newer tab (Some e0)" for xs tab ys e0 e
    proof (rule newer_sequence_first)
      show "user_key (fst e0) = user_key (fst e)" using that(2,3) by (auto simp: record_simps)
      have "tab \<in> set (table_handles v)" using that(1) ts by auto
      then have "ik_sequence (fst e) \<le> largest_sequence (properties tab)"
        using v(2) that(3) by (auto simp: table_wf_def record_simps)
      then show "ik_sequence (fst e) < ik_sequence (fst e0)"
        using that(4) by (simp add: table_may_have_newer_point_record_def)
    qed
  qed
  moreover have "table_may_contain_key tab (user_key (fst e))"
    if "tab \<in> set (table_handles v)" "e \<in> set (table_records tab)" for tab e
    using v(2) that unfolding table_wf_def by blast
  then have "(\<Union>tab\<in>set ?ts. ?V tab) = visible_records key s (version_records v)"
    unfolding ts version_records_def visible_records_def by blast
  ultimately show ?thesis by (simp add: record_simps)
qed

lemma range_tombstones_cover_iff:
  "range_tombstones_cover (memtable_range_tombstones_in_snapshot snap) key ps pb s \<longleftrightarrow>
   (\<exists>ts\<in>chain_tombstones (rs_deltas snap) \<union> set (rs_active_range_tombstones snap) \<union>
      (\<Union>im\<in>set (rs_immutable_memtables snap). set (im_range_tombstones im)). covers_visible_point ts key ps pb s)"
  unfolding range_tombstones_cover_def memtable_range_tombstones_in_snapshot_def list_ex_iff rti.set_covering
    chain_tombstones_def
  by (auto simp: covers_visible_point_iff)

lemma table_tombstones_cover_iff:
  assumes "version_ok v" "\<forall>tab\<in>set (table_handles v). table_wf tab"
  shows "list_ex (\<lambda>tab. table_range_tombstone_covers_visible_point tab key ps pb s)
      (range_tombstone_tables_for_key v key) \<longleftrightarrow>
    (\<exists>ts\<in>version_tombstones v. covers_visible_point ts key ps pb s)"
proof -
  have cov: "table_range_tombstone_covers_visible_point tab key ps pb s \<longleftrightarrow>
      (\<exists>ts\<in>set (tbl_range_tombstones tab). covers_visible_point ts key ps pb s)" if "tab \<in> set (table_handles v)" for tab
    using table_covers_iff assms(2) that unfolding table_wf_def by blast
  have sel: "may_have_range_tombstones tab \<and> key_bounds_may_contain_key tab key"
    if "tab \<in> set (table_handles v)" "ts \<in> set (tbl_range_tombstones tab)" "covers_visible_point ts key ps pb s" for tab ts
    using assms(2) that unfolding table_wf_def covers_visible_point_iff by fastforce
  have l: "list_ex (\<lambda>tab. table_range_tombstone_covers_visible_point tab key ps pb s)
      (range_tombstone_tables_for_key v key) \<longleftrightarrow>
    (\<exists>tab\<in>set (table_handles v). (may_have_range_tombstones tab \<and> key_bounds_may_contain_key tab key) \<and>
        table_range_tombstone_covers_visible_point tab key ps pb s)"
    unfolding list_ex_iff set_range_tombstone_tables_for_key [OF assms(1)] by blast
  have r: "(\<exists>ts\<in>version_tombstones v. covers_visible_point ts key ps pb s) \<longleftrightarrow>
      (\<exists>tab\<in>set (table_handles v). \<exists>ts\<in>set (tbl_range_tombstones tab). covers_visible_point ts key ps pb s)"
    unfolding version_tombstones_def by blast
  have "(may_have_range_tombstones tab \<and> key_bounds_may_contain_key tab key) \<and>
        table_range_tombstone_covers_visible_point tab key ps pb s \<longleftrightarrow>
      (\<exists>ts\<in>set (tbl_range_tombstones tab). covers_visible_point ts key ps pb s)" if "tab \<in> set (table_handles v)" for tab
    using cov [OF that] sel [OF that] by blast
  then show ?thesis unfolding l r by (rule bex_cong [OF refl])
qed

lemma resolve_point_candidate_eq:
  assumes "snapshot_ok snap" "\<And>r. c = Some r \<Longrightarrow> user_key (fst r) = key"
  shows "resolve_point_candidate read_blob snap (memtable_range_tombstones_in_snapshot snap) key c s =
    mvcc_result read_blob (snapshot_tombstones snap) s c"
proof (cases c)
  case (Some r)
  obtain ik v where r: "r = (ik, v)" by fastforce
  have v: "version_ok (rs_version snap)" "\<forall>tab\<in>set (table_handles (rs_version snap)). table_wf tab"
    using assms(1) unfolding snapshot_ok_def by blast+
  have "hidden_by (snapshot_tombstones snap) ik s \<longleftrightarrow>
      range_tombstones_cover (memtable_range_tombstones_in_snapshot snap) key (ik_sequence ik) (batch_index ik) s \<or>
      list_ex (\<lambda>tab. table_range_tombstone_covers_visible_point tab key (ik_sequence ik) (batch_index ik) s)
        (range_tombstone_tables_for_key (rs_version snap) key)"
    using assms(2) [OF Some]
    unfolding range_tombstones_cover_iff table_tombstones_cover_iff [OF v] hidden_by_def snapshot_tombstones_def r
    by auto
  then show ?thesis
    by (cases "ik_kind ik") (auto simp: resolve_point_candidate_def mvcc_result_def Some r)
qed (simp add: resolve_point_candidate_def mvcc_result_def)

lemma snapshot_read_correct:
  assumes "snapshot_ok snap"
  shows "mvcc_read read_blob (snapshot_records snap) (snapshot_tombstones snap) key s
    (read_visible_point_value_in_snapshot read_blob policy snap key s)"
proof -
  have v: "version_ok (rs_version snap)" "\<forall>tab\<in>set (table_handles (rs_version snap)). table_wf tab"
    using assms unfolding snapshot_ok_def by blast+
  obtain c where c: "table_candidate (rs_version snap) policy key s
      (newest_visible_memtable_point_candidate_in_snapshot snap key s) = Inr c"
    "newest_of c (visible_records key s (snapshot_records snap))"
    using table_candidate_newest [OF v memtable_candidate_in_snapshot [OF assms]] unfolding snapshot_records_def by blast
  have "user_key (fst r) = key" if "c = Some r" for r
    using c(2) that by (simp add: record_simps)
  from mvcc_readI [OF c(2) resolve_point_candidate_eq [OF assms this]] show ?thesis
    unfolding read_visible_point_value_in_snapshot_eq c(1) by simp
qed

section \<open>Reads of a tree\<close>

lemma tree_snapshot_parts:
  assumes "tree_ok t"
  shows "rs_active_range_tombstones (point_read_snapshot_with_deltas t ds) = active_range_tombstones t"
    "rs_immutable_memtables (point_read_snapshot_with_deltas t ds) = immutable_memtables t"
proof -
  have b: "unat (active_range_tombstone_bytes t) = tombstone_bytes (active_range_tombstones t)"
    "immutable_memtable_count t = length (immutable_memtables t)"
    using assms unfolding tree_ok_def by blast+
  show "rs_active_range_tombstones (point_read_snapshot_with_deltas t ds) = active_range_tombstones t"
    using b(1) by (auto simp: point_read_snapshot_with_deltas_def tombstone_bytes_zero)
  show "rs_immutable_memtables (point_read_snapshot_with_deltas t ds) = immutable_memtables t"
    using b(2) by (auto simp: point_read_snapshot_with_deltas_def has_immutable_memtable_fast_def)
qed

lemma tree_snapshot_sets:
  assumes "tree_ok t"
  shows "snapshot_records (point_read_snapshot_with_deltas t ds) =
      chain_records ds \<union> memory_records t \<union> version_records (current_version t)"
    "snapshot_tombstones (point_read_snapshot_with_deltas t ds) =
      chain_tombstones ds \<union> memory_tombstones t \<union> version_tombstones (current_version t)"
  unfolding snapshot_records_def snapshot_tombstones_def tree_snapshot_parts [OF assms]
  by (auto simp: point_read_snapshot_with_deltas_def memory_records_def memory_tombstones_def)

lemma tree_snapshot_ok:
  assumes t: "tree_ok t" and ds: "\<forall>d\<in>set ds. delta_ok d" "chain_separate ds"
    "chain_records ds \<subseteq> shards_records (delta_shards t)"
  shows "snapshot_ok (point_read_snapshot_with_deltas t ds)"
proof -
  have "separate (memory_records t) (chain_records ds)"
    using t ds(3) unfolding tree_ok_def separate_def by blast
  then show ?thesis
    using t ds(1,2) unfolding snapshot_ok_def tree_snapshot_parts [OF t] tree_ok_def memory_records_def
    by (simp add: point_read_snapshot_with_deltas_def)
qed

lemma shard_chain:
  assumes "shards_ok shards" "j < DELTA_SHARD_COUNT"
  shows "\<forall>d\<in>set (shard_snapshot (shards ! j)). delta_ok d" "chain_separate (shard_snapshot (shards ! j))"
    "chain_records (shard_snapshot (shards ! j)) \<subseteq> shards_records shards"
proof -
  have "length shards = DELTA_SHARD_COUNT" "shard_ok j (shards ! j)" using assms unfolding shards_ok_def by blast+
  moreover from this(1) assms(2) have "shards ! j \<in> set shards" by simp
  ultimately show "\<forall>d\<in>set (shard_snapshot (shards ! j)). delta_ok d" "chain_separate (shard_snapshot (shards ! j))"
    "chain_records (shard_snapshot (shards ! j)) \<subseteq> shards_records shards"
    unfolding shard_ok_def chain_ok_def shards_records_def by blast+
qed

text \<open>The deltas a read of a key takes: none when the mirror covers the read, since they are empty then.\<close>

lemma key_deltas:
  fixes key s
  assumes "tree_ok t"
  defines "ds \<equiv> if delta_mirror_covers t s then [] else snapshot_for_key (delta_shards t) key"
  shows "\<forall>d\<in>set ds. delta_ok d" "chain_separate ds" "chain_records ds \<subseteq> shards_records (delta_shards t)"
    "visible_records key s (chain_records ds) = visible_records key s (shards_records (delta_shards t))"
    "chain_tombstones ds = shards_tombstones (delta_shards t)"
proof -
  have ok: "shards_ok (delta_shards t)" and mirror: "delta_mirror_sequence t \<noteq> 0 \<longrightarrow>
      shards_records (delta_shards t) = {} \<and> shards_tombstones (delta_shards t) = {}"
    using assms(1) unfolding tree_ok_def by blast+
  have n: "length (delta_shards t) = DELTA_SHARD_COUNT" using ok unfolding shards_ok_def by blast
  note chain = shard_chain [OF ok shard_index_less [of key]]
  show "\<forall>d\<in>set ds. delta_ok d" "chain_separate ds" "chain_records ds \<subseteq> shards_records (delta_shards t)"
    using chain by (auto simp: ds_def snapshot_for_key_def n)
  show "visible_records key s (chain_records ds) = visible_records key s (shards_records (delta_shards t))"
    "chain_tombstones ds = shards_tombstones (delta_shards t)"
    using mirror snapshot_for_key_records [OF ok, of key s] snapshot_for_key_tombstones [OF ok, of key]
    by (auto simp: ds_def delta_mirror_covers_def)
qed

lemma mvcc_read_cong:
  "visible_records key s R = visible_records key s R' \<Longrightarrow> mvcc_read rb R T key s r \<longleftrightarrow> mvcc_read rb R' T key s r"
  by (simp add: mvcc_read_def)

lemma tree_read_correct:
  assumes "tree_ok t"
  shows "mvcc_read read_blob (tree_records t) (tree_tombstones t) key s (read_visible_point read_blob t key s)"
proof -
  let ?ds = "if delta_mirror_covers t s then [] else snapshot_for_key (delta_shards t) key"
  let ?snap = "point_read_snapshot_with_deltas t ?ds"
  note ds = key_deltas [OF assms, where key = key and s = s]
  have "mvcc_read read_blob (snapshot_records ?snap) (snapshot_tombstones ?snap) key s
      (read_visible_point_value_in_snapshot read_blob (bo_index_search_policy (tree_options t)) ?snap key s)"
    by (rule snapshot_read_correct [OF tree_snapshot_ok [OF assms ds(1-3)]])
  moreover have "visible_records key s (snapshot_records ?snap) = visible_records key s (tree_records t)"
    unfolding tree_snapshot_sets(1) [OF assms] tree_records_def using ds(4) by (simp add: record_simps)
  moreover have "snapshot_tombstones ?snap = tree_tombstones t"
    unfolding tree_snapshot_sets(2) [OF assms] tree_tombstones_def using ds(5) by simp
  ultimately show ?thesis
    unfolding read_visible_point_def point_read_snapshot_for_key_def using mvcc_read_cong by metis
qed

text \<open>C1: A point read of a tree returns an answer that the reference semantics of the store prescribes:
  of the records of the key that the read sequence can see, over deltas, memtables, frozen memtables
  and the tables of every level, the newest decides, and it counts as absent when it is a deletion or a
  newer visible range tombstone of any of these sources covers the key. Skipping a delta or a table by
  its sequence, pruning a table by bounds or filter and passing over empty sources change nothing.\<close>
theorem tree_read_refines:
  assumes "tree_ok t"
  shows "mvcc_read read_blob (tree_records t) (tree_tombstones t) key s (read_visible_point read_blob t key s)"
  using assms by (rule tree_read_correct)

theorem tree_read_refines_witness:
  "read_visible_point None (apply_operation sample_tree (OpPut [] [1] [9]) 5 0) [1] 7 = Ok (Some [9])"
proof -
  let ?t = "apply_operation sample_tree (OpPut [] [1] [9]) 5 0"
  have t: "tree_ok ?t" "tree_records ?t = {(InternalKey [1] 5 Put 0, Some (Inline [9]))}" "tree_tombstones ?t = {}"
    using apply_operation_ok [OF sample_tree_ok(1) _ _ sample_put_fits] by (simp_all add: sample_tree_simps sample_tree_ok)
  have "visible_records [1] 7 (tree_records ?t) = {(InternalKey [1] 5 Put 0, Some (Inline [9]))}"
    by (auto simp: t(2) record_simps word_le_nat_alt)
  then show ?thesis
    using tree_read_refines [OF t(1), of None "[1]" 7]
    by (auto simp: mvcc_read_def newest_of_def mvcc_result_def hidden_by_def t(3) point_value_def ok_or_def
        split: option.splits)
qed

section \<open>Removing duplicate keys\<close>

definition uniq :: "bytes list \<Rightarrow> bytes list" where
  "uniq keys = rev (remdups (rev keys))"

lemma uniq_simps [simp]: "uniq [] = []" "uniq (xs @ [k]) = (if k \<in> set xs then uniq xs else uniq xs @ [k])"
  by (simp_all add: uniq_def)

lemma set_uniq [simp]: "set (uniq keys) = set keys" and distinct_uniq [simp]: "distinct (uniq keys)"
  by (simp_all add: uniq_def)

lemma index_of_Some: "index_of x xs = Some i \<Longrightarrow> i < length xs \<and> xs ! i = x"
  by (induction xs arbitrary: i) (auto split: if_splits)

lemma index_of_None: "index_of x xs = None \<longleftrightarrow> x \<notin> set xs"
  by (induction xs) auto

lemma index_of_append: "index_of x (xs @ [y]) =
   (case index_of x xs of Some i \<Rightarrow> Some i | None \<Rightarrow> if x = y then Some (length xs) else None)"
  by (induction xs) (auto split: option.splits)

definition batch_inv :: "bytes list \<Rightarrow> bytes list \<Rightarrow> usize list list \<Rightarrow> bool" where
  "batch_inv keys us ps \<longleftrightarrow> us = uniq keys \<and> length ps = length us \<and>
     (\<forall>u<length us. \<forall>p. p \<in> set (ps ! u) \<longleftrightarrow> p < length keys \<and> keys ! p = us ! u)"

lemma batch_inv_snoc:
  assumes "batch_inv keys us ps"
  shows "index_of key us = Some i \<Longrightarrow> batch_inv (keys @ [key]) us (ps[i := ps ! i @ [length keys]])"
    "index_of key us = None \<Longrightarrow> batch_inv (keys @ [key]) (us @ [key]) (ps @ [[length keys]])"
proof -
  have us: "us = uniq keys" "length ps = length us"
    "\<And>u p. u < length us \<Longrightarrow> p \<in> set (ps ! u) \<longleftrightarrow> p < length keys \<and> keys ! p = us ! u"
    using assms unfolding batch_inv_def by blast+
  show "batch_inv (keys @ [key]) us (ps[i := ps ! i @ [length keys]])" if "index_of key us = Some i"
  proof -
    have i: "i < length us" "us ! i = key" using index_of_Some [OF that] by auto
    then have "key \<in> set keys" using us(1) set_uniq nth_mem by metis
    moreover have "key = us ! u \<longleftrightarrow> u = i" "us ! u = key \<longleftrightarrow> u = i" if "u < length us" for u
      using i that distinct_uniq [of keys] by (auto simp: us(1) nth_eq_iff_index_eq)
    ultimately show ?thesis
      using us i by (auto simp: batch_inv_def nth_list_update nth_append less_Suc_eq)
  qed
  show "batch_inv (keys @ [key]) (us @ [key]) (ps @ [[length keys]])" if "index_of key us = None"
  proof -
    have "key \<notin> set keys" using that us(1) by (simp add: index_of_None)
    then have "us ! u \<noteq> key" if "u < length us" for u
      using that nth_mem us(1) set_uniq by metis
    moreover have "keys ! p \<noteq> key" if "p < length keys" for p using that \<open>key \<notin> set keys\<close> nth_mem by metis
    ultimately show ?thesis
      using us \<open>key \<notin> set keys\<close> by (auto simp: batch_inv_def nth_append less_Suc_eq)
  qed
qed

lemma batch_keys_linear_inv:
  "batch_inv seen us ps \<Longrightarrow> batch_keys_linear (length seen) keys (us, ps) = (us', ps') \<Longrightarrow>
   batch_inv (seen @ keys) us' ps'"
proof (induction keys arbitrary: seen us ps)
  case (Cons key keys)
  show ?case
  proof (cases "index_of key us")
    case None
    then show ?thesis
      using Cons.IH [OF batch_inv_snoc(2) [OF Cons.prems(1) None]] Cons.prems(2) by simp
  next
    case (Some i)
    then show ?thesis
      using Cons.IH [OF batch_inv_snoc(1) [OF Cons.prems(1) Some]] Cons.prems(2) by simp
  qed
qed simp

lemma batch_keys_indexed_inv:
  "batch_inv seen us ps \<Longrightarrow> btree_ok m \<Longrightarrow> (\<And>k. map_of m k = index_of k us) \<Longrightarrow>
   batch_keys_indexed (length seen) keys (m, us, ps) = (us', ps') \<Longrightarrow> batch_inv (seen @ keys) us' ps'"
proof (induction keys arbitrary: seen us ps m)
  case (Cons key keys)
  show ?case
  proof (cases "index_of key us")
    case None
    have "map_of (btree_insert key (length us) m) k = index_of k (us @ [key])" for k
      using Cons.prems(3) None by (auto simp: map_of_btree_insert [OF Cons.prems(2)] index_of_append split: option.splits)
    then show ?thesis
      using Cons.IH [OF batch_inv_snoc(2) [OF Cons.prems(1) None]
          btree_ok_insert [OF Cons.prems(2), of key "length us"]] Cons.prems(3,4) None by simp
  next
    case (Some i)
    then show ?thesis
      using Cons.IH [OF batch_inv_snoc(1) [OF Cons.prems(1) Some] Cons.prems(2,3)] Cons.prems(3,4) by simp
  qed
qed simp

lemma batch_from_keys_inv:
  "batch_inv keys (unique_keys (batch_from_keys keys)) (positions (batch_from_keys keys))"
  "input_len (batch_from_keys keys) = length keys"
proof -
  have i: "batch_inv [] [] []" by (simp add: batch_inv_def)
  obtain us ps where up: "(if length keys \<le> POINT_READ_BATCH_LINEAR_DEDUP_MAX_KEYS
      then batch_keys_linear 0 keys ([], []) else batch_keys_indexed 0 keys ([], [], [])) = (us, ps)"
    by fastforce
  then have "batch_inv ([] @ keys) us ps"
    using batch_keys_linear_inv [OF i, of keys us ps] batch_keys_indexed_inv [OF i, of "[]" keys us ps]
    by (auto simp: btree_ok_def split: if_splits)
  then show "batch_inv keys (unique_keys (batch_from_keys keys)) (positions (batch_from_keys keys))"
    "input_len (batch_from_keys keys) = length keys"
    using up by (simp_all add: batch_from_keys_def)
qed

lemma scatter_positions:
  "length (fold (\<lambda>pos vals. vals[pos := v]) ps vals) = length vals"
  "p < length vals \<Longrightarrow> fold (\<lambda>pos vals. vals[pos := v]) ps vals ! p = (if p \<in> set ps then v else vals ! p)"
  by (induction ps arbitrary: vals) (auto simp: nth_list_update)

lemma scatter_fold:
  assumes "\<And>ps v. (ps, v) \<in> set zs \<Longrightarrow> p \<in> set ps \<Longrightarrow> v = w" "p < length vals"
  shows "fold (\<lambda>(ps, v) vals. fold (\<lambda>pos vals. vals[pos := v]) ps vals) zs vals ! p =
    (if \<exists>(ps, v)\<in>set zs. p \<in> set ps then w else vals ! p)"
  using assms
proof (induction zs arbitrary: vals)
  case (Cons z zs)
  obtain ps v where z: "z = (ps, v)" by fastforce
  have "fold (\<lambda>(ps, v) vals. fold (\<lambda>pos vals. vals[pos := v]) ps vals) zs (fold (\<lambda>pos vals. vals[pos := v]) ps vals) ! p =
      (if \<exists>(ps, v)\<in>set zs. p \<in> set ps then w else fold (\<lambda>pos vals. vals[pos := v]) ps vals ! p)"
    by (rule Cons.IH) (use Cons.prems in \<open>auto simp: scatter_positions\<close>)
  then show ?case
    using Cons.prems by (auto simp: z scatter_positions)
qed simp

lemma length_scatter_fold:
  "length (fold (\<lambda>(ps, v) vals. fold (\<lambda>pos vals. vals[pos := v]) ps vals) zs vals) = length vals"
  by (induction zs arbitrary: vals) (auto simp: scatter_positions)

lemma batch_scatter_eq:
  "batch_scatter (batch_from_keys keys) (map g (unique_keys (batch_from_keys keys))) = map g keys"
proof (rule nth_equalityI)
  let ?us = "unique_keys (batch_from_keys keys)" and ?ps = "positions (batch_from_keys keys)"
  note inv = batch_from_keys_inv [of keys]
  show len: "length (batch_scatter (batch_from_keys keys) (map g ?us)) = length (map g keys)"
    by (simp add: batch_scatter_def length_scatter_fold inv(2))
  fix p assume "p < length (batch_scatter (batch_from_keys keys) (map g ?us))"
  then have p: "p < length keys" using len by simp
  have us: "?us = uniq keys" "length ?ps = length ?us"
    "\<And>u p. u < length ?us \<Longrightarrow> p \<in> set (?ps ! u) \<longleftrightarrow> p < length keys \<and> keys ! p = ?us ! u"
    using inv(1) unfolding batch_inv_def by blast+
  have same: "v = g (keys ! p)" if "(ps, v) \<in> set (zip ?ps (map g ?us))" "p \<in> set ps" for ps v
    using that us(2,3) by (auto simp: set_zip)
  have "keys ! p \<in> set ?us" using us(1) p by simp
  then obtain u where "u < length ?us" "?us ! u = keys ! p" by (metis in_set_conv_nth)
  then have "(?ps ! u, g (?us ! u)) \<in> set (zip ?ps (map g ?us))" "p \<in> set (?ps ! u)"
    using us(2,3) p by (auto simp: set_zip)
  then have "\<exists>(ps, v)\<in>set (zip ?ps (map g ?us)). p \<in> set ps" by blast
  then show "batch_scatter (batch_from_keys keys) (map g ?us) ! p = map g keys ! p"
    unfolding batch_scatter_def using scatter_fold [OF same, where vals = "replicate (length keys) None"] p
    by (simp add: inv(2))
qed

lemma map_result_append1:
  "map_result f (xs @ [x]) = and_then (map_result f xs) (\<lambda>ys. and_then (f x) (\<lambda>y. Inr (ys @ [y])))"
  by (induction xs) (auto simp: and_then_def split: sum.splits)

lemma map_result_projr:
  "map_result f xs = Inr ys \<longleftrightarrow> (\<forall>x\<in>set xs. \<exists>y. f x = Inr y) \<and> ys = map (\<lambda>x. projr (f x)) xs"
proof (induction xs arbitrary: ys)
  case (Cons x xs)
  show ?case using Cons by (cases "f x") (auto simp: and_then_eq_Inr_iff)
qed auto

lemma map_result_uniq_Inl: "map_result f (uniq keys) = Inl e \<Longrightarrow> map_result f keys = Inl e"
proof (induction keys rule: rev_induct)
  case (snoc k keys)
  show ?case
  proof (cases "map_result f (uniq keys)")
    case (Inl e')
    then show ?thesis using snoc by (auto simp: map_result_append1 split: if_splits)
  next
    case (Inr ys)
    then have "map_result f keys = Inr (map (\<lambda>x. projr (f x)) keys)"
      unfolding map_result_projr set_uniq by simp
    then show ?thesis
      using snoc.prems Inr by (auto simp: map_result_append1 and_then_def split: if_splits sum.splits)
  qed
qed simp

lemma map_result_uniq:
  "map_result f keys = and_then (map_result f (uniq keys)) (\<lambda>_. Inr (map (\<lambda>x. projr (f x)) keys))"
proof (cases "map_result f (uniq keys)")
  case (Inl e)
  then show ?thesis using map_result_uniq_Inl [OF Inl] by simp
next
  case (Inr ys)
  then have "map_result f keys = Inr (map (\<lambda>x. projr (f x)) keys)"
    unfolding map_result_projr set_uniq by simp
  then show ?thesis using Inr by simp
qed

section \<open>The batched table walk\<close>

abbreviation look :: "table \<Rightarrow> bytes \<Rightarrow> sequence \<Rightarrow> point_record option" where
  "look tab key s \<equiv> visible_in (table_records tab) key s"

lemma keep_batch_record_zip:
  "k + length recs = length indices \<Longrightarrow>
   fold (keep_batch_record indices) (enumerate k recs) c =
   fold (\<lambda>(i, rec) c. c[i := merge_candidate (c ! i) rec]) (zip (drop k indices) recs) c"
proof (induction recs arbitrary: k c)
  case (Cons rec recs)
  have d: "drop k indices = indices ! k # drop (Suc k) indices" using Cons.prems by (simp add: Cons_nth_drop_Suc)
  have "keep_batch_record indices (k, rec) c = c[indices ! k := merge_candidate (c ! (indices ! k)) rec]"
    by (auto simp: keep_batch_record_def merge_candidate_def Let_def split: option.splits)
  then show ?case using Cons by (simp add: d)
qed simp

lemma length_fold_merge:
  "length (fold (\<lambda>(i, rec) c. c[i := merge_candidate (c ! i) rec]) zs c) = length c"
  by (induction zs arbitrary: c) auto

lemma fold_merge_nth:
  assumes "distinct indices" "i < length c"
  shows "fold (\<lambda>(i, rec) c. c[i := merge_candidate (c ! i) rec]) (zip indices (map g indices)) c ! i =
    (if i \<in> set indices then merge_candidate (c ! i) (g i) else c ! i)"
  using assms
proof (induction indices arbitrary: c)
  case (Cons j indices)
  then show ?case by (cases "j = i") auto
qed simp

lemma visit_batch_table_eq:
  assumes "table_ok tab" "distinct indices"
  shows "\<exists>c'. visit_batch_table keys s policy tab indices c = Inr c' \<and> length c' = length c \<and>
    (\<forall>i<length c. c' ! i = (if i \<in> set indices then merge_candidate (c ! i) (look tab (keys ! i) s) else c ! i))"
proof -
  let ?g = "\<lambda>i. look tab (keys ! i) s"
  have "visit_batch_table keys s policy tab indices c =
      Inr (fold (\<lambda>(i, rec) c. c[i := merge_candidate (c ! i) rec]) (zip indices (map ?g indices)) c)"
    using keep_batch_record_zip [of 0 "map ?g indices" indices c]
    by (simp add: visit_batch_table_def newest_visible_point_value_records_eq [OF assms(1)] comp_def)
  then show ?thesis
    using fold_merge_nth [OF assms(2), where g = ?g] by (auto simp: length_fold_merge)
qed

lemma fold_result_upt:
  assumes "\<And>j st. j < n \<Longrightarrow> I j st \<Longrightarrow> \<exists>st'. f j st = Inr st' \<and> I (Suc j) st'" "I 0 st"
  shows "\<exists>st'. fold_result f [0..<n] st = Inr st' \<and> I n st'"
proof -
  have "\<exists>st'. fold_result f [0..<m] st = Inr st' \<and> I m st'" if "m \<le> n" for m
    using that
  proof (induction m)
    case (Suc m)
    then obtain st1 where "fold_result f [0..<m] st = Inr st1" "I m st1" by auto
    then show ?case using assms(1) [of m st1] Suc.prems by (auto simp: fold_result_append)
  qed (simp add: assms(2))
  then show ?thesis by blast
qed

text \<open>The steps of a single read in one level, with the lookup evaluated.\<close>

definition table_step :: "bytes \<Rightarrow> sequence \<Rightarrow> table \<Rightarrow> point_record option \<Rightarrow> point_record option" where
  "table_step key s tab c =
     (if key_bounds_may_contain_key tab key \<and> probe_newer tab c \<and> table_may_contain_key tab key
      then merge_candidate c (look tab key s) else c)"

definition level_step :: "bytes \<Rightarrow> sequence \<Rightarrow> level_state \<Rightarrow> point_record option \<Rightarrow> point_record option" where
  "level_step key s ls c =
     (if ls_level ls = 0 then fold (table_step key s) (ls_tables ls) c
      else case table_for_key ls key of None \<Rightarrow> c | Some tab \<Rightarrow> table_step key s tab c)"

lemma fold_result_Inr: "(\<And>x c. x \<in> set xs \<Longrightarrow> f x c = Inr (g x c)) \<Longrightarrow> fold_result f xs c = Inr (fold g xs c)"
  by (induction xs arbitrary: c) auto

lemma table_candidate_steps:
  assumes "\<forall>tab\<in>set (table_handles v). table_ok tab"
  shows "table_candidate v policy key s c = Inr (fold (level_step key s) (levels v) c)"
proof -
  let ?visit = "\<lambda>tab c. and_then (newest_visible_point_value_record_for_key tab key s policy) (\<lambda>d. Inr (merge_candidate c d))"
  have visit: "?visit tab c = Inr (merge_candidate c (look tab key s))" if "table_ok tab" for tab c
    by (simp add: newest_visible_point_value_record_eq [OF that] visible_in_def)
  have ok: "table_ok tab" if "ls \<in> set (levels v)" "tab \<in> set (ls_tables ls)" for ls tab
    using assms that by (auto simp: table_handles_def)
  have "table_candidate v policy key s c = for_each_point_lookup_table v key probe_newer ?visit c"
    unfolding table_candidate_def for_each_point_lookup_table_eq ..
  also have "\<dots> = Inr (fold (level_step key s) (levels v) c)"
    unfolding for_each_point_lookup_table_def
  proof (rule fold_result_Inr)
    fix ls c assume ls: "ls \<in> set (levels v)"
    show "(if ls_level ls = 0
       then fold_result (\<lambda>tab c. if \<not> key_bounds_may_contain_key tab key then Inr c
              else if \<not> probe_newer tab c then Inr c
              else if table_may_contain_key tab key then ?visit tab c else Inr c) (ls_tables ls) c
       else case table_for_key ls key of None \<Rightarrow> Inr c
            | Some tab \<Rightarrow> if \<not> probe_newer tab c then Inr c
                else if table_may_contain_key tab key then ?visit tab c else Inr c) = Inr (level_step key s ls c)"
    proof (cases "ls_level ls = 0")
      case True
      have "fold_result (\<lambda>tab c. if \<not> key_bounds_may_contain_key tab key then Inr c
              else if \<not> probe_newer tab c then Inr c
              else if table_may_contain_key tab key then ?visit tab c else Inr c) (ls_tables ls) c =
          Inr (fold (table_step key s) (ls_tables ls) c)"
        by (rule fold_result_Inr) (use visit [OF ok [OF ls]] in \<open>simp add: table_step_def\<close>)
      then show ?thesis using True by (simp add: level_step_def)
    next
      case False
      show ?thesis
      proof (cases "table_for_key ls key")
        case (Some tab)
        then have "table_ok tab" "key_bounds_may_contain_key tab key"
          using table_for_key_mem [OF Some] ok [OF ls] by auto
        then show ?thesis using False Some visit [of tab] by (simp add: level_step_def table_step_def)
      qed (use False in \<open>simp add: level_step_def\<close>)
    qed
  qed
  finally show ?thesis .
qed

definition steps_all :: "bytes list \<Rightarrow> (bytes \<Rightarrow> point_record option \<Rightarrow> point_record option) \<Rightarrow>
  point_record option list \<Rightarrow> point_record option list result \<Rightarrow> bool" where
  "steps_all keys g c r \<longleftrightarrow>
     (\<exists>c'. r = Inr c' \<and> length c' = length c \<and> (\<forall>i<length c. c' ! i = g (keys ! i) (c ! i)))"

abbreviation probe_key :: "table \<Rightarrow> usize \<Rightarrow> point_record option list \<Rightarrow> bool" where
  "probe_key tab i c \<equiv> probe_newer tab (c ! i)"

lemma steps_all_fold:
  assumes "\<And>x c. x \<in> set xs \<Longrightarrow> length c = length keys \<Longrightarrow> steps_all keys (\<lambda>key. g key x) c (f x c)"
    "length c = length keys"
  shows "steps_all keys (\<lambda>key. fold (g key) xs) c (fold_result f xs c)"
  using assms
proof (induction xs arbitrary: c)
  case (Cons x xs)
  obtain c1 where c1: "f x c = Inr c1" "length c1 = length c" "\<forall>i<length c. c1 ! i = g (keys ! i) x (c ! i)"
    using Cons.prems(1) [of x c] Cons.prems(2) by (auto simp: steps_all_def)
  have "steps_all keys (\<lambda>key. fold (g key) xs) c1 (fold_result f xs c1)"
    by (rule Cons.IH) (use Cons.prems c1 in auto)
  then show ?case using c1 by (auto simp: steps_all_def)
qed (simp add: steps_all_def)

lemma l0_table_batch:
  assumes "table_ok tab" "length c = length keys"
  shows "steps_all keys (\<lambda>key. table_step key s tab) c
    (let indices = l0_key_indices keys probe_key tab c
     in if indices = [] then Inr c else visit_batch_table keys s policy tab indices c)"
proof -
  let ?is = "l0_key_indices keys probe_key tab c"
  have mem: "i \<in> set ?is \<longleftrightarrow> i < length keys \<and> key_bounds_may_contain_key tab (keys ! i) \<and> probe_key tab i c \<and>
      table_may_contain_key tab (keys ! i)" for i
    by (auto simp: l0_key_indices_def)
  have "distinct ?is" by (simp add: l0_key_indices_def)
  from visit_batch_table_eq [OF assms(1) this, of keys s policy c]
  obtain c' where c': "visit_batch_table keys s policy tab ?is c = Inr c'" "length c' = length c"
    "\<forall>i<length c. c' ! i = (if i \<in> set ?is then merge_candidate (c ! i) (look tab (keys ! i) s) else c ! i)"
    by blast
  then have "\<forall>i<length c. c' ! i = table_step (keys ! i) s tab (c ! i)"
    using mem assms(2) by (auto simp: table_step_def)
  moreover have "c' = c" if "?is = []"
    using c'(2,3) that by (intro nth_equalityI) auto
  ultimately show ?thesis using c'(1,2) by (auto simp: steps_all_def Let_def)
qed

text \<open>Between two keys of a deeper level: the keys collected for the current table have not been looked
  up yet, every other key has.\<close>

definition level_inv :: "level_state \<Rightarrow> bytes list \<Rightarrow> sequence \<Rightarrow> point_record option list \<Rightarrow> usize \<Rightarrow>
    table option \<times> usize list \<times> point_record option list \<Rightarrow> bool" where
  "level_inv ls keys s c0 j = (\<lambda>(current, indices, c).
     length c = length c0 \<and> distinct indices \<and> set indices \<subseteq> {..<j} \<and> (current = None \<longrightarrow> indices = []) \<and>
     (\<forall>i\<in>set indices. table_for_key ls (keys ! i) = current \<and>
        (\<forall>tab. current = Some tab \<longrightarrow> table_step (keys ! i) s tab (c0 ! i) =
          merge_candidate (c0 ! i) (look tab (keys ! i) s))) \<and>
     (\<forall>tab. current = Some tab \<longrightarrow> tab \<in> set (ls_tables ls)) \<and>
     (\<forall>i<length c0. c ! i = (if i < j \<and> i \<notin> set indices then level_step (keys ! i) s ls (c0 ! i) else c0 ! i)))"

lemma level_flush:
  assumes inv: "level_inv ls keys s c0 j (Some tab, indices, c)" and ls: "ls_level ls \<noteq> 0" "table_ok tab"
  shows "\<exists>c'. visit_batch_table keys s policy tab indices c = Inr c' \<and> length c' = length c0 \<and>
    (\<forall>i<length c0. c' ! i = (if i < j then level_step (keys ! i) s ls (c0 ! i) else c0 ! i))"
proof -
  have i: "length c = length c0" "distinct indices" "set indices \<subseteq> {..<j}"
    "\<And>i. i \<in> set indices \<Longrightarrow> table_for_key ls (keys ! i) = Some tab"
    "\<And>i. i \<in> set indices \<Longrightarrow> table_step (keys ! i) s tab (c0 ! i) = merge_candidate (c0 ! i) (look tab (keys ! i) s)"
    "\<And>i. i < length c0 \<Longrightarrow> c ! i = (if i < j \<and> i \<notin> set indices then level_step (keys ! i) s ls (c0 ! i) else c0 ! i)"
    using inv unfolding level_inv_def by auto
  obtain c' where c': "visit_batch_table keys s policy tab indices c = Inr c'" "length c' = length c"
    "\<forall>i<length c. c' ! i = (if i \<in> set indices then merge_candidate (c ! i) (look tab (keys ! i) s) else c ! i)"
    using visit_batch_table_eq [OF ls(2) i(2), of keys s policy c] by blast
  have "c' ! k = (if k < j then level_step (keys ! k) s ls (c0 ! k) else c0 ! k)" if "k < length c0" for k
  proof (cases "k \<in> set indices")
    case True
    then have "level_step (keys ! k) s ls (c0 ! k) = merge_candidate (c0 ! k) (look tab (keys ! k) s)"
      using i(4,5) ls(1) by (simp add: level_step_def)
    then show ?thesis using True c'(3) i(1,3,6) that by auto
  next
    case False
    then show ?thesis using c'(3) i(1,6) that by auto
  qed
  then show ?thesis using c'(1,2) i(1) by auto
qed

lemma level_key_step_inv:
  assumes inv: "level_inv ls keys s c0 j st" and ls: "ls_level ls \<noteq> 0" "\<forall>tab\<in>set (ls_tables ls). table_ok tab"
    and ids: "inj_on (\<lambda>tab. tp_id (properties tab)) (set (ls_tables ls))" and j: "j < length c0"
  shows "\<exists>st'. level_key_step ls keys probe_key (visit_batch_table keys s policy) j st = Inr st' \<and>
    level_inv ls keys s c0 (Suc j) st'"
proof -
  obtain cur indices c where st: "st = (cur, indices, c)" by (metis prod_cases3)
  have i: "length c = length c0" "distinct indices" "set indices \<subseteq> {..<j}" "cur = None \<longrightarrow> indices = []"
    "\<forall>i\<in>set indices. table_for_key ls (keys ! i) = cur \<and>
        (\<forall>tab. cur = Some tab \<longrightarrow> table_step (keys ! i) s tab (c0 ! i) = merge_candidate (c0 ! i) (look tab (keys ! i) s))"
    "\<forall>tab. cur = Some tab \<longrightarrow> tab \<in> set (ls_tables ls)"
    "\<forall>i<length c0. c ! i = (if i < j \<and> i \<notin> set indices then level_step (keys ! i) s ls (c0 ! i) else c0 ! i)"
    using inv unfolding level_inv_def st by auto
  have cj: "c ! j = c0 ! j" using i(7) j by simp
  have skip: "level_inv ls keys s c0 (Suc j) st" if "level_step (keys ! j) s ls (c0 ! j) = c0 ! j"
    using inv that unfolding level_inv_def st by (auto simp: less_Suc_eq)
  show ?thesis
  proof (cases "table_for_key ls (keys ! j)")
    case None
    then show ?thesis using skip ls(1) by (simp add: level_key_step_def st level_step_def)
  next
    case (Some tab)
    have tab: "tab \<in> set (ls_tables ls)" "key_bounds_may_contain_key tab (keys ! j)" using table_for_key_mem [OF Some] by auto
    have step: "level_step (keys ! j) s ls (c0 ! j) = table_step (keys ! j) s tab (c0 ! j)"
      using Some ls(1) by (simp add: level_step_def)
    show ?thesis
    proof (cases "probe_newer tab (c0 ! j) \<and> table_may_contain_key tab (keys ! j)")
      case False
      then have "level_step (keys ! j) s ls (c0 ! j) = c0 ! j" by (auto simp: step table_step_def)
      then show ?thesis using skip Some False by (auto simp: level_key_step_def st cj)
    next
      case True
      have t: "table_step (keys ! j) s tab (c0 ! j) = merge_candidate (c0 ! j) (look tab (keys ! j) s)"
        using True tab(2) by (simp add: table_step_def)
      have add: "level_inv ls keys s c0 (Suc j) (Some tab, indices @ [j], c)" if "cur = None \<or> cur = Some tab"
        using i that Some t tab(1) unfolding level_inv_def by (auto simp: less_Suc_eq)
      show ?thesis
      proof (cases "\<exists>cur'. cur = Some cur' \<and> tp_id (properties cur') \<noteq> tp_id (properties tab)")
        case False
        then have "cur = None \<or> cur = Some tab"
          using i(6) ids tab(1) by (cases cur) (auto dest: inj_onD)
        then show ?thesis using add True Some False by (auto simp: level_key_step_def st cj)
      next
        case change: True
        then obtain cur' where cur': "cur = Some cur'" "tp_id (properties cur') \<noteq> tp_id (properties tab)" by blast
        then have "table_ok cur'" using i(6) ls(2) by blast
        from level_flush [OF inv [unfolded st cur'(1)] ls(1) this]
        obtain c' where c': "visit_batch_table keys s policy cur' indices c = Inr c'" "length c' = length c0"
          "\<forall>i<length c0. c' ! i = (if i < j then level_step (keys ! i) s ls (c0 ! i) else c0 ! i)"
          by blast
        have "level_inv ls keys s c0 (Suc j) (Some tab, [j], c')"
          using c'(2,3) Some t tab(1) unfolding level_inv_def by (auto simp: less_Suc_eq)
        then show ?thesis using c'(1) True Some cur' by (auto simp: level_key_step_def st cj)
      qed
    qed
  qed
qed

lemma level_batch:
  assumes ls: "\<forall>tab\<in>set (ls_tables ls). table_ok tab"
    and ids: "inj_on (\<lambda>tab. tp_id (properties tab)) (set (ls_tables ls))" and n: "length c = length keys"
  shows "steps_all keys (\<lambda>key. level_step key s ls) c
    (if ls_level ls = 0
     then fold_result (\<lambda>tab c. let indices = l0_key_indices keys probe_key tab c
            in if indices = [] then Inr c else visit_batch_table keys s policy tab indices c) (ls_tables ls) c
     else and_then (fold_result (level_key_step ls keys probe_key (visit_batch_table keys s policy))
              [0..<length keys] (None, [], c))
            (\<lambda>(current, indices, c). case current of None \<Rightarrow> Inr c
               | Some tab \<Rightarrow> visit_batch_table keys s policy tab indices c))"
proof (cases "ls_level ls = 0")
  case True
  have "steps_all keys (\<lambda>key. fold (table_step key s) (ls_tables ls)) c
    (fold_result (\<lambda>tab c. let indices = l0_key_indices keys probe_key tab c
       in if indices = [] then Inr c else visit_batch_table keys s policy tab indices c) (ls_tables ls) c)"
    by (rule steps_all_fold [OF l0_table_batch n]) (use ls in auto)
  moreover have "level_step key s ls = fold (table_step key s) (ls_tables ls)" for key
    by (rule ext) (simp add: level_step_def True)
  ultimately show ?thesis using True by simp
next
  case False
  have "level_inv ls keys s c 0 (None, [], c)" by (simp add: level_inv_def)
  moreover have "\<exists>st'. level_key_step ls keys probe_key (visit_batch_table keys s policy) j st = Inr st' \<and>
      level_inv ls keys s c (Suc j) st'" if "j < length keys" "level_inv ls keys s c j st" for j st
    by (rule level_key_step_inv [OF that(2) False ls ids]) (use n that(1) in simp)
  ultimately have "\<exists>st. fold_result (level_key_step ls keys probe_key (visit_batch_table keys s policy))
      [0..<length keys] (None, [], c) = Inr st \<and> level_inv ls keys s c (length keys) st"
    by (intro fold_result_upt [where I = "level_inv ls keys s c"])
  then obtain st where st: "fold_result (level_key_step ls keys probe_key (visit_batch_table keys s policy))
      [0..<length keys] (None, [], c) = Inr st" "level_inv ls keys s c (length keys) st" by blast
  obtain cur indices c1 where s3: "st = (cur, indices, c1)" by (metis prod_cases3)
  show ?thesis
  proof (cases cur)
    case None
    then have "length c1 = length c" "\<forall>i<length c. c1 ! i = level_step (keys ! i) s ls (c ! i)"
      using st(2) n unfolding s3 level_inv_def by auto
    then show ?thesis using False st(1) None by (auto simp: steps_all_def s3)
  next
    case (Some tab)
    have "table_ok tab" using st(2) ls unfolding s3 level_inv_def Some by auto
    from level_flush [OF st(2) [unfolded s3 Some] False this, of policy]
    show ?thesis using False st(1) Some n by (auto simp: steps_all_def s3)
  qed
qed

lemma batch_walk:
  assumes "\<forall>tab\<in>set (table_handles v). table_ok tab" "length c = length keys"
    "inj_on (\<lambda>tab. tp_id (properties tab)) (set (table_handles v))"
  shows "steps_all keys (\<lambda>key. fold (level_step key s) (levels v)) c
    (for_each_point_lookup_table_for_keys v keys probe_key (visit_batch_table keys s policy) c)"
  unfolding for_each_point_lookup_table_for_keys_def
proof (rule steps_all_fold [OF level_batch assms(2)])
  fix ls c assume ls: "ls \<in> set (levels v)" and "length (c :: point_record option list) = length keys"
  then show "length c = length keys" by simp
  show "\<forall>tab\<in>set (ls_tables ls). table_ok tab" using assms(1) ls by (auto simp: table_handles_def)
  show "inj_on (\<lambda>tab. tp_id (properties tab)) (set (ls_tables ls))"
    by (rule inj_on_subset [OF assms(3)]) (use ls in \<open>auto simp: table_handles_def\<close>)
qed

lemma map_result_zip_map: "map_result f (zip xs (map g xs)) = map_result (\<lambda>x. f (x, g x)) xs"
  by (induction xs) auto

text \<open>C8: A batched point read, which removes duplicate keys, walks the tables once with the keys grouped
  by table and scatters the values to the positions of the keys, returns what reading the keys one by
  one returns, the first error included. The tables of the version have distinct identifiers.\<close>
theorem batch_read_agrees:
  assumes "snapshot_ok snap" "inj_on (\<lambda>tab. tp_id (properties tab)) (set (table_handles (rs_version snap)))"
  shows "read_visible_point_values_in_snapshot read_blob policy snap keys s =
    map_result (\<lambda>key. read_visible_point_value_in_snapshot read_blob policy snap key s) keys"
proof (cases "keys = [] \<or> point_read_batch_prefers_single_key_path keys")
  case True
  then show ?thesis by (auto simp: read_visible_point_values_in_snapshot_def)
next
  case False
  let ?v = "rs_version snap" and ?us = "unique_keys (batch_from_keys keys)"
  let ?mem = "\<lambda>key. newest_visible_memtable_point_candidate_in_snapshot snap key s"
  let ?cand = "\<lambda>key. fold (level_step key s) (levels ?v) (?mem key)"
  let ?T = "memtable_range_tombstones_in_snapshot snap"
  let ?F = "\<lambda>key. resolve_point_candidate read_blob snap ?T key (?cand key) s"
  have ok: "\<forall>tab\<in>set (table_handles ?v). table_ok tab"
    using assms(1) unfolding snapshot_ok_def table_wf_def by blast
  have single: "read_visible_point_value_in_snapshot read_blob policy snap key s = ?F key" for key
    by (simp add: read_visible_point_value_in_snapshot_eq table_candidate_steps [OF ok])
  have us: "?us = uniq keys" using batch_from_keys_inv(1) [of keys] unfolding batch_inv_def by blast
  obtain c where c: "for_each_point_lookup_table_for_keys ?v ?us probe_key (visit_batch_table ?us s policy)
      (map ?mem ?us) = Inr c" "length c = length ?us" "\<forall>i<length ?us. c ! i = ?cand (?us ! i)"
    using batch_walk [OF ok, of "map ?mem ?us" ?us s policy] assms(2) by (auto simp: steps_all_def)
  have cs: "c = map ?cand ?us" by (rule nth_equalityI) (use c in auto)
  have batch: "read_visible_point_values_in_snapshot read_blob policy snap keys s =
      (if list_all (\<lambda>c. c = None) c then Inr (batch_scatter (batch_from_keys keys) (replicate (length ?us) None))
       else and_then (map_result ?F ?us) (\<lambda>vals. Inr (batch_scatter (batch_from_keys keys) vals)))"
    using False c(1) by (simp add: read_visible_point_values_in_snapshot_def Let_def cs map_result_zip_map)
  have all: "map_result ?F keys = and_then (map_result ?F ?us) (\<lambda>_. Inr (map (\<lambda>x. projr (?F x)) keys))"
    unfolding us by (rule map_result_uniq)
  show ?thesis
  proof (cases "list_all (\<lambda>c. c = None) c")
    case True
    then have "?cand key = None" if "key \<in> set keys" for key
      using that us by (auto simp: cs list_all_iff)
    then have "map_result ?F keys = Inr (map (\<lambda>_. None) keys)"
      unfolding map_result_projr by (auto simp: resolve_point_candidate_def)
    moreover have "batch_scatter (batch_from_keys keys) (replicate (length ?us) None) =
        (map (\<lambda>_. None) keys :: bytes option list)"
      using batch_scatter_eq [of keys "\<lambda>_. None"] by (simp add: map_replicate_const)
    ultimately show ?thesis unfolding batch single using True by simp
  next
    case False
    show ?thesis
    proof (cases "map_result ?F ?us")
      case (Inl e)
      then show ?thesis unfolding batch single all using False by simp
    next
      case (Inr vals)
      then have "vals = map (\<lambda>x. projr (?F x)) ?us" unfolding map_result_projr by blast
      then have "batch_scatter (batch_from_keys keys) vals = map (\<lambda>x. projr (?F x)) keys"
        using batch_scatter_eq [of keys "\<lambda>x. projr (?F x)"] by simp
      then show ?thesis unfolding batch single all using False Inr by simp
    qed
  qed
qed

theorem batch_read_agrees_witness:
  "read_visible_point_values_in_snapshot None Auto
     (point_read_snapshot_with_deltas (apply_operation sample_tree (OpPut [] [1] [9]) 5 0) []) [[1], [2], [1]] 7 =
   Ok [Some [9], None, Some [9]]"
proof -
  let ?t = "apply_operation sample_tree (OpPut [] [1] [9]) 5 0"
  let ?snap = "point_read_snapshot_with_deltas ?t []"
  have t: "tree_ok ?t" "tree_records ?t = {(InternalKey [1] 5 Put 0, Some (Inline [9]))}" "tree_tombstones ?t = {}"
    using apply_operation_ok [OF sample_tree_ok(1) _ _ sample_put_fits] by (simp_all add: sample_tree_simps sample_tree_ok)
  have ok: "snapshot_ok ?snap" by (rule tree_snapshot_ok [OF t(1)]) auto
  have shards: "delta_shards ?t = delta_shard_set_new" and v: "rs_version ?snap = \<lparr>levels = []\<rparr>"
    by (simp_all add: apply_operation_def mark_delta_mirror_sequence_def sample_tree_def point_read_snapshot_with_deltas_def)
  have sets: "snapshot_records ?snap = tree_records ?t" "snapshot_tombstones ?snap = {}"
    using t(3) by (simp_all add: tree_snapshot_sets [OF t(1)] tree_records_def tree_tombstones_def shards)
  have one: "visible_records [1] 7 (snapshot_records ?snap) = {(InternalKey [1] 5 Put 0, Some (Inline [9]))}"
    and two: "visible_records [2] 7 (snapshot_records ?snap) = {}"
    by (auto simp: sets t(2) record_simps word_le_nat_alt)
  have r1: "read_visible_point_value_in_snapshot None Auto ?snap [1] 7 = Inr (Some [9])"
    using snapshot_read_correct [OF ok, of None "[1]" 7 Auto]
    by (auto simp: mvcc_read_def one newest_of_def mvcc_result_def hidden_by_def sets(2) point_value_def ok_or_def
        split: option.splits)
  have r2: "read_visible_point_value_in_snapshot None Auto ?snap [2] 7 = Inr None"
    using snapshot_read_correct [OF ok, of None "[2]" 7 Auto]
    by (auto simp: mvcc_read_def two newest_of_def mvcc_result_def split: option.splits)
  show ?thesis
    using batch_read_agrees [OF ok, of None Auto "[[1], [2], [1]]" 7] by (simp add: r1 r2 v table_handles_def)
qed

end
