(* ===== verification/Lsm_Conflict.thy ===== *)
theory Lsm_Conflict
  imports Lsm_Read
begin

text \<open>
  The conflict checks of optimistic transactions (\<^verbatim>\<open>src/src/lsm/conflict.rs\<close>): was a key, or a range of
  keys, modified in a tree after a read sequence? The sources are captured like those of a point read,
  so the snapshot type is shared.

  Shown here: the point check is exact. The range check reports real modifications only and misses none
  except, possibly, versions of the key at an included lower bound that a table holds, because the range
  read of a table may enter a block behind them.
\<close>

type_synonym conflict_source_snapshot = lsm_point_read_snapshot

definition conflict_source_snapshot_with_deltas :: "lsm_tree \<Rightarrow> in_memory_delta list \<Rightarrow> conflict_source_snapshot" where
  "conflict_source_snapshot_with_deltas t ds =
     \<lparr>rs_version = current_version t, rs_deltas = ds, rs_active_memtable = active_memtable t,
      rs_active_range_tombstones =
        (if active_range_tombstone_bytes t = 0 then [] else active_range_tombstones t),
      rs_immutable_memtables = (if has_immutable_memtable_fast t then immutable_memtables t else [])\<rparr>"

definition point_conflict_snapshot :: "lsm_tree \<Rightarrow> bytes \<Rightarrow> sequence \<Rightarrow> conflict_source_snapshot" where
  "point_conflict_snapshot t key read_sequence =
     conflict_source_snapshot_with_deltas t
       (if delta_mirror_covers t read_sequence then [] else snapshot_for_key (delta_shards t) key)"

definition range_conflict_snapshot :: "lsm_tree \<Rightarrow> sequence \<Rightarrow> conflict_source_snapshot" where
  "range_conflict_snapshot t read_sequence =
     conflict_source_snapshot_with_deltas t
       (if delta_mirror_covers t read_sequence then [] else snapshot_all (delta_shards t))"

definition collect_memtable_point_records :: "memtable \<Rightarrow> bytes \<Rightarrow> point_record list" where
  "collect_memtable_point_records m key = entries_in_bracket m key"

definition collect_memtable_range_records :: "memtable \<Rightarrow> key_range \<Rightarrow> point_record list" where
  "collect_memtable_range_records m rng = filter (\<lambda>e. key_is_in_range (user_key (fst e)) rng) (mt_entries m)"

definition compare_records :: "point_record \<Rightarrow> point_record \<Rightarrow> ordering" where
  "compare_records left right = cmp (fst left) (fst right)"

definition collect_point_key_records ::
  "index_search_policy \<Rightarrow> conflict_source_snapshot \<Rightarrow> bytes \<Rightarrow> point_record list result" where
  "collect_point_key_records policy snap key =
     (let records = collect_memtable_point_records (rs_active_memtable snap) key @
            concat (map (\<lambda>d. collect_memtable_point_records (d_memtable d) key) (rs_deltas snap)) @
            concat (map (\<lambda>im. collect_memtable_point_records (im_memtable im) key) (rs_immutable_memtables snap))
      in and_then (fold_result (\<lambda>tab records.
             and_then (point_records_for_key tab key policy) (\<lambda>rs. Ok (records @ rs)))
             (point_lookup_tables (rs_version snap) key) records)
         (\<lambda>records. Ok (sort_by compare_records records)))"

definition collect_range_point_records ::
  "index_search_policy \<Rightarrow> conflict_source_snapshot \<Rightarrow> key_range \<Rightarrow> point_record list result" where
  "collect_range_point_records policy snap rng =
     (let records = collect_memtable_range_records (rs_active_memtable snap) rng @
            concat (map (\<lambda>d. collect_memtable_range_records (d_memtable d) rng) (rs_deltas snap)) @
            concat (map (\<lambda>im. collect_memtable_range_records (im_memtable im) rng) (rs_immutable_memtables snap))
      in and_then (fold_result (\<lambda>tab records.
             and_then (point_records_in_range tab rng policy) (\<lambda>rs. Ok (records @ rs)))
             (table_handles (rs_version snap)) records)
         (\<lambda>records. Ok (sort_by compare_records records)))"

definition conflict_memtable_range_tombstones :: "conflict_source_snapshot \<Rightarrow> range_tombstone list" where
  "conflict_memtable_range_tombstones snap =
     rti_new rt_range
       (concat (map d_range_tombstones (rs_deltas snap)) @ rs_active_range_tombstones snap @
        concat (map im_range_tombstones (rs_immutable_memtables snap)))"

definition range_tombstone_modified_after_key :: "conflict_source_snapshot \<Rightarrow> bytes \<Rightarrow> sequence \<Rightarrow> bool" where
  "range_tombstone_modified_after_key snap key read_sequence =
     (if list_ex (\<lambda>ts. rt_sequence ts > read_sequence)
           (covering_key rt_range (conflict_memtable_range_tombstones snap) key) then True
      else list_ex (\<lambda>tab. list_ex (\<lambda>ts. rt_sequence ts > read_sequence)
             (covering_key rt_range (tbl_range_tombstones tab) key)) (table_handles (rs_version snap)))"

definition range_tombstone_modified_after_range :: "conflict_source_snapshot \<Rightarrow> key_range \<Rightarrow> sequence \<Rightarrow> bool" where
  "range_tombstone_modified_after_range snap rng read_sequence =
     (if list_ex (\<lambda>ts. rt_sequence ts > read_sequence)
           (overlapping_range rt_range (conflict_memtable_range_tombstones snap) rng) then True
      else list_ex (\<lambda>tab. list_ex (\<lambda>ts. rt_sequence ts > read_sequence)
             (range_tombstones_overlapping_range tab rng)) (table_handles (rs_version snap)))"

definition point_key_modified_after_in_snapshot ::
  "index_search_policy \<Rightarrow> conflict_source_snapshot \<Rightarrow> bytes \<Rightarrow> sequence \<Rightarrow> bool result" where
  "point_key_modified_after_in_snapshot policy snap key read_sequence =
     and_then (collect_point_key_records policy snap key) (\<lambda>records.
     if list_ex (\<lambda>r. ik_sequence (fst r) > read_sequence) records then Ok True
     else Ok (range_tombstone_modified_after_key snap key read_sequence))"

definition key_range_modified_after_in_snapshot ::
  "index_search_policy \<Rightarrow> conflict_source_snapshot \<Rightarrow> key_range \<Rightarrow> sequence \<Rightarrow> bool result" where
  "key_range_modified_after_in_snapshot policy snap rng read_sequence =
     and_then (collect_range_point_records policy snap rng) (\<lambda>records.
     if list_ex (\<lambda>r. ik_sequence (fst r) > read_sequence) records then Ok True
     else Ok (range_tombstone_modified_after_range snap rng read_sequence))"

definition point_key_modified_after :: "lsm_tree \<Rightarrow> bytes \<Rightarrow> sequence \<Rightarrow> bool result" where
  "point_key_modified_after t key read_sequence =
     point_key_modified_after_in_snapshot (bo_index_search_policy (tree_options t))
       (point_conflict_snapshot t key read_sequence) key read_sequence"

definition key_range_modified_after :: "lsm_tree \<Rightarrow> key_range \<Rightarrow> sequence \<Rightarrow> bool result" where
  "key_range_modified_after t rng read_sequence =
     key_range_modified_after_in_snapshot (bo_index_search_policy (tree_options t))
       (range_conflict_snapshot t read_sequence) rng read_sequence"

section \<open>Lemmas\<close>

lemma fold_result_collect:
  assumes "\<And>tab. tab \<in> set ts \<Longrightarrow> f tab = Inr (g tab)"
  shows "fold_result (\<lambda>tab records. and_then (f tab) (\<lambda>rs. Inr (records @ rs))) ts acc =
    Inr (acc @ concat (map g ts))"
  using assms by (induction ts arbitrary: acc) auto

lemma conflict_snapshot_eq: "conflict_source_snapshot_with_deltas = point_read_snapshot_with_deltas"
  by (intro ext) (simp add: conflict_source_snapshot_with_deltas_def point_read_snapshot_with_deltas_def)

lemma collect_point_key_records_set:
  assumes "version_ok (rs_version snap)" "\<forall>tab\<in>set (table_handles (rs_version snap)). table_wf tab"
  shows "\<exists>rs. collect_point_key_records policy snap key = Inr rs \<and>
    set rs = {r \<in> snapshot_records snap. user_key (fst r) = key}"
proof -
  let ?v = "rs_version snap"
  have v: "version_ok ?v" "\<forall>tab\<in>set (table_handles ?v). table_wf tab"
    using assms by blast+
  have ts: "set (point_lookup_tables ?v key) = {tab \<in> set (table_handles ?v). table_may_contain_key tab key}"
    by (rule set_point_lookup_tables [OF v(1)])
  have may: "table_may_contain_key tab (user_key (fst e))"
    if "tab \<in> set (table_handles ?v)" "e \<in> set (table_records tab)" for tab e
    using v(2) that unfolding table_wf_def by blast
  have "point_records_for_key tab key policy = Inr (filter (\<lambda>r. user_key (fst r) = key) (table_records tab))"
    if "tab \<in> set (point_lookup_tables ?v key)" for tab
    by (rule point_records_for_key_eq) (use that v(2) ts in \<open>auto simp: table_wf_def\<close>)
  then have c: "fold_result (\<lambda>tab records. and_then (point_records_for_key tab key policy) (\<lambda>rs. Inr (records @ rs)))
      (point_lookup_tables ?v key) acc =
    Inr (acc @ concat (map (\<lambda>tab. filter (\<lambda>r. user_key (fst r) = key) (table_records tab)) (point_lookup_tables ?v key)))" for acc
    by (rule fold_result_collect)
  have tabs: "(\<Union>tab\<in>set (point_lookup_tables ?v key). {r \<in> set (table_records tab). user_key (fst r) = key}) =
      {r \<in> version_records ?v. user_key (fst r) = key}"
    unfolding ts version_records_def using may by blast
  have "{r \<in> snapshot_records snap. user_key (fst r) = key} =
      {r \<in> set (mt_entries (rs_active_memtable snap)) \<union> (\<Union>d\<in>set (rs_deltas snap). delta_records d) \<union>
        (\<Union>im\<in>set (rs_immutable_memtables snap). set (mt_entries (im_memtable im))). user_key (fst r) = key} \<union>
      (\<Union>tab\<in>set (point_lookup_tables ?v key). {r \<in> set (table_records tab). user_key (fst r) = key})"
    unfolding tabs snapshot_records_def chain_records_def by blast
  then show ?thesis
    unfolding collect_point_key_records_def Let_def c
    by (auto simp: collect_memtable_point_records_def entries_in_bracket_eq)
qed

lemma memtable_tombstones_set:
  "set (covering_key rt_range (conflict_memtable_range_tombstones snap) key) =
     {ts \<in> chain_tombstones (rs_deltas snap) \<union> set (rs_active_range_tombstones snap) \<union>
      (\<Union>im\<in>set (rs_immutable_memtables snap). set (im_range_tombstones im)). key_is_in_range key (rt_range ts)}"
  "set (overlapping_range rt_range (conflict_memtable_range_tombstones snap) rng) =
     {ts \<in> chain_tombstones (rs_deltas snap) \<union> set (rs_active_range_tombstones snap) \<union>
      (\<Union>im\<in>set (rs_immutable_memtables snap). set (im_range_tombstones im)). ranges_overlap rng (rt_range ts)}"
  unfolding conflict_memtable_range_tombstones_def rti.set_covering rti.set_overlapping chain_tombstones_def
  by auto

lemma bex_Collect: "(\<exists>r\<in>{r \<in> R. P r}. Q r) \<longleftrightarrow> (\<exists>r\<in>R. P r \<and> Q r)"
  by blast

lemma if_or: "(if P then Inr True else Inr Q) = Inr (P \<or> Q)"
  by simp

lemma collected_split:
  assumes "S = {r \<in> M. P r} \<union> T" "T \<subseteq> {r \<in> V. P r}" "{r \<in> V. P r \<and> Q r} \<subseteq> T"
  shows "S \<subseteq> {r \<in> M \<union> V. P r} \<and> {r \<in> M \<union> V. P r \<and> Q r} \<subseteq> S \<and> {r \<in> M \<union> V - V. P r} \<subseteq> S"
  using assms by blast

lemma collect_range_point_records_set:
  assumes "version_ok (rs_version snap)" "\<forall>tab\<in>set (table_handles (rs_version snap)). table_wf tab"
  shows "\<exists>rs. collect_range_point_records policy snap rng = Inr rs \<and>
    set rs \<subseteq> {r \<in> snapshot_records snap. key_is_in_range (user_key (fst r)) rng} \<and>
    {r \<in> snapshot_records snap. key_is_in_range (user_key (fst r)) rng \<and>
       kr_start rng \<noteq> Included (user_key (fst r))} \<subseteq> set rs \<and>
    {r \<in> snapshot_records snap - version_records (rs_version snap). key_is_in_range (user_key (fst r)) rng} \<subseteq> set rs"
proof -
  let ?v = "rs_version snap"
  define g where "g tab = projr (point_records_in_range tab rng policy)" for tab
  have ok: "table_ok tab" if "tab \<in> set (table_handles ?v)" for tab
    using assms that unfolding table_wf_def by blast
  have g: "point_records_in_range tab rng policy = Inr (g tab)" "complete_above_start rng (table_records tab) (g tab)"
    if "tab \<in> set (table_handles ?v)" for tab
    using point_records_in_range_complete [OF ok [OF that], of rng policy] by (auto simp: g_def)
  from g(1) have c: "fold_result (\<lambda>tab records. and_then (point_records_in_range tab rng policy) (\<lambda>rs. Inr (records @ rs)))
      (table_handles ?v) acc = Inr (acc @ concat (map g (table_handles ?v)))" for acc
    by (rule fold_result_collect)
  let ?M = "{r \<in> set (mt_entries (rs_active_memtable snap)) \<union> (\<Union>d\<in>set (rs_deltas snap). delta_records d) \<union>
        (\<Union>im\<in>set (rs_immutable_memtables snap). set (mt_entries (im_memtable im))). key_is_in_range (user_key (fst r)) rng}"
  let ?T = "\<Union>tab\<in>set (table_handles ?v). set (g tab)"
  obtain rs where rs: "collect_range_point_records policy snap rng = Inr rs" "set rs = ?M \<union> ?T"
    unfolding collect_range_point_records_def Let_def c by (auto simp: collect_memtable_range_records_def)
  have gset: "set (g tab) \<subseteq> {r \<in> set (table_records tab). key_is_in_range (user_key (fst r)) rng}"
    "{r \<in> set (table_records tab). key_is_in_range (user_key (fst r)) rng \<and> \<not> at_start rng r} \<subseteq> set (g tab)"
    if "tab \<in> set (table_handles ?v)" for tab
  proof -
    have ca: "set (g tab) \<subseteq> {r \<in> set (table_records tab). key_is_in_range (user_key (fst r)) rng}"
      "filter (\<lambda>r. \<not> at_start rng r) (g tab) =
        filter (\<lambda>r. key_is_in_range (user_key (fst r)) rng \<and> \<not> at_start rng r) (table_records tab)"
      using g(2) [OF that] unfolding complete_above_start_def by blast+
    show "set (g tab) \<subseteq> {r \<in> set (table_records tab). key_is_in_range (user_key (fst r)) rng}" by (rule ca(1))
    show "{r \<in> set (table_records tab). key_is_in_range (user_key (fst r)) rng \<and> \<not> at_start rng r} \<subseteq> set (g tab)"
      using arg_cong [OF ca(2), of set] by auto
  qed
  have T: "?T \<subseteq> {r \<in> version_records ?v. key_is_in_range (user_key (fst r)) rng}"
    "{r \<in> version_records ?v. key_is_in_range (user_key (fst r)) rng \<and> kr_start rng \<noteq> Included (user_key (fst r))} \<subseteq> ?T"
    using gset unfolding version_records_def at_start_def by blast+
  have "snapshot_records snap = (set (mt_entries (rs_active_memtable snap)) \<union> (\<Union>d\<in>set (rs_deltas snap). delta_records d) \<union>
        (\<Union>im\<in>set (rs_immutable_memtables snap). set (mt_entries (im_memtable im)))) \<union> version_records ?v"
    unfolding snapshot_records_def chain_records_def by (simp only: Un_ac)
  note eq = this
  show ?thesis
    unfolding eq by (rule exI [of _ rs], rule conjI [OF rs(1)], rule collected_split [OF rs(2) T])
qed

definition modified_key :: "point_record set \<Rightarrow> range_tombstone set \<Rightarrow> bytes \<Rightarrow> sequence \<Rightarrow> bool" where
  "modified_key R T key s \<longleftrightarrow> (\<exists>r\<in>R. user_key (fst r) = key \<and> s < ik_sequence (fst r)) \<or>
     (\<exists>ts\<in>T. key_is_in_range key (rt_range ts) \<and> s < rt_sequence ts)"

lemma table_covering_set:
  "table_wf tab \<Longrightarrow> set (covering_key rt_range (tbl_range_tombstones tab) key) =
     {ts \<in> set (tbl_range_tombstones tab). key_is_in_range key (rt_range ts)}"
  "table_wf tab \<Longrightarrow> set (range_tombstones_overlapping_range tab rng) =
     {ts \<in> set (tbl_range_tombstones tab). ranges_overlap rng (rt_range ts)}"
  by (auto simp: table_wf_def covering_key_filter overlapping_range_filter range_tombstones_overlapping_range_def)

lemma tombstone_modified_iff:
  assumes "version_ok (rs_version snap)" "\<forall>tab\<in>set (table_handles (rs_version snap)). table_wf tab"
  shows "range_tombstone_modified_after_key snap key s \<longleftrightarrow>
      (\<exists>ts\<in>snapshot_tombstones snap. key_is_in_range key (rt_range ts) \<and> s < rt_sequence ts)"
    "range_tombstone_modified_after_range snap rng s \<longleftrightarrow>
      (\<exists>ts\<in>snapshot_tombstones snap. ranges_overlap rng (rt_range ts) \<and> s < rt_sequence ts)"
proof -
  have wf: "table_wf tab" if "tab \<in> set (table_handles (rs_version snap))" for tab
    using assms that by blast
  have "list_ex (\<lambda>tab. list_ex (\<lambda>ts. s < rt_sequence ts) (covering_key rt_range (tbl_range_tombstones tab) key))
      (table_handles (rs_version snap)) \<longleftrightarrow>
    (\<exists>ts\<in>version_tombstones (rs_version snap). key_is_in_range key (rt_range ts) \<and> s < rt_sequence ts)"
    "list_ex (\<lambda>tab. list_ex (\<lambda>ts. s < rt_sequence ts) (range_tombstones_overlapping_range tab rng))
      (table_handles (rs_version snap)) \<longleftrightarrow>
    (\<exists>ts\<in>version_tombstones (rs_version snap). ranges_overlap rng (rt_range ts) \<and> s < rt_sequence ts)"
    unfolding list_ex_iff version_tombstones_def using table_covering_set [OF wf] by auto
  then show "range_tombstone_modified_after_key snap key s \<longleftrightarrow>
      (\<exists>ts\<in>snapshot_tombstones snap. key_is_in_range key (rt_range ts) \<and> s < rt_sequence ts)"
    "range_tombstone_modified_after_range snap rng s \<longleftrightarrow>
      (\<exists>ts\<in>snapshot_tombstones snap. ranges_overlap rng (rt_range ts) \<and> s < rt_sequence ts)"
    unfolding range_tombstone_modified_after_key_def range_tombstone_modified_after_range_def
      snapshot_tombstones_def list_ex_iff memtable_tombstones_set by auto
qed

lemma snapshot_all_sets:
  assumes "shards_ok shards"
  shows "chain_records (snapshot_all shards) = shards_records shards"
    "chain_tombstones (snapshot_all shards) = shards_tombstones shards"
  by (auto simp: snapshot_all_def chain_records_def chain_tombstones_def shards_records_def shards_tombstones_def)

lemma range_conflict_sets:
  assumes "tree_ok t"
  shows "rs_version (range_conflict_snapshot t s) = current_version t"
    "snapshot_records (range_conflict_snapshot t s) = tree_records t"
    "snapshot_tombstones (range_conflict_snapshot t s) = tree_tombstones t"
proof -
  let ?ds = "if delta_mirror_covers t s then [] else snapshot_all (delta_shards t)"
  have ok: "shards_ok (delta_shards t)" and mirror: "delta_mirror_sequence t \<noteq> 0 \<longrightarrow>
      shards_records (delta_shards t) = {} \<and> shards_tombstones (delta_shards t) = {}"
    using assms unfolding tree_ok_def by blast+
  have ds: "chain_records ?ds = shards_records (delta_shards t)" "chain_tombstones ?ds = shards_tombstones (delta_shards t)"
    using mirror snapshot_all_sets [OF ok] by (auto simp: delta_mirror_covers_def)
  show "rs_version (range_conflict_snapshot t s) = current_version t"
    by (simp add: range_conflict_snapshot_def conflict_source_snapshot_with_deltas_def)
  show "snapshot_records (range_conflict_snapshot t s) = tree_records t"
    "snapshot_tombstones (range_conflict_snapshot t s) = tree_tombstones t"
    unfolding range_conflict_snapshot_def conflict_snapshot_eq tree_snapshot_sets [OF assms] ds
    by (simp_all add: tree_records_def tree_tombstones_def)
qed

lemma tree_version_wf:
  "tree_ok t \<Longrightarrow> version_ok (current_version t) \<and> (\<forall>tab\<in>set (table_handles (current_version t)). table_wf tab)"
  unfolding tree_ok_def by blast

lemma point_conflict_records:
  fixes key s
  assumes "tree_ok t"
  defines "snap \<equiv> point_conflict_snapshot t key s"
  shows "rs_version snap = current_version t"
    "{r \<in> snapshot_records snap. user_key (fst r) = key} = {r \<in> tree_records t. user_key (fst r) = key}"
    "snapshot_tombstones snap = tree_tombstones t"
proof -
  let ?ds = "if delta_mirror_covers t s then [] else snapshot_for_key (delta_shards t) key"
  have vis: "{r \<in> R. user_key (fst r) = key} = visible_records key (- 1) R" for R
    by (auto simp: record_simps)
  have ok: "shards_ok (delta_shards t)" and mirror: "delta_mirror_sequence t \<noteq> 0 \<longrightarrow>
      shards_records (delta_shards t) = {} \<and> shards_tombstones (delta_shards t) = {}"
    using assms unfolding tree_ok_def by blast+
  have ds: "visible_records key (- 1) (chain_records ?ds) = visible_records key (- 1) (shards_records (delta_shards t))"
    "chain_tombstones ?ds = shards_tombstones (delta_shards t)"
    using mirror snapshot_for_key_records [OF ok, of key "- 1"] snapshot_for_key_tombstones [OF ok, of key]
    by (auto simp: delta_mirror_covers_def)
  show "rs_version snap = current_version t"
    by (simp add: snap_def point_conflict_snapshot_def conflict_source_snapshot_with_deltas_def)
  show "{r \<in> snapshot_records snap. user_key (fst r) = key} = {r \<in> tree_records t. user_key (fst r) = key}"
    unfolding vis snap_def point_conflict_snapshot_def conflict_snapshot_eq tree_snapshot_sets [OF assms(1)] tree_records_def
    using ds(1) by (simp add: record_simps)
  show "snapshot_tombstones snap = tree_tombstones t"
    unfolding snap_def point_conflict_snapshot_def conflict_snapshot_eq tree_snapshot_sets [OF assms(1)] ds(2)
    by (simp add: tree_tombstones_def)
qed

text \<open>C37: The conflict check of a point read is exact: it reports a conflict exactly when the tree holds,
  in any source, a version of the key newer than the read or a newer range tombstone over the key.\<close>
theorem point_conflict_exact:
  assumes "tree_ok t"
  shows "point_key_modified_after t key s = Ok (modified_key (tree_records t) (tree_tombstones t) key s)"
proof -
  let ?snap = "point_conflict_snapshot t key s" and ?p = "bo_index_search_policy (tree_options t)"
  note sets = point_conflict_records [OF assms, where key = key and s = s]
  have v: "version_ok (rs_version ?snap)" "\<forall>tab\<in>set (table_handles (rs_version ?snap)). table_wf tab"
    unfolding sets(1) using tree_version_wf [OF assms] by blast+
  obtain rs where rs: "collect_point_key_records ?p ?snap key = Inr rs"
    "set rs = {r \<in> tree_records t. user_key (fst r) = key}"
    using collect_point_key_records_set [OF v, of ?p key] unfolding sets(2) by blast
  show ?thesis
    unfolding point_key_modified_after_def point_key_modified_after_in_snapshot_def rs(1) and_then_simps
      tombstone_modified_iff(1) [OF v] sets(3) list_ex_iff rs(2) modified_key_def bex_Collect if_or ..
qed

theorem point_conflict_exact_witness:
  "point_key_modified_after (apply_operation sample_tree (OpPut [] [1] [9]) 5 0) [1] 4 = Ok True"
proof -
  let ?t = "apply_operation sample_tree (OpPut [] [1] [9]) 5 0"
  have t: "tree_ok ?t" "tree_records ?t = {(InternalKey [1] 5 Put 0, Some (Inline [9]))}"
    using apply_operation_ok [OF sample_tree_ok(1) _ _ sample_put_fits] by (simp_all add: sample_tree_simps sample_tree_ok)
  show ?thesis using point_conflict_exact [OF t(1), of "[1]" 4] by (simp add: modified_key_def t(2) word_less_nat_alt)
qed

text \<open>C38: The conflict check of a range read never fails, reports a conflict only when a record in the
  range or a tombstone that overlaps it is newer than the read, and misses no such tombstone, no such
  record that is still in memory and no such record of a table whose key is not the included lower
  bound of the range.\<close>
theorem range_conflict_sound:
  assumes "tree_ok t"
  shows "\<exists>b. key_range_modified_after t rng s = Ok b \<and>
    (b \<longrightarrow> (\<exists>r\<in>tree_records t. key_is_in_range (user_key (fst r)) rng \<and> s < ik_sequence (fst r)) \<or>
       (\<exists>ts\<in>tree_tombstones t. ranges_overlap rng (rt_range ts) \<and> s < rt_sequence ts)) \<and>
    ((\<exists>ts\<in>tree_tombstones t. ranges_overlap rng (rt_range ts) \<and> s < rt_sequence ts) \<longrightarrow> b) \<and>
    ((\<exists>r\<in>tree_records t. key_is_in_range (user_key (fst r)) rng \<and> s < ik_sequence (fst r) \<and>
        (r \<notin> version_records (current_version t) \<or> kr_start rng \<noteq> Included (user_key (fst r)))) \<longrightarrow> b)"
proof -
  let ?snap = "range_conflict_snapshot t s" and ?p = "bo_index_search_policy (tree_options t)"
  note sets = range_conflict_sets [OF assms, of s]
  have v: "version_ok (rs_version ?snap)" "\<forall>tab\<in>set (table_handles (rs_version ?snap)). table_wf tab"
    unfolding sets(1) using tree_version_wf [OF assms] by blast+
  obtain rs where rs: "collect_range_point_records ?p ?snap rng = Inr rs"
    "set rs \<subseteq> {r \<in> tree_records t. key_is_in_range (user_key (fst r)) rng}"
    "{r \<in> tree_records t. key_is_in_range (user_key (fst r)) rng \<and> kr_start rng \<noteq> Included (user_key (fst r))} \<subseteq> set rs"
    "{r \<in> tree_records t - version_records (current_version t). key_is_in_range (user_key (fst r)) rng} \<subseteq> set rs"
    using collect_range_point_records_set [OF v, of ?p rng] unfolding sets by blast
  have "key_range_modified_after t rng s = Inr ((\<exists>r\<in>set rs. s < ik_sequence (fst r)) \<or>
      (\<exists>ts\<in>tree_tombstones t. ranges_overlap rng (rt_range ts) \<and> s < rt_sequence ts))"
    unfolding key_range_modified_after_def key_range_modified_after_in_snapshot_def rs(1) and_then_simps
      tombstone_modified_iff(2) [OF v] sets(3) list_ex_iff by auto
  moreover have "(\<exists>r\<in>set rs. s < ik_sequence (fst r)) \<longrightarrow>
      (\<exists>r\<in>tree_records t. key_is_in_range (user_key (fst r)) rng \<and> s < ik_sequence (fst r))"
    using rs(2) by blast
  moreover have "(\<exists>r\<in>tree_records t. key_is_in_range (user_key (fst r)) rng \<and> s < ik_sequence (fst r) \<and>
        (r \<notin> version_records (current_version t) \<or> kr_start rng \<noteq> Included (user_key (fst r)))) \<longrightarrow>
      (\<exists>r\<in>set rs. s < ik_sequence (fst r))"
    using rs(3,4) by blast
  ultimately show ?thesis by blast
qed

theorem range_conflict_sound_witness:
  "key_range_modified_after (apply_operation sample_tree (OpPut [] [1] [9]) 5 0)
     \<lparr>kr_start = Included [1], kr_end = Unbounded\<rparr> 4 = Ok True"
proof -
  let ?t = "apply_operation sample_tree (OpPut [] [1] [9]) 5 0" and ?r = "(InternalKey [1] 5 Put 0, Some (Inline [9]))"
  have t: "tree_ok ?t" "tree_records ?t = {?r}"
    using apply_operation_ok [OF sample_tree_ok(1) _ _ sample_put_fits] by (simp_all add: sample_tree_simps sample_tree_ok)
  have "current_version ?t = \<lparr>levels = []\<rparr>"
    by (simp add: apply_operation_def mark_delta_mirror_sequence_def sample_tree_def)
  then have v: "?r \<notin> version_records (current_version ?t)" by (simp add: version_records_def table_handles_def)
  show ?thesis
    using range_conflict_sound [OF t(1), of "\<lparr>kr_start = Included [1], kr_end = Unbounded\<rparr>" 4] v
    by (auto simp: t(2) key_is_in_range_def word_less_nat_alt)
qed

end
