(* ===== verification/Compaction_Plan.thy ===== *)
theory Compaction_Plan
  imports Table_Read
begin

text \<open>The compaction picker of \<^verbatim>\<open>src/src/compaction.rs\<close>: which tables of a bucket a compaction merges,
  the level it writes to and the key range it covers.  The tables are seen through
  \<^verbatim>\<open>CompactionTable\<close>, their identifier, level, size and key bounds.  The theorems say that the inputs
  are closed under overlap in the level that receives the output and that the planned key range
  encloses every input with key bounds.\<close>

section \<open>Plans\<close>

datatype compaction_trigger = L0Overlap | LevelSize | MultiTableLevel | TombstoneDebt

datatype compaction_skip = LowerLevelLazy

record compaction_plan =
  cp_bucket :: string
  cp_input_tables :: "u64 list"
  cp_output_level :: u32
  cp_oldest_active_snapshot :: sequence
  cp_key_range :: key_range
  cp_trigger :: compaction_trigger

record compaction_decision =
  cd_plan :: "compaction_plan option"
  cd_skip :: "compaction_skip option"

definition planned :: "compaction_plan \<Rightarrow> compaction_decision" where
  "planned p = \<lparr>cd_plan = Some p, cd_skip = None\<rparr>"

definition idle :: "compaction_skip option \<Rightarrow> compaction_decision" where
  "idle skip = \<lparr>cd_plan = None, cd_skip = skip\<rparr>"

record compaction_options =
  co_target_table_bytes :: u64
  co_level_size_multiplier :: u64
  co_local_l0_compaction :: bool

record compaction_table =
  ct_id :: u64
  ct_level :: u32
  ct_bytes :: u64
  ct_has_range_tombstones :: bool
  ct_smallest_user_key :: bytes
  ct_largest_user_key :: bytes

definition from_properties_with_bytes :: "table_properties \<Rightarrow> u64 \<Rightarrow> bool \<Rightarrow> compaction_table" where
  "from_properties_with_bytes p bs has_tombstones =
     \<lparr>ct_id = tp_id p, ct_level = tp_level p, ct_bytes = bs, ct_has_range_tombstones = has_tombstones,
      ct_smallest_user_key = smallest_user_key p, ct_largest_user_key = largest_user_key p\<rparr>"

record key_span =
  ks_smallest :: bytes
  ks_largest :: bytes

definition ct_has_key_bounds :: "compaction_table \<Rightarrow> bool" where
  "ct_has_key_bounds t = (\<not> (ct_smallest_user_key t = [] \<and> ct_largest_user_key t = []))"

definition overlaps_key_span :: "compaction_table \<Rightarrow> key_span \<Rightarrow> bool" where
  "overlaps_key_span t span =
     (if \<not> ct_has_key_bounds t then True
      else ct_smallest_user_key t \<le> ks_largest span \<and> ct_largest_user_key t \<ge> ks_smallest span)"

definition is_all_range :: "key_range \<Rightarrow> bool" where
  "is_all_range rng = (kr_start rng = Unbounded \<and> kr_end rng = Unbounded)"

definition ct_overlaps_range :: "compaction_table \<Rightarrow> key_range \<Rightarrow> bool" where
  "ct_overlaps_range t rng =
     (if is_all_range rng \<or> \<not> ct_has_key_bounds t then True
      else \<not> key_is_after_end (ct_smallest_user_key t) (kr_end rng) \<and>
           \<not> key_is_before_start (ct_largest_user_key t) (kr_start rng))"

definition level_overflow :: error where
  "level_overflow = Corruption ''table level counter overflow''"

definition level_next :: "u32 \<Rightarrow> u32 option" where
  "level_next level = checked_add_word level 1"

text \<open>\<^verbatim>\<open>Iterator::max_by\<close>, which keeps the later of two equal maxima, and the saturating products the
  picker uses; \<^verbatim>\<open>sum\<close> over \<^verbatim>\<open>u64\<close> wraps around.\<close>

fun max_by :: "('a \<Rightarrow> 'a \<Rightarrow> ordering) \<Rightarrow> 'a list \<Rightarrow> 'a option" where
  "max_by c [] = None"
| "max_by c (x # xs) = Some (fold (\<lambda>y best. if c best y = Greater then best else y) xs x)"

definition saturating_mul_word :: "'a::len word \<Rightarrow> 'a word \<Rightarrow> 'a word" where
  "saturating_mul_word x y = (if unat x * unat y < 2 ^ LENGTH('a) then x * y else - 1)"

definition saturating_mul_usize :: "usize \<Rightarrow> usize \<Rightarrow> usize" where
  "saturating_mul_usize x y = min (x * y) usize_max"

section \<open>Spans and closure under overlap\<close>

definition widen_span :: "compaction_table \<Rightarrow> key_span option \<Rightarrow> key_span option" where
  "widen_span t span =
     Some (case span of
       Some current \<Rightarrow> \<lparr>ks_smallest = min (ks_smallest current) (ct_smallest_user_key t),
                       ks_largest = max (ks_largest current) (ct_largest_user_key t)\<rparr>
     | None \<Rightarrow> \<lparr>ks_smallest = ct_smallest_user_key t, ks_largest = ct_largest_user_key t\<rparr>)"

definition key_span_for_inputs :: "compaction_table list \<Rightarrow> u64 list \<Rightarrow> key_span option" where
  "key_span_for_inputs tables inputs =
     fold widen_span (filter (\<lambda>t. ct_id t \<in> set inputs \<and> ct_has_key_bounds t) tables) None"

definition key_range_for_inputs :: "compaction_table list \<Rightarrow> u64 list \<Rightarrow> key_range" where
  "key_range_for_inputs tables inputs =
     (case key_span_for_inputs tables inputs of
        None \<Rightarrow> key_range_all
      | Some span \<Rightarrow> \<lparr>kr_start = Included (ks_smallest span), kr_end = Included (ks_largest span)\<rparr>)"

text \<open>The body that the two closing loops share: push every table that qualifies and is not an input
  yet.\<close>

definition push_inputs :: "(compaction_table \<Rightarrow> bool) \<Rightarrow> compaction_table list \<Rightarrow> u64 list \<Rightarrow> u64 list" where
  "push_inputs qualifies tables inputs =
     fold (\<lambda>t ins. if qualifies t \<and> ct_id t \<notin> set ins then ins @ [ct_id t] else ins) tables inputs"

definition push_overlapping_l0 :: "compaction_table list \<Rightarrow> key_span \<Rightarrow> u64 list \<Rightarrow> u64 list" where
  "push_overlapping_l0 tables span inputs =
     push_inputs (\<lambda>t. ct_level t = 0 \<and> overlaps_key_span t span) tables inputs"

definition push_overlapping_level ::
  "compaction_table list \<Rightarrow> u32 \<Rightarrow> key_span option \<Rightarrow> u64 list \<Rightarrow> u64 list" where
  "push_overlapping_level tables level span inputs =
     push_inputs (\<lambda>t. ct_level t = level \<and>
       (case span of None \<Rightarrow> ct_overlaps_range t key_range_all | Some s \<Rightarrow> overlaps_key_span t s))
       tables inputs"

lemma push_inputs_extends:
  "\<exists>ys. push_inputs q tables inputs = inputs @ ys \<and> set ys \<subseteq> ct_id ` {t \<in> set tables. q t} \<and>
     set ys \<inter> set inputs = {} \<and> distinct ys"
proof (induction tables arbitrary: inputs)
  case Nil
  show ?case by (simp add: push_inputs_def)
next
  case (Cons t ts)
  let ?ins = "if q t \<and> ct_id t \<notin> set inputs then inputs @ [ct_id t] else inputs"
  obtain ys where "push_inputs q ts ?ins = ?ins @ ys" "set ys \<subseteq> ct_id ` {t \<in> set ts. q t}"
    "set ys \<inter> set ?ins = {}" "distinct ys"
    using Cons.IH by blast
  then show ?case
    by (cases "q t \<and> ct_id t \<notin> set inputs")
      (force simp: push_inputs_def intro!: exI [of _ "ct_id t # ys"], auto simp: push_inputs_def)
qed

lemma push_inputs_complete:
  "t \<in> set tables \<Longrightarrow> q t \<Longrightarrow> ct_id t \<in> set (push_inputs q tables inputs)"
proof (induction tables arbitrary: inputs)
  case (Cons u us)
  let ?ins = "if q u \<and> ct_id u \<notin> set inputs then inputs @ [ct_id u] else inputs"
  have "set ?ins \<subseteq> set (push_inputs q us ?ins)"
    using push_inputs_extends [of q us ?ins] by auto
  then show ?case
    using Cons by (cases "t = u") (auto simp: push_inputs_def split: if_splits)
qed simp

lemma push_inputs_grows:
  assumes "length (push_inputs q tables inputs) \<noteq> length inputs"
  shows "card (ct_id ` set tables - set (push_inputs q tables inputs)) < card (ct_id ` set tables - set inputs)"
proof -
  obtain ys where ys: "push_inputs q tables inputs = inputs @ ys" "set ys \<subseteq> ct_id ` {t \<in> set tables. q t}"
    "set ys \<inter> set inputs = {}"
    using push_inputs_extends [of q tables inputs] by blast
  then obtain y where "y \<in> set ys" using assms by (cases ys) auto
  then show ?thesis
    unfolding ys(1) using ys(2,3) by (intro psubset_card_mono) auto
qed

lemma push_inputs_stable:
  "length (push_inputs q tables inputs) = length inputs \<Longrightarrow> push_inputs q tables inputs = inputs"
  using push_inputs_extends [of q tables inputs] by auto

function close_overlapping_l0_inputs :: "compaction_table list \<Rightarrow> u64 list \<Rightarrow> u64 list" where
  "close_overlapping_l0_inputs tables inputs =
     (case key_span_for_inputs tables inputs of
        None \<Rightarrow> inputs
      | Some span \<Rightarrow>
          let inputs' = push_overlapping_l0 tables span inputs
          in if length inputs' = length inputs then inputs' else close_overlapping_l0_inputs tables inputs')"
  by pat_completeness auto
termination
  by (relation "measure (\<lambda>(tables, inputs). card (ct_id ` set tables - set inputs))")
    (use push_inputs_grows in \<open>auto simp: push_overlapping_l0_def\<close>)

function include_overlapping_level ::
  "compaction_table list \<Rightarrow> u64 list \<Rightarrow> u32 \<Rightarrow> key_span option \<Rightarrow> u64 list" where
  "include_overlapping_level tables inputs level span =
     (let inputs' = push_overlapping_level tables level span inputs
      in if length inputs' = length inputs then inputs'
         else include_overlapping_level tables inputs' level (key_span_for_inputs tables inputs'))"
  by pat_completeness auto
termination
  by (relation "measure (\<lambda>(tables, inputs, level, span). card (ct_id ` set tables - set inputs))")
    (use push_inputs_grows in \<open>auto simp: push_overlapping_level_def\<close>)

declare close_overlapping_l0_inputs.simps [simp del] include_overlapping_level.simps [simp del]

section \<open>Level-0 inputs\<close>

definition broad_l0_inputs :: "compaction_table list \<Rightarrow> key_range \<Rightarrow> u64 list" where
  "broad_l0_inputs tables rng =
     map ct_id (filter (\<lambda>t. ct_level t = 0 \<and> ct_overlaps_range t rng) tables)"

definition overlapping_level_bytes :: "compaction_table list \<Rightarrow> compaction_table \<Rightarrow> u32 \<Rightarrow> u64" where
  "overlapping_level_bytes tables candidate level =
     (case key_span_for_inputs tables [ct_id candidate] of
        None \<Rightarrow> sum_list (map ct_bytes (filter (\<lambda>t. ct_level t = level) tables))
      | Some span \<Rightarrow>
          sum_list (map ct_bytes (filter (\<lambda>t. ct_level t = level \<and> overlaps_key_span t span) tables)))"

definition compare_l0_seed_candidates ::
  "compaction_table list \<Rightarrow> compaction_table \<Rightarrow> compaction_table \<Rightarrow> ordering" where
  "compare_l0_seed_candidates tables left right =
     (let left_overlap = overlapping_level_bytes tables left 1;
          right_overlap = overlapping_level_bytes tables right 1
      in then_with (then_with (cmp right_overlap left_overlap) (cmp (ct_bytes left) (ct_bytes right)))
           (cmp (ct_id right) (ct_id left)))"

definition pick_l0_seed_table :: "compaction_table list \<Rightarrow> key_range \<Rightarrow> compaction_table option" where
  "pick_l0_seed_table tables rng =
     max_by (compare_l0_seed_candidates tables)
       (filter (\<lambda>t. ct_level t = 0 \<and> ct_overlaps_range t rng) tables)"

definition local_l0_inputs :: "compaction_table list \<Rightarrow> key_range \<Rightarrow> u64 list" where
  "local_l0_inputs tables rng =
     close_overlapping_l0_inputs tables
       (case pick_l0_seed_table tables rng of None \<Rightarrow> [] | Some seed \<Rightarrow> [ct_id seed])"

definition compaction_input_bytes :: "compaction_table list \<Rightarrow> u64 list \<Rightarrow> u64" where
  "compaction_input_bytes tables inputs =
     sum_list (map ct_bytes (filter (\<lambda>t. ct_id t \<in> set inputs) tables))"

definition local_l0_inputs_save_rewrite :: "compaction_table list \<Rightarrow> u64 list \<Rightarrow> u64 list \<Rightarrow> bool" where
  "local_l0_inputs_save_rewrite tables local_inputs broad_inputs =
     (if local_inputs = [] \<or> length local_inputs \<ge> length broad_inputs then False
      else
        let local_bytes = compaction_input_bytes tables local_inputs;
            broad_bytes = compaction_input_bytes tables broad_inputs
        in if broad_bytes = 0
           then saturating_mul_usize (length local_inputs) 2 < length broad_inputs
           else saturating_mul_word local_bytes 2 < broad_bytes)"

definition l0_inputs_with_overlap ::
  "compaction_table list \<Rightarrow> key_range \<Rightarrow> compaction_options \<Rightarrow> u64 list" where
  "l0_inputs_with_overlap tables rng opts =
     (let broad_inputs = broad_l0_inputs tables rng;
          inputs =
            (if co_local_l0_compaction opts
             then
               let local_inputs = local_l0_inputs tables rng
               in if local_l0_inputs_save_rewrite tables local_inputs broad_inputs
                  then local_inputs else broad_inputs
             else broad_inputs)
      in if inputs = [] then inputs else close_overlapping_l0_inputs tables inputs)"

definition l0_compaction_inputs ::
  "compaction_table list \<Rightarrow> key_range \<Rightarrow> compaction_options \<Rightarrow> u64 list option" where
  "l0_compaction_inputs tables rng opts =
     (let inputs = l0_inputs_with_overlap tables rng opts
      in if inputs = [] then None
         else Some (include_overlapping_level tables inputs 1 (key_span_for_inputs tables inputs)))"

section \<open>Levels\<close>

definition level_set :: "compaction_table list \<Rightarrow> key_range \<Rightarrow> u32 list" where
  "level_set tables rng =
     remdups (sort (map ct_level (filter (\<lambda>t. ct_level t \<noteq> 0 \<and> ct_overlaps_range t rng) tables)))"

definition overlapping_table_count :: "compaction_table list \<Rightarrow> key_range \<Rightarrow> u32 \<Rightarrow> usize" where
  "overlapping_table_count tables rng level =
     length (filter (\<lambda>t. ct_level t = level \<and> ct_overlaps_range t rng) tables)"

definition multi_table_fallback_threshold :: "u32 \<Rightarrow> usize" where
  "multi_table_fallback_threshold level = saturating_add_usize 1 (unat level)"

definition lower_level_lazy_skip :: "compaction_table list \<Rightarrow> key_range \<Rightarrow> compaction_skip option" where
  "lower_level_lazy_skip tables rng =
     (if list_ex (\<lambda>level.
           let n = overlapping_table_count tables rng level
           in n \<ge> 2 \<and> n < multi_table_fallback_threshold level) (level_set tables rng)
      then Some LowerLevelLazy else None)"

definition deepest_nonzero_level :: "compaction_table list \<Rightarrow> u32 option" where
  "deepest_nonzero_level tables =
     max_by cmp (map ct_level (filter (\<lambda>t. ct_level t \<noteq> 0) tables))"

definition shallowest_multi_table_level :: "compaction_table list \<Rightarrow> key_range \<Rightarrow> u32 option" where
  "shallowest_multi_table_level tables rng =
     find (\<lambda>level. overlapping_table_count tables rng level \<ge> multi_table_fallback_threshold level)
       (level_set tables rng)"

definition level_bytes :: "compaction_table list \<Rightarrow> u32 \<Rightarrow> u64" where
  "level_bytes tables level = sum_list (map ct_bytes (filter (\<lambda>t. ct_level t = level) tables))"

definition level_target_bytes :: "u32 \<Rightarrow> compaction_options \<Rightarrow> u64" where
  "level_target_bytes level opts =
     ((\<lambda>target. saturating_mul_word target (max (co_level_size_multiplier opts) 2)) ^^
        unat (saturating_sub_word level 1)) (max (co_target_table_bytes opts) 1)"

definition level_is_over_target :: "compaction_table list \<Rightarrow> u32 \<Rightarrow> compaction_options \<Rightarrow> bool" where
  "level_is_over_target tables level opts = (level_bytes tables level > level_target_bytes level opts)"

text \<open>The products of two \<^verbatim>\<open>u64\<close> values fit in the \<^verbatim>\<open>u128\<close> they are computed in.\<close>

definition compare_level_scores ::
  "compaction_table list \<Rightarrow> u32 \<Rightarrow> u32 \<Rightarrow> compaction_options \<Rightarrow> ordering" where
  "compare_level_scores tables left right opts =
     cmp (unat (level_bytes tables left) * unat (level_target_bytes right opts))
       (unat (level_bytes tables right) * unat (level_target_bytes left opts))"

definition highest_scored_level ::
  "compaction_table list \<Rightarrow> key_range \<Rightarrow> compaction_options \<Rightarrow> u32 option" where
  "highest_scored_level tables rng opts =
     max_by (\<lambda>left right. compare_level_scores tables left right opts)
       (filter (\<lambda>level. level_is_over_target tables level opts) (level_set tables rng))"

definition compare_input_candidates :: "compaction_table \<Rightarrow> compaction_table \<Rightarrow> ordering" where
  "compare_input_candidates left right =
     then_with (cmp (ct_bytes left) (ct_bytes right)) (cmp (ct_id right) (ct_id left))"

definition pick_leveled_input_table ::
  "compaction_table list \<Rightarrow> key_range \<Rightarrow> u32 \<Rightarrow> compaction_table option" where
  "pick_leveled_input_table tables rng level =
     max_by compare_input_candidates
       (filter (\<lambda>t. ct_level t = level \<and> ct_overlaps_range t rng) tables)"

definition narrow_leveled_inputs ::
  "compaction_table list \<Rightarrow> key_range \<Rightarrow> u32 \<Rightarrow> u32 \<Rightarrow> u64 list" where
  "narrow_leveled_inputs tables rng input_level output_level =
     (case pick_leveled_input_table tables rng input_level of
        None \<Rightarrow> []
      | Some t \<Rightarrow>
          include_overlapping_level tables [ct_id t] output_level (key_span_for_inputs tables [ct_id t]))"

definition level_has_range_tombstone_table :: "compaction_table list \<Rightarrow> key_range \<Rightarrow> u32 \<Rightarrow> bool" where
  "level_has_range_tombstone_table tables rng level =
     list_ex (\<lambda>t. ct_level t = level \<and> ct_has_range_tombstones t \<and> ct_overlaps_range t rng) tables"

definition narrow_tombstone_inputs ::
  "compaction_table list \<Rightarrow> key_range \<Rightarrow> u32 \<Rightarrow> u32 \<Rightarrow> u64 list" where
  "narrow_tombstone_inputs tables rng input_level output_level =
     (case find (\<lambda>t. ct_level t = input_level \<and> ct_has_range_tombstones t \<and> ct_overlaps_range t rng) tables of
        None \<Rightarrow> []
      | Some t \<Rightarrow>
          include_overlapping_level tables [ct_id t] output_level (key_span_for_inputs tables [ct_id t]))"

definition tombstone_debt_plan ::
  "string \<Rightarrow> compaction_table list \<Rightarrow> key_range \<Rightarrow> sequence \<Rightarrow> compaction_plan option result" where
  "tombstone_debt_plan bucket tables rng oldest =
     (case find (\<lambda>level. Some level \<noteq> deepest_nonzero_level tables \<and>
                   level_has_range_tombstone_table tables rng level) (level_set tables rng) of
        None \<Rightarrow> Ok None
      | Some level \<Rightarrow>
          and_then (ok_or level_overflow (level_next level)) (\<lambda>output_level.
          let inputs = narrow_tombstone_inputs tables rng level output_level
          in if length inputs < 2 then Ok None
             else Ok (Some
               \<lparr>cp_bucket = bucket, cp_input_tables = inputs, cp_output_level = output_level,
                cp_oldest_active_snapshot = oldest, cp_key_range = key_range_for_inputs tables inputs,
                cp_trigger = TombstoneDebt\<rparr>)))"

section \<open>The picker\<close>

definition plan_multi_table ::
  "string \<Rightarrow> compaction_table list \<Rightarrow> key_range \<Rightarrow> sequence \<Rightarrow> compaction_decision result" where
  "plan_multi_table bucket tables rng oldest =
     (case shallowest_multi_table_level tables rng of
        None \<Rightarrow> Ok (idle (lower_level_lazy_skip tables rng))
      | Some level \<Rightarrow>
          and_then (ok_or level_overflow (level_next level)) (\<lambda>output_level.
          let inputs = narrow_leveled_inputs tables rng level output_level
          in if inputs = [] then Ok (idle (lower_level_lazy_skip tables rng))
             else Ok (planned
               \<lparr>cp_bucket = bucket, cp_input_tables = inputs, cp_output_level = output_level,
                cp_oldest_active_snapshot = oldest, cp_key_range = key_range_for_inputs tables inputs,
                cp_trigger = MultiTableLevel\<rparr>)))"

definition plan_tombstone_debt ::
  "string \<Rightarrow> compaction_table list \<Rightarrow> key_range \<Rightarrow> sequence \<Rightarrow> compaction_decision result" where
  "plan_tombstone_debt bucket tables rng oldest =
     and_then (tombstone_debt_plan bucket tables rng oldest) (\<lambda>plan.
     case plan of
       Some p \<Rightarrow> Ok (planned p)
     | None \<Rightarrow> plan_multi_table bucket tables rng oldest)"

definition plan_compaction ::
  "string \<Rightarrow> compaction_table list \<Rightarrow> key_range \<Rightarrow> sequence \<Rightarrow> compaction_options \<Rightarrow>
   compaction_decision result" where
  "plan_compaction bucket tables rng oldest opts =
     (case l0_compaction_inputs tables rng opts of
        Some inputs \<Rightarrow>
          Ok (planned
            \<lparr>cp_bucket = bucket, cp_input_tables = inputs, cp_output_level = 1,
             cp_oldest_active_snapshot = oldest, cp_key_range = key_range_for_inputs tables inputs,
             cp_trigger = L0Overlap\<rparr>)
      | None \<Rightarrow>
          (case highest_scored_level tables rng opts of
             Some level \<Rightarrow>
               and_then (ok_or level_overflow (level_next level)) (\<lambda>output_level.
               let inputs = narrow_leveled_inputs tables rng level output_level
               in if inputs \<noteq> []
                  then Ok (planned
                    \<lparr>cp_bucket = bucket, cp_input_tables = inputs, cp_output_level = output_level,
                     cp_oldest_active_snapshot = oldest, cp_key_range = key_range_for_inputs tables inputs,
                     cp_trigger = LevelSize\<rparr>)
                  else plan_tombstone_debt bucket tables rng oldest)
           | None \<Rightarrow> plan_tombstone_debt bucket tables rng oldest))"

section \<open>Spans enclose their inputs\<close>

lemma widen_span_fold_Some:
  "fold widen_span ts (Some s) = Some s' \<Longrightarrow>
     ks_smallest s' \<le> ks_smallest s \<and> ks_largest s \<le> ks_largest s' \<and>
     (\<forall>t\<in>set ts. ks_smallest s' \<le> ct_smallest_user_key t \<and> ct_largest_user_key t \<le> ks_largest s')"
proof (induction ts arbitrary: s)
  case (Cons t ts)
  define s1 where "s1 = \<lparr>ks_smallest = min (ks_smallest s) (ct_smallest_user_key t),
    ks_largest = max (ks_largest s) (ct_largest_user_key t)\<rparr>"
  then have s1: "widen_span t (Some s) = Some s1" "fold widen_span ts (Some s1) = Some s'"
    using Cons.prems by (simp_all add: widen_span_def [of t])
  then have "ks_smallest s1 \<le> ks_smallest s" "ks_smallest s1 \<le> ct_smallest_user_key t"
    "ks_largest s \<le> ks_largest s1" "ct_largest_user_key t \<le> ks_largest s1"
    by (auto simp: widen_span_def)
  then show ?case using Cons.IH [OF s1(2)] by fastforce
qed simp

lemma widen_span_fold_not_None [simp]: "fold widen_span ts (Some s) \<noteq> None"
  by (induction ts arbitrary: s) (auto simp: widen_span_def)

lemma key_span_for_inputs_None:
  "key_span_for_inputs tables inputs = None \<longleftrightarrow>
     (\<forall>t\<in>set tables. ct_id t \<in> set inputs \<longrightarrow> \<not> ct_has_key_bounds t)"
proof -
  let ?ts = "filter (\<lambda>t. ct_id t \<in> set inputs \<and> ct_has_key_bounds t) tables"
  have "fold widen_span ?ts None = None \<longleftrightarrow> ?ts = []"
    by (cases ?ts) (auto simp: widen_span_def)
  then show ?thesis unfolding key_span_for_inputs_def by (auto simp: filter_empty_conv)
qed

lemma key_span_for_inputs_encloses:
  assumes "key_span_for_inputs tables inputs = Some s" "t \<in> set tables" "ct_id t \<in> set inputs"
    "ct_has_key_bounds t"
  shows "ks_smallest s \<le> ct_smallest_user_key t" "ct_largest_user_key t \<le> ks_largest s"
proof -
  let ?ts = "filter (\<lambda>t. ct_id t \<in> set inputs \<and> ct_has_key_bounds t) tables"
  have t: "t \<in> set ?ts" using assms by simp
  obtain u us where us: "?ts = u # us" using t by (cases ?ts) auto
  have "fold widen_span us (Some \<lparr>ks_smallest = ct_smallest_user_key u, ks_largest = ct_largest_user_key u\<rparr>) = Some s"
    using assms(1) us by (simp add: key_span_for_inputs_def widen_span_def)
  from widen_span_fold_Some [OF this] t us
  have "ks_smallest s \<le> ct_smallest_user_key t \<and> ct_largest_user_key t \<le> ks_largest s" by auto
  then show "ks_smallest s \<le> ct_smallest_user_key t" "ct_largest_user_key t \<le> ks_largest s" by auto
qed

lemma key_range_for_inputs_encloses:
  assumes "t \<in> set tables" "ct_id t \<in> set inputs" "ct_has_key_bounds t"
    "ct_smallest_user_key t \<le> key" "key \<le> ct_largest_user_key t"
  shows "key_is_in_range key (key_range_for_inputs tables inputs)"
proof (cases "key_span_for_inputs tables inputs")
  case (Some s)
  have "ks_smallest s \<le> key" "key \<le> ks_largest s"
    using key_span_for_inputs_encloses [OF Some assms(1-3)] assms(4,5) by auto
  then show ?thesis
    using Some by (simp add: key_range_for_inputs_def key_is_in_range_def not_less)
qed (simp add: key_range_for_inputs_def key_range_all_def key_is_in_range_def)

section \<open>The inputs are closed under overlap\<close>

lemma include_overlapping_level_stop:
  "length (push_overlapping_level tables level span inputs) = length inputs \<Longrightarrow>
   include_overlapping_level tables inputs level span = inputs"
  unfolding push_overlapping_level_def
  by (subst include_overlapping_level.simps) (simp add: push_overlapping_level_def push_inputs_stable)

lemma include_overlapping_level_step:
  "length (push_overlapping_level tables level span inputs) \<noteq> length inputs \<Longrightarrow>
   include_overlapping_level tables inputs level span =
   include_overlapping_level tables (push_overlapping_level tables level span inputs) level
     (key_span_for_inputs tables (push_overlapping_level tables level span inputs))"
  by (subst include_overlapping_level.simps) (simp add: Let_def)

lemma push_overlapping_level_extends:
  "\<exists>ys. push_overlapping_level tables level span inputs = inputs @ ys \<and>
     set ys \<subseteq> ct_id ` {t \<in> set tables. ct_level t = level}"
proof -
  let ?q = "\<lambda>t. ct_level t = level \<and>
    (case span of None \<Rightarrow> ct_overlaps_range t key_range_all | Some s \<Rightarrow> overlaps_key_span t s)"
  obtain ys where "push_inputs ?q tables inputs = inputs @ ys" "set ys \<subseteq> ct_id ` {t \<in> set tables. ?q t}"
    using push_inputs_extends [of ?q tables inputs] by blast
  then show ?thesis unfolding push_overlapping_level_def by (intro exI [of _ ys]) auto
qed

lemma close_overlapping_l0_inputs_stop:
  "key_span_for_inputs tables inputs = Some span \<Longrightarrow>
   length (push_overlapping_l0 tables span inputs) = length inputs \<Longrightarrow>
   close_overlapping_l0_inputs tables inputs = inputs"
  unfolding push_overlapping_l0_def
  by (subst close_overlapping_l0_inputs.simps) (simp add: push_overlapping_l0_def push_inputs_stable)

lemma close_overlapping_l0_inputs_step:
  "key_span_for_inputs tables inputs = Some span \<Longrightarrow>
   length (push_overlapping_l0 tables span inputs) \<noteq> length inputs \<Longrightarrow>
   close_overlapping_l0_inputs tables inputs =
   close_overlapping_l0_inputs tables (push_overlapping_l0 tables span inputs)"
  by (subst close_overlapping_l0_inputs.simps) (simp add: Let_def)

lemma close_overlapping_l0_inputs_none:
  "key_span_for_inputs tables inputs = None \<Longrightarrow> close_overlapping_l0_inputs tables inputs = inputs"
  by (subst close_overlapping_l0_inputs.simps) simp

lemma push_overlapping_l0_extends:
  "\<exists>ys. push_overlapping_l0 tables span inputs = inputs @ ys \<and>
     set ys \<subseteq> ct_id ` {t \<in> set tables. ct_level t = 0}"
proof -
  let ?q = "\<lambda>t. ct_level t = 0 \<and> overlaps_key_span t span"
  obtain ys where "push_inputs ?q tables inputs = inputs @ ys" "set ys \<subseteq> ct_id ` {t \<in> set tables. ?q t}"
    using push_inputs_extends [of ?q tables inputs] by blast
  then show ?thesis unfolding push_overlapping_l0_def by (intro exI [of _ ys]) auto
qed

lemma include_overlapping_level_extends:
  "\<exists>ys. include_overlapping_level tables inputs level span = inputs @ ys \<and>
     set ys \<subseteq> ct_id ` {t \<in> set tables. ct_level t = level}"
proof (induction tables inputs level span rule: include_overlapping_level.induct)
  case (1 tables inputs level span)
  let ?p = "push_overlapping_level tables level span inputs"
  show ?case
  proof (cases "length ?p = length inputs")
    case True
    then show ?thesis by (simp add: include_overlapping_level_stop)
  next
    case False
    obtain ys where ys: "?p = inputs @ ys" "set ys \<subseteq> ct_id ` {t \<in> set tables. ct_level t = level}"
      using push_overlapping_level_extends by blast
    obtain zs where zs: "include_overlapping_level tables ?p level (key_span_for_inputs tables ?p) = ?p @ zs"
      "set zs \<subseteq> ct_id ` {t \<in> set tables. ct_level t = level}"
      using 1 [OF refl False] by blast
    have "include_overlapping_level tables inputs level span = inputs @ (ys @ zs)"
      using include_overlapping_level_step [OF False] zs(1) ys(1) by simp
    then show ?thesis using ys(2) zs(2) by (intro exI [of _ "ys @ zs"]) simp
  qed
qed

lemma include_overlapping_level_closed:
  assumes "span = key_span_for_inputs tables inputs" "t \<in> set tables" "ct_level t = level"
    "r = include_overlapping_level tables inputs level span" "ct_id t \<notin> set r"
  shows "\<exists>s. key_span_for_inputs tables r = Some s \<and> \<not> overlaps_key_span t s"
  using assms
proof (induction tables inputs level span rule: include_overlapping_level.induct)
  case (1 tables inputs level span)
  let ?p = "push_overlapping_level tables level span inputs"
  show ?case
  proof (cases "length ?p = length inputs")
    case True
    then have p: "?p = inputs" unfolding push_overlapping_level_def by (rule push_inputs_stable)
    have r: "r = inputs" using 1(5) include_overlapping_level_stop [OF True] by simp
    let ?o = "case span of None \<Rightarrow> ct_overlaps_range t key_range_all | Some s \<Rightarrow> overlaps_key_span t s"
    have "?o \<Longrightarrow> ct_id t \<in> set ?p"
      using 1(3,4) unfolding push_overlapping_level_def by (intro push_inputs_complete) auto
    then have "\<not> ?o" using 1(6) p r by auto
    then show ?thesis
      using 1(2) r by (auto simp: ct_overlaps_range_def is_all_range_def key_range_all_def split: option.splits)
  next
    case False
    then show ?thesis
      using 1(1) [OF refl False refl 1(3,4) _ 1(6)] 1(5) include_overlapping_level_step [OF False] by simp
  qed
qed

lemma close_overlapping_l0_inputs_extends:
  "\<exists>ys. close_overlapping_l0_inputs tables inputs = inputs @ ys \<and>
     set ys \<subseteq> ct_id ` {t \<in> set tables. ct_level t = 0}"
proof (induction tables inputs rule: close_overlapping_l0_inputs.induct)
  case (1 tables inputs)
  show ?case
  proof (cases "key_span_for_inputs tables inputs")
    case (Some span)
    let ?p = "push_overlapping_l0 tables span inputs"
    show ?thesis
    proof (cases "length ?p = length inputs")
      case True
      then show ?thesis using Some by (simp add: close_overlapping_l0_inputs_stop)
    next
      case False
      obtain ys where ys: "?p = inputs @ ys" "set ys \<subseteq> ct_id ` {t \<in> set tables. ct_level t = 0}"
        using push_overlapping_l0_extends by blast
      obtain zs where zs: "close_overlapping_l0_inputs tables ?p = ?p @ zs"
        "set zs \<subseteq> ct_id ` {t \<in> set tables. ct_level t = 0}"
        using 1 [OF Some refl False] by blast
      have "close_overlapping_l0_inputs tables inputs = inputs @ (ys @ zs)"
        using close_overlapping_l0_inputs_step [OF Some False] zs(1) ys(1) by simp
      then show ?thesis using ys(2) zs(2) by (intro exI [of _ "ys @ zs"]) simp
    qed
  qed (simp add: close_overlapping_l0_inputs_none)
qed

lemma close_overlapping_l0_inputs_closed:
  assumes "t \<in> set tables" "ct_level t = 0" "r = close_overlapping_l0_inputs tables inputs"
    "ct_id t \<notin> set r" "key_span_for_inputs tables r = Some s"
  shows "\<not> overlaps_key_span t s"
  using assms
proof (induction tables inputs rule: close_overlapping_l0_inputs.induct)
  case (1 tables inputs)
  show ?case
  proof (cases "key_span_for_inputs tables inputs")
    case None
    then show ?thesis using 1(4,6) by (simp add: close_overlapping_l0_inputs_none)
  next
    case (Some span)
    let ?p = "push_overlapping_l0 tables span inputs"
    show ?thesis
    proof (cases "length ?p = length inputs")
      case True
      then have p: "?p = inputs" unfolding push_overlapping_l0_def by (rule push_inputs_stable)
      have r: "r = inputs" using 1(4) close_overlapping_l0_inputs_stop [OF Some True] by simp
      have "overlaps_key_span t span \<Longrightarrow> ct_id t \<in> set ?p"
        using 1(2,3) unfolding push_overlapping_l0_def by (intro push_inputs_complete) auto
      then show ?thesis using 1(5,6) Some p r by auto
    next
      case False
      then show ?thesis
        using 1(1) [OF Some refl False 1(2,3) _ 1(5,6)] 1(4) close_overlapping_l0_inputs_step [OF Some False]
        by simp
    qed
  qed
qed

section \<open>What a plan covers\<close>

lemma max_by_fold_mem:
  "fold (\<lambda>y best. if c best y = Greater then best else y) zs b \<in> insert b (set zs)"
proof (induction zs arbitrary: b)
  case (Cons z zs)
  then show ?case using Cons [of b] Cons [of z] by (auto simp del: fold_simps simp: fold_simps(2))
qed simp

lemma max_by_mem: "max_by c xs = Some x \<Longrightarrow> x \<in> set xs"
  using max_by_fold_mem [of c "tl xs" "hd xs"] by (cases xs) auto

lemma max_by_filter: "max_by c (filter P xs) = Some x \<Longrightarrow> x \<in> set xs \<and> P x"
  using max_by_mem [of c "filter P xs" x] by simp

text \<open>Every plan consists of seeds one level above its output, closed under overlap there.\<close>

definition grown_from :: "compaction_table list \<Rightarrow> u64 list \<Rightarrow> compaction_plan \<Rightarrow> bool" where
  "grown_from tables seeds p \<longleftrightarrow>
     seeds \<noteq> [] \<and>
     set seeds \<subseteq> ct_id ` {t \<in> set tables. level_next (ct_level t) = Some (cp_output_level p)} \<and>
     cp_input_tables p = include_overlapping_level tables seeds (cp_output_level p) (key_span_for_inputs tables seeds) \<and>
     cp_key_range p = key_range_for_inputs tables (cp_input_tables p)"

lemma level_next_0: "level_next 0 = Some 1"
  by (simp add: level_next_def checked_add_word_def)

lemma broad_l0_inputs_level: "set (broad_l0_inputs tables rng) \<subseteq> ct_id ` {t \<in> set tables. ct_level t = 0}"
  by (auto simp: broad_l0_inputs_def)

lemma close_overlapping_l0_inputs_level:
  assumes "set inputs \<subseteq> ct_id ` {t \<in> set tables. ct_level t = 0}"
  shows "set (close_overlapping_l0_inputs tables inputs) \<subseteq> ct_id ` {t \<in> set tables. ct_level t = 0}"
proof -
  obtain ys where "close_overlapping_l0_inputs tables inputs = inputs @ ys"
    "set ys \<subseteq> ct_id ` {t \<in> set tables. ct_level t = 0}"
    using close_overlapping_l0_inputs_extends by blast
  then show ?thesis using assms by simp
qed

lemma local_l0_inputs_level: "set (local_l0_inputs tables rng) \<subseteq> ct_id ` {t \<in> set tables. ct_level t = 0}"
proof -
  let ?seed = "case pick_l0_seed_table tables rng of None \<Rightarrow> [] | Some seed \<Rightarrow> [ct_id seed]"
  have "set ?seed \<subseteq> ct_id ` {t \<in> set tables. ct_level t = 0}"
    by (auto simp: pick_l0_seed_table_def dest: max_by_filter [OF sym] split: option.splits)
  then show ?thesis unfolding local_l0_inputs_def by (rule close_overlapping_l0_inputs_level)
qed

lemma l0_inputs_with_overlap_closed:
  assumes "l0_inputs_with_overlap tables rng opts \<noteq> []"
  shows "\<exists>inputs. l0_inputs_with_overlap tables rng opts = close_overlapping_l0_inputs tables inputs \<and>
    set inputs \<subseteq> ct_id ` {t \<in> set tables. ct_level t = 0}"
proof -
  let ?ins = "if co_local_l0_compaction opts
    then if local_l0_inputs_save_rewrite tables (local_l0_inputs tables rng) (broad_l0_inputs tables rng)
      then local_l0_inputs tables rng else broad_l0_inputs tables rng
    else broad_l0_inputs tables rng"
  have "l0_inputs_with_overlap tables rng opts =
      (if ?ins = [] then ?ins else close_overlapping_l0_inputs tables ?ins)"
    unfolding l0_inputs_with_overlap_def Let_def by (rule refl)
  then have "l0_inputs_with_overlap tables rng opts = close_overlapping_l0_inputs tables ?ins"
    using assms by presburger
  moreover have "set ?ins \<subseteq> ct_id ` {t \<in> set tables. ct_level t = 0}"
    by (simp only: broad_l0_inputs_level local_l0_inputs_level split: if_split) simp
  ultimately show ?thesis by blast
qed

lemma l0_inputs_with_overlap_level:
  "set (l0_inputs_with_overlap tables rng opts) \<subseteq> ct_id ` {t \<in> set tables. ct_level t = 0}"
proof (cases "l0_inputs_with_overlap tables rng opts = []")
  case False
  then obtain inputs where "l0_inputs_with_overlap tables rng opts = close_overlapping_l0_inputs tables inputs"
    "set inputs \<subseteq> ct_id ` {t \<in> set tables. ct_level t = 0}"
    using l0_inputs_with_overlap_closed by blast
  then show ?thesis using close_overlapping_l0_inputs_level by simp
qed simp

lemma narrow_leveled_inputs_seed:
  "narrow_leveled_inputs tables rng level out \<noteq> [] \<Longrightarrow>
   \<exists>t\<in>set tables. ct_level t = level \<and> narrow_leveled_inputs tables rng level out =
     include_overlapping_level tables [ct_id t] out (key_span_for_inputs tables [ct_id t])"
  by (auto simp: narrow_leveled_inputs_def pick_leveled_input_table_def dest!: max_by_filter split: option.splits)

lemma find_mem: "find P xs = Some x \<Longrightarrow> x \<in> set xs \<and> P x"
  by (auto simp: find_Some_iff)

lemma narrow_tombstone_inputs_seed:
  "narrow_tombstone_inputs tables rng level out \<noteq> [] \<Longrightarrow>
   \<exists>t\<in>set tables. ct_level t = level \<and> narrow_tombstone_inputs tables rng level out =
     include_overlapping_level tables [ct_id t] out (key_span_for_inputs tables [ct_id t])"
  by (auto simp: narrow_tombstone_inputs_def dest!: find_mem split: option.splits)

lemma plan_multi_table_grown:
  assumes "plan_multi_table b tables rng s = Inr d" "cd_plan d = Some p"
  shows "\<exists>seeds. grown_from tables seeds p"
proof -
  from assms obtain level out where l: "level_next level = Some out"
    "narrow_leveled_inputs tables rng level out \<noteq> []"
    "p = \<lparr>cp_bucket = b, cp_input_tables = narrow_leveled_inputs tables rng level out, cp_output_level = out,
      cp_oldest_active_snapshot = s, cp_key_range = key_range_for_inputs tables (narrow_leveled_inputs tables rng level out),
      cp_trigger = MultiTableLevel\<rparr>"
    by (auto simp: plan_multi_table_def idle_def planned_def and_then_eq_Inr_iff ok_or_def Let_def
        split: option.splits if_splits)
  obtain t where "t \<in> set tables" "ct_level t = level" "narrow_leveled_inputs tables rng level out =
     include_overlapping_level tables [ct_id t] out (key_span_for_inputs tables [ct_id t])"
    using narrow_leveled_inputs_seed [OF l(2)] by blast
  then show ?thesis using l by (intro exI [of _ "[ct_id t]"]) (auto simp: grown_from_def)
qed

lemma tombstone_debt_plan_grown:
  assumes "tombstone_debt_plan b tables rng s = Inr (Some p)"
  shows "\<exists>seeds. grown_from tables seeds p"
proof -
  from assms obtain level out where l: "level_next level = Some out"
    "\<not> length (narrow_tombstone_inputs tables rng level out) < 2"
    "p = \<lparr>cp_bucket = b, cp_input_tables = narrow_tombstone_inputs tables rng level out, cp_output_level = out,
      cp_oldest_active_snapshot = s, cp_key_range = key_range_for_inputs tables (narrow_tombstone_inputs tables rng level out),
      cp_trigger = TombstoneDebt\<rparr>"
    by (auto simp: tombstone_debt_plan_def and_then_eq_Inr_iff ok_or_def Let_def
        split: option.splits if_splits)
  have "narrow_tombstone_inputs tables rng level out \<noteq> []" using l(2) by auto
  then obtain t where "t \<in> set tables" "ct_level t = level" "narrow_tombstone_inputs tables rng level out =
     include_overlapping_level tables [ct_id t] out (key_span_for_inputs tables [ct_id t])"
    using narrow_tombstone_inputs_seed by blast
  then show ?thesis using l by (intro exI [of _ "[ct_id t]"]) (auto simp: grown_from_def)
qed

lemma plan_tombstone_debt_grown:
  assumes "plan_tombstone_debt b tables rng s = Inr d" "cd_plan d = Some p"
  shows "\<exists>seeds. grown_from tables seeds p"
  using assms tombstone_debt_plan_grown plan_multi_table_grown
  by (auto simp: plan_tombstone_debt_def planned_def and_then_eq_Inr_iff split: option.splits)

lemma l0_compaction_inputs_Some:
  "l0_compaction_inputs tables rng opts = Some inputs \<longleftrightarrow>
     l0_inputs_with_overlap tables rng opts \<noteq> [] \<and>
     inputs = include_overlapping_level tables (l0_inputs_with_overlap tables rng opts) 1
       (key_span_for_inputs tables (l0_inputs_with_overlap tables rng opts))"
  by (auto simp: l0_compaction_inputs_def Let_def)

lemma plan_compaction_level_size:
  assumes "plan_compaction b tables rng s opts = Inr d" "cd_plan d = Some p"
    "l0_compaction_inputs tables rng opts = None" "plan_tombstone_debt b tables rng s \<noteq> Inr d"
  shows "\<exists>level out. level_next level = Some out \<and> narrow_leveled_inputs tables rng level out \<noteq> [] \<and>
    p = \<lparr>cp_bucket = b, cp_input_tables = narrow_leveled_inputs tables rng level out, cp_output_level = out,
      cp_oldest_active_snapshot = s,
      cp_key_range = key_range_for_inputs tables (narrow_leveled_inputs tables rng level out),
      cp_trigger = LevelSize\<rparr>"
proof (cases "highest_scored_level tables rng opts")
  case None
  then show ?thesis using assms by (simp add: plan_compaction_def)
next
  case (Some level)
  then obtain out where out: "level_next level = Some out"
    using assms(1,3) by (cases "level_next level") (simp_all add: plan_compaction_def ok_or_def)
  show ?thesis
  proof (cases "narrow_leveled_inputs tables rng level out = []")
    case True
    then show ?thesis using assms out Some by (simp add: plan_compaction_def ok_or_def)
  next
    case False
    then have "d = planned \<lparr>cp_bucket = b, cp_input_tables = narrow_leveled_inputs tables rng level out,
      cp_output_level = out, cp_oldest_active_snapshot = s,
      cp_key_range = key_range_for_inputs tables (narrow_leveled_inputs tables rng level out),
      cp_trigger = LevelSize\<rparr>"
      using assms(1,3) out Some by (simp add: plan_compaction_def ok_or_def Let_def)
    then show ?thesis using assms(2) out False by (intro exI [of _ level] exI [of _ out]) (simp add: planned_def)
  qed
qed

lemma plan_compaction_grown:
  assumes "plan_compaction b tables rng s opts = Inr d" "cd_plan d = Some p"
  shows "\<exists>seeds. grown_from tables seeds p"
proof (cases "l0_compaction_inputs tables rng opts")
  case (Some inputs)
  have "set (l0_inputs_with_overlap tables rng opts) \<subseteq>
      ct_id ` {t \<in> set tables. level_next (ct_level t) = Some 1}"
    using l0_inputs_with_overlap_level [of tables rng opts] level_next_0 by force
  moreover have "p = \<lparr>cp_bucket = b, cp_input_tables = inputs, cp_output_level = 1, cp_oldest_active_snapshot = s,
      cp_key_range = key_range_for_inputs tables inputs, cp_trigger = L0Overlap\<rparr>"
    using assms Some by (simp add: plan_compaction_def planned_def) (metis compaction_decision.select_convs(1) option.inject)
  ultimately show ?thesis
    using Some unfolding l0_compaction_inputs_Some
    by (intro exI [of _ "l0_inputs_with_overlap tables rng opts"]) (simp add: grown_from_def)
next
  case None
  show ?thesis
  proof (cases "plan_tombstone_debt b tables rng s = Inr d")
    case True
    then show ?thesis using plan_tombstone_debt_grown assms(2) by blast
  next
    case False
    then obtain level out where l: "level_next level = Some out"
      "narrow_leveled_inputs tables rng level out \<noteq> []"
      "p = \<lparr>cp_bucket = b, cp_input_tables = narrow_leveled_inputs tables rng level out, cp_output_level = out,
        cp_oldest_active_snapshot = s,
        cp_key_range = key_range_for_inputs tables (narrow_leveled_inputs tables rng level out),
        cp_trigger = LevelSize\<rparr>"
      using plan_compaction_level_size [OF assms None False] by blast
    obtain t where "t \<in> set tables" "ct_level t = level" "narrow_leveled_inputs tables rng level out =
       include_overlapping_level tables [ct_id t] out (key_span_for_inputs tables [ct_id t])"
      using narrow_leveled_inputs_seed [OF l(2)] by blast
    then show ?thesis using l by (intro exI [of _ "[ct_id t]"]) (auto simp: grown_from_def)
  qed
qed

lemma not_overlapping_outside:
  assumes "key_span_for_inputs tables inputs = Some s" "\<not> overlaps_key_span t s"
    "ct_smallest_user_key t \<le> key" "key \<le> ct_largest_user_key t"
  shows "\<not> key_is_in_range key (key_range_for_inputs tables inputs)"
  using assms by (auto simp: overlaps_key_span_def key_range_for_inputs_def key_is_in_range_def not_le
      split: if_splits)

lemma grown_from_inputs:
  assumes "grown_from tables seeds p"
  shows "cp_input_tables p \<noteq> []"
    "set (cp_input_tables p) \<subseteq> ct_id ` {t \<in> set tables. ct_level t = cp_output_level p \<or>
       level_next (ct_level t) = Some (cp_output_level p)}"
proof -
  have "cp_input_tables p =
      include_overlapping_level tables seeds (cp_output_level p) (key_span_for_inputs tables seeds)"
    using assms by (simp add: grown_from_def)
  then obtain ys where ys: "cp_input_tables p = seeds @ ys"
    "set ys \<subseteq> ct_id ` {t \<in> set tables. ct_level t = cp_output_level p}"
    using include_overlapping_level_extends [of tables seeds "cp_output_level p" "key_span_for_inputs tables seeds"]
    by auto
  have "seeds \<noteq> []" using assms by (simp add: grown_from_def)
  then show "cp_input_tables p \<noteq> []" unfolding ys(1) by simp
  have "set seeds \<subseteq> ct_id ` {t \<in> set tables. ct_level t = cp_output_level p \<or>
       level_next (ct_level t) = Some (cp_output_level p)}"
    using assms unfolding grown_from_def by blast
  then show "set (cp_input_tables p) \<subseteq> ct_id ` {t \<in> set tables. ct_level t = cp_output_level p \<or>
       level_next (ct_level t) = Some (cp_output_level p)}"
    using ys(2) unfolding ys(1) set_append by blast
qed

lemma grown_from_closed:
  assumes "grown_from tables seeds p" "t \<in> set tables" "ct_level t = cp_output_level p"
    "ct_id t \<notin> set (cp_input_tables p)"
  shows "\<exists>s. key_span_for_inputs tables (cp_input_tables p) = Some s \<and> \<not> overlaps_key_span t s"
  using include_overlapping_level_closed [OF refl assms(2,3) _ assms(4)] assms(1)
  unfolding grown_from_def by blast

text \<open>C12: A planned compaction takes inputs from the output level and the level above it only.  Its key
  range contains every key within the bounds of an input that has key bounds.  It is closed under
  overlap in the output level: a table of that level which is not an input has key bounds, and none
  of the keys within them lies in the key range, so the tables written there overlap none that stay.\<close>
theorem plan_closed_in_output_level:
  assumes "plan_compaction bucket tables rng oldest opts = Inr d" "cd_plan d = Some p"
  shows "cp_input_tables p \<noteq> [] \<and>
    set (cp_input_tables p) \<subseteq> ct_id ` {t \<in> set tables. ct_level t = cp_output_level p \<or>
      level_next (ct_level t) = Some (cp_output_level p)} \<and>
    (\<forall>t\<in>set tables. \<forall>key. ct_id t \<in> set (cp_input_tables p) \<and> ct_has_key_bounds t \<and>
       ct_smallest_user_key t \<le> key \<and> key \<le> ct_largest_user_key t \<longrightarrow> key_is_in_range key (cp_key_range p)) \<and>
    (\<forall>t\<in>set tables. ct_level t = cp_output_level p \<and> ct_id t \<notin> set (cp_input_tables p) \<longrightarrow>
       ct_has_key_bounds t \<and> (\<forall>key. ct_smallest_user_key t \<le> key \<and> key \<le> ct_largest_user_key t \<longrightarrow>
         \<not> key_is_in_range key (cp_key_range p)))"
proof -
  obtain seeds where g: "grown_from tables seeds p"
    using plan_compaction_grown [OF assms] by blast
  have kr: "cp_key_range p = key_range_for_inputs tables (cp_input_tables p)"
    using g by (simp add: grown_from_def)
  have outside: "ct_has_key_bounds t \<and> (\<forall>key. ct_smallest_user_key t \<le> key \<and> key \<le> ct_largest_user_key t \<longrightarrow>
      \<not> key_is_in_range key (cp_key_range p))"
    if t: "t \<in> set tables" "ct_level t = cp_output_level p" "ct_id t \<notin> set (cp_input_tables p)" for t
  proof -
    obtain s where s: "key_span_for_inputs tables (cp_input_tables p) = Some s" "\<not> overlaps_key_span t s"
      using grown_from_closed [OF g t] by blast
    then have "ct_has_key_bounds t" unfolding overlaps_key_span_def by presburger
    then show ?thesis using not_overlapping_outside [OF s] kr by simp
  qed
  show ?thesis
  proof (intro conjI ballI impI allI)
    show "cp_input_tables p \<noteq> []" by (rule grown_from_inputs(1) [OF g])
    show "set (cp_input_tables p) \<subseteq> ct_id ` {t \<in> set tables. ct_level t = cp_output_level p \<or>
      level_next (ct_level t) = Some (cp_output_level p)}" by (rule grown_from_inputs(2) [OF g])
  qed (simp_all add: outside, simp add: kr key_range_for_inputs_encloses)
qed

definition sample_compaction_tables :: "compaction_table list" where
  "sample_compaction_tables =
     map (\<lambda>(i, level, smallest, largest). \<lparr>ct_id = i, ct_level = level, ct_bytes = 1,
        ct_has_range_tombstones = False, ct_smallest_user_key = [smallest], ct_largest_user_key = [largest]\<rparr>)
       [(1, 0, 97, 100), (2, 0, 99, 102), (3, 1, 98, 101), (4, 1, 120, 122)]"

definition sample_compaction_options :: compaction_options where
  "sample_compaction_options =
     \<lparr>co_target_table_bytes = 100, co_level_size_multiplier = 10, co_local_l0_compaction = True\<rparr>"

lemma sample_plan:
  "(case plan_compaction ''default'' sample_compaction_tables (half_open [98] [99]) 7 sample_compaction_options of
      Inl e \<Rightarrow> False
    | Inr d \<Rightarrow> (case cd_plan d of None \<Rightarrow> False | Some p \<Rightarrow> cp_input_tables p = [1, 2, 3] \<and>
        cp_output_level p = 1 \<and> cp_key_range p = \<lparr>kr_start = Included [97], kr_end = Included [102]\<rparr>))"
  by code_simp


theorem plan_closed_in_output_level_witness:
  "(case plan_compaction ''default'' sample_compaction_tables (half_open [98] [99]) 7 sample_compaction_options of
      Inl e \<Rightarrow> False
    | Inr d \<Rightarrow> (case cd_plan d of None \<Rightarrow> False | Some p \<Rightarrow>
        key_is_in_range [97, 5] (cp_key_range p) \<and> \<not> key_is_in_range [121] (cp_key_range p)))"
proof -
  obtain d p where d: "plan_compaction ''default'' sample_compaction_tables (half_open [98] [99]) 7
      sample_compaction_options = Inr d" "cd_plan d = Some p" "cp_input_tables p = [1, 2, 3]" "cp_output_level p = 1"
    using sample_plan by (auto split: sum.splits option.splits)
  let ?t1 = "sample_compaction_tables ! 0" and ?t4 = "sample_compaction_tables ! 3"
  have t: "?t1 \<in> set sample_compaction_tables" "?t4 \<in> set sample_compaction_tables"
    by (simp_all add: sample_compaction_tables_def)
  note closed = plan_closed_in_output_level [OF d(1,2), THEN conjunct2, THEN conjunct2]
  have "key_is_in_range [97, 5] (cp_key_range p)"
    by (rule closed [THEN conjunct1, THEN bspec, OF t(1), THEN spec, THEN mp])
      (simp add: d(3) sample_compaction_tables_def ct_has_key_bounds_def)
  moreover have "\<not> key_is_in_range [121] (cp_key_range p)"
    by (rule closed [THEN conjunct2, THEN bspec, OF t(2), THEN mp, THEN conjunct2, THEN spec, THEN mp])
      (simp_all add: d(3,4) sample_compaction_tables_def)
  ultimately show ?thesis using d(1,2) by simp
qed

end
