(* ===== verification/Scan_Source.thy ===== *)
theory Scan_Source
  imports Memtable Table_Meta
begin

text \<open>The ordered sources of a scan (\<^verbatim>\<open>src/src/iterator.rs\<close>): selectors, groups of versions of one user
  key, and the cursor over a memtable.  The contract \<open>group_source\<close> says what a scan relies on: a
  cursor stands for a list of records still to come and hands them out one user key at a time.  The
  memtable cursor is shown to meet it in both directions; the table cursor is in \<^verbatim>\<open>Table_Cursor\<close>.

  A cursor holds the memtable it was created with.  Records that are inserted into the live memtable
  after that carry sequences above the read sequence of the scan, so the model keeps the contents of
  the moment the cursor was made.\<close>

section \<open>Selectors\<close>

datatype direction = Forward | Reverse

datatype scan_selector = RangeSelector key_range | PrefixSelector bytes

datatype forward_state = ForwardBefore | ForwardMatch | ForwardAfter

datatype reverse_state = ReverseAbove | ReverseMatch | ReverseBelow

fun forward_key_state :: "scan_selector \<Rightarrow> bytes \<Rightarrow> forward_state" where
  "forward_key_state (RangeSelector rng) key =
     (if key_is_before_start key (kr_start rng) then ForwardBefore
      else if key_is_after_end key (kr_end rng) then ForwardAfter
      else ForwardMatch)"
| "forward_key_state (PrefixSelector prefix) key =
     (if key < prefix then ForwardBefore
      else if starts_with key prefix then ForwardMatch
      else ForwardAfter)"

fun reverse_key_state :: "scan_selector \<Rightarrow> bytes \<Rightarrow> reverse_state" where
  "reverse_key_state (RangeSelector rng) key =
     (if key_is_after_end key (kr_end rng) then ReverseAbove
      else if key_is_before_start key (kr_start rng) then ReverseBelow
      else ReverseMatch)"
| "reverse_key_state (PrefixSelector prefix) key =
     (if starts_with key prefix then ReverseMatch
      else if key < prefix then ReverseBelow
      else ReverseAbove)"

fun selector_prefix :: "scan_selector \<Rightarrow> bytes option" where
  "selector_prefix (RangeSelector rng) = None"
| "selector_prefix (PrefixSelector prefix) = Some prefix"

function prefix_successor :: "bytes \<Rightarrow> bytes option" where
  "prefix_successor prefix =
     (if prefix = [] then None
      else if last prefix = - 1 then prefix_successor (butlast prefix)
      else Some (butlast prefix @ [last prefix + 1]))"
  by pat_completeness auto
termination by (relation "measure length") auto

declare prefix_successor.simps [simp del]

fun selector_query_range :: "scan_selector \<Rightarrow> key_range" where
  "selector_query_range (RangeSelector rng) = rng"
| "selector_query_range (PrefixSelector prefix) =
     \<lparr>kr_start = Included prefix,
      kr_end = (case prefix_successor prefix of None \<Rightarrow> Unbounded | Some e \<Rightarrow> Excluded e)\<rparr>"

section \<open>Groups of versions\<close>

definition compare_scan_records :: "point_record \<Rightarrow> point_record \<Rightarrow> ordering" where
  "compare_scan_records left right = cmp (fst left) (fst right)"

record record_group =
  rg_user_key :: bytes
  rg_records :: "point_record list"

definition record_group_from_records :: "bytes \<Rightarrow> point_record list \<Rightarrow> record_group" where
  "record_group_from_records key records =
     \<lparr>rg_user_key = key, rg_records = sort_by compare_scan_records records\<rparr>"

definition record_group_from_first_and_rest :: "bytes \<Rightarrow> point_record \<Rightarrow> point_record list \<Rightarrow> record_group" where
  "record_group_from_first_and_rest key first rest =
     \<lparr>rg_user_key = key, rg_records = sort_by compare_scan_records (first # rest)\<rparr>"

section \<open>The memtable cursor\<close>

record memtable_cursor =
  mc_memtable :: memtable
  mc_selector :: scan_selector
  mc_direction :: direction
  mc_lower_bound :: "internal_key bound"
  mc_upper_bound :: "internal_key bound"
  mc_exhausted :: bool

fun memtable_start_bound :: "bytes bound \<Rightarrow> internal_key bound" where
  "memtable_start_bound (Included key) = Included (first_internal_key_for_user key)"
| "memtable_start_bound (Excluded key) = Excluded (last_internal_key_for_user key)"
| "memtable_start_bound Unbounded = Unbounded"

fun memtable_end_bound :: "bytes bound \<Rightarrow> internal_key bound" where
  "memtable_end_bound (Included key) = Included (last_internal_key_for_user key)"
| "memtable_end_bound (Excluded key) = Excluded (first_internal_key_for_user key)"
| "memtable_end_bound Unbounded = Unbounded"

fun memtable_scan_bounds :: "scan_selector \<Rightarrow> internal_key bound \<times> internal_key bound" where
  "memtable_scan_bounds (RangeSelector rng) =
     (memtable_start_bound (kr_start rng), memtable_end_bound (kr_end rng))"
| "memtable_scan_bounds (PrefixSelector prefix) =
     (Included (first_internal_key_for_user prefix),
      case prefix_successor prefix of
        None \<Rightarrow> Unbounded
      | Some e \<Rightarrow> Excluded (first_internal_key_for_user e))"

text \<open>\<^verbatim>\<open>BTreeMap::range\<close>, which panics on a map with entries when the bounds are inverted.\<close>

fun bounds_inverted :: "'k::linorder bound \<Rightarrow> 'k bound \<Rightarrow> bool" where
  "bounds_inverted (Included a) (Included b) = (a > b)"
| "bounds_inverted (Included a) (Excluded b) = (a > b)"
| "bounds_inverted (Excluded a) (Included b) = (a > b)"
| "bounds_inverted (Excluded a) (Excluded b) = (a \<ge> b)"
| "bounds_inverted Unbounded hi = False"
| "bounds_inverted lo Unbounded = False"

fun above_lower :: "'k::linorder bound \<Rightarrow> 'k \<Rightarrow> bool" where
  "above_lower (Included a) k = (a \<le> k)"
| "above_lower (Excluded a) k = (a < k)"
| "above_lower Unbounded k = True"

fun below_upper :: "'k::linorder bound \<Rightarrow> 'k \<Rightarrow> bool" where
  "below_upper (Included b) k = (k \<le> b)"
| "below_upper (Excluded b) k = (k < b)"
| "below_upper Unbounded k = True"

definition btree_range :: "('k::linorder \<times> 'v) list \<Rightarrow> 'k bound \<Rightarrow> 'k bound \<Rightarrow> ('k \<times> 'v) list result" where
  "btree_range es lo hi =
     (if es \<noteq> [] \<and> bounds_inverted lo hi
      then Err (Panicked ''range start is greater than range end in BTreeMap'')
      else Ok (filter (\<lambda>e. above_lower lo (fst e) \<and> below_upper hi (fst e)) es))"

definition memtable_cursor_new :: "memtable \<Rightarrow> scan_selector \<Rightarrow> direction \<Rightarrow> memtable_cursor" where
  "memtable_cursor_new m sel dir =
     \<lparr>mc_memtable = m, mc_selector = sel, mc_direction = dir,
      mc_lower_bound = fst (memtable_scan_bounds sel), mc_upper_bound = snd (memtable_scan_bounds sel),
      mc_exhausted = False\<rparr>"

text \<open>The loop over the entries: the key of the group once one is found and its records so far.  The
  result is \<open>None\<close> when the loop leaves the selected keys.\<close>

fun collect_group_forward ::
  "scan_selector \<Rightarrow> bytes option \<Rightarrow> point_record list \<Rightarrow> point_record list \<Rightarrow>
   (bytes option \<times> point_record list) option" where
  "collect_group_forward sel key records [] = Some (key, records)"
| "collect_group_forward sel key records (e # es) =
     (case forward_key_state sel (user_key (fst e)) of
        ForwardBefore \<Rightarrow> collect_group_forward sel key records es
      | ForwardMatch \<Rightarrow>
          (let k = (case key of None \<Rightarrow> user_key (fst e) | Some k \<Rightarrow> k)
           in if user_key (fst e) = k then collect_group_forward sel (Some k) (records @ [e]) es
              else Some (Some k, records))
      | ForwardAfter \<Rightarrow> None)"

fun collect_group_reverse ::
  "scan_selector \<Rightarrow> bytes option \<Rightarrow> point_record list \<Rightarrow> point_record list \<Rightarrow>
   (bytes option \<times> point_record list) option" where
  "collect_group_reverse sel key records [] = Some (key, records)"
| "collect_group_reverse sel key records (e # es) =
     (case reverse_key_state sel (user_key (fst e)) of
        ReverseAbove \<Rightarrow> collect_group_reverse sel key records es
      | ReverseMatch \<Rightarrow>
          (let k = (case key of None \<Rightarrow> user_key (fst e) | Some k \<Rightarrow> k)
           in if user_key (fst e) = k then collect_group_reverse sel (Some k) (records @ [e]) es
              else Some (Some k, records))
      | ReverseBelow \<Rightarrow> None)"

definition memtable_next_group_forward :: "memtable_cursor \<Rightarrow> (record_group option \<times> memtable_cursor) result" where
  "memtable_next_group_forward c =
     (if mc_exhausted c then Ok (None, c)
      else
        and_then (btree_range (mt_entries (mc_memtable c)) (mc_lower_bound c) (mc_upper_bound c)) (\<lambda>es.
        case collect_group_forward (mc_selector c) None [] es of
          None \<Rightarrow> Ok (None, c\<lparr>mc_exhausted := True\<rparr>)
        | Some (None, records) \<Rightarrow> Ok (None, c\<lparr>mc_exhausted := True\<rparr>)
        | Some (Some key, records) \<Rightarrow>
            Ok (Some (record_group_from_records key records),
                c\<lparr>mc_lower_bound := Excluded (last_internal_key_for_user key)\<rparr>)))"

definition memtable_next_group_reverse :: "memtable_cursor \<Rightarrow> (record_group option \<times> memtable_cursor) result" where
  "memtable_next_group_reverse c =
     (if mc_exhausted c then Ok (None, c)
      else
        and_then (btree_range (mt_entries (mc_memtable c)) (mc_lower_bound c) (mc_upper_bound c)) (\<lambda>es.
        case collect_group_reverse (mc_selector c) None [] (rev es) of
          None \<Rightarrow> Ok (None, c\<lparr>mc_exhausted := True\<rparr>)
        | Some (None, records) \<Rightarrow> Ok (None, c\<lparr>mc_exhausted := True\<rparr>)
        | Some (Some key, records) \<Rightarrow>
            Ok (Some (record_group_from_records key records),
                c\<lparr>mc_upper_bound := Excluded (first_internal_key_for_user key)\<rparr>)))"

definition memtable_next_group :: "memtable_cursor \<Rightarrow> (record_group option \<times> memtable_cursor) result" where
  "memtable_next_group c =
     (case mc_direction c of
        Forward \<Rightarrow> memtable_next_group_forward c
      | Reverse \<Rightarrow> memtable_next_group_reverse c)"

section \<open>Selected keys\<close>

definition selects :: "scan_selector \<Rightarrow> bytes \<Rightarrow> bool" where
  "selects sel key = key_is_in_range key (selector_query_range sel)"

lemma prefix_successor_Cons:
  "prefix_successor (a # p) =
     (case prefix_successor p of
        Some e \<Rightarrow> Some (a # e)
      | None \<Rightarrow> if a = - 1 then None else Some [a + 1])"
proof (induction p rule: rev_induct)
  case Nil
  then show ?case by (simp add: prefix_successor.simps [of "[a]"] prefix_successor.simps [of "[]"])
next
  case (snoc x p)
  then show ?case
    by (simp add: prefix_successor.simps [of "a # p @ [x]"] prefix_successor.simps [of "p @ [x]"])
qed

lemma starts_with_Cons: "starts_with k (a # p) \<longleftrightarrow> (\<exists>k'. k = a # k' \<and> starts_with k' p)"
  by (cases k) (auto simp: starts_with_def)

lemma byte_less_max: "(b :: byte) \<noteq> - 1 \<Longrightarrow> a < b + 1 \<longleftrightarrow> a \<le> b"
proof -
  assume "b \<noteq> - 1"
  then have "1 + b \<noteq> 0" by (metis add.commute eq_neg_iff_add_eq_0)
  then have "unat (b + 1) = Suc (unat b)" by (metis add.commute unatSuc)
  then show ?thesis by (simp add: word_less_nat_alt word_le_nat_alt less_Suc_eq_le)
qed

lemma starts_with_range:
  "starts_with k p \<longleftrightarrow> p \<le> k \<and> (case prefix_successor p of None \<Rightarrow> True | Some e \<Rightarrow> k < e)"
proof (induction p arbitrary: k)
  case Nil
  then show ?case by (simp add: prefix_successor.simps starts_with_def)
next
  case (Cons a p)
  show ?case
  proof (cases k)
    case Nil
    then show ?thesis by (simp add: starts_with_Cons)
  next
    case k: (Cons b k')
    have "b < a + 1 \<longleftrightarrow> b \<le> a" if "a \<noteq> - 1" using byte_less_max [OF that] .
    moreover have "b \<le> - 1" by simp
    ultimately show ?thesis
      unfolding k starts_with_Cons prefix_successor_Cons using Cons.IH [of k']
      by (auto split: option.splits)
  qed
qed

lemma forward_match [simp]: "forward_key_state sel k = ForwardMatch \<longleftrightarrow> selects sel k"
  by (cases sel) (auto simp: selects_def key_is_in_range_def starts_with_range not_le split: option.splits)

lemma reverse_match [simp]: "reverse_key_state sel k = ReverseMatch \<longleftrightarrow> selects sel k"
  by (cases sel) (auto simp: selects_def key_is_in_range_def starts_with_range not_le split: option.splits)

lemma starts_with_le: "starts_with k p \<Longrightarrow> p \<le> k"
  by (simp add: starts_with_range)

lemma after_stays_after:
  assumes "forward_key_state sel k = ForwardAfter" "k \<le> k'"
  shows "\<not> selects sel k'"
proof (cases sel)
  case (RangeSelector rng)
  then have "key_is_after_end k (kr_end rng)" using assms(1) by (simp split: if_splits)
  then have "key_is_after_end k' (kr_end rng)" using assms(2) by (cases "kr_end rng") auto
  then show ?thesis using RangeSelector by (simp add: selects_def key_is_in_range_def)
next
  case (PrefixSelector p)
  then have p: "p \<le> k" "\<not> starts_with k p" using assms(1) by (auto split: if_splits)
  then obtain e where "prefix_successor p = Some e" "e \<le> k" by (auto simp: starts_with_range split: option.splits)
  then show ?thesis using PrefixSelector assms(2) by (auto simp: selects_def key_is_in_range_def)
qed

lemma below_stays_below:
  assumes "reverse_key_state sel k = ReverseBelow" "k' \<le> k"
  shows "\<not> selects sel k'"
proof (cases sel)
  case (RangeSelector rng)
  then have "key_is_before_start k (kr_start rng)" using assms(1) by (simp split: if_splits)
  then have "key_is_before_start k' (kr_start rng)" using assms(2) by (cases "kr_start rng") auto
  then show ?thesis using RangeSelector by (simp add: selects_def key_is_in_range_def)
next
  case (PrefixSelector p)
  then have "k < p" using assms(1) by (auto split: if_splits)
  then show ?thesis using PrefixSelector assms(2) by (auto simp: selects_def key_is_in_range_def)
qed

section \<open>Streams of groups\<close>

fun key_before :: "direction \<Rightarrow> bytes \<Rightarrow> bytes \<Rightarrow> bool" where
  "key_before Forward a b = (a < b)"
| "key_before Reverse a b = (b < a)"

definition same_key :: "point_record \<Rightarrow> point_record \<Rightarrow> bool" where
  "same_key r x \<longleftrightarrow> user_key (fst x) = user_key (fst r)"

definition key_ordered :: "direction \<Rightarrow> point_record list \<Rightarrow> bool" where
  "key_ordered dir = sorted_wrt (\<lambda>a b. same_key a b \<or> key_before dir (user_key (fst a)) (user_key (fst b)))"

definition ordered_groups :: "direction \<Rightarrow> record_group list \<Rightarrow> bool" where
  "ordered_groups dir gs \<longleftrightarrow>
     sorted_wrt (\<lambda>a b. key_before dir (rg_user_key a) (rg_user_key b)) gs \<and>
     (\<forall>g\<in>set gs. rg_records g \<noteq> [] \<and> (\<forall>r\<in>set (rg_records g). user_key (fst r) = rg_user_key g))"

text \<open>The groups of a list of records that is ordered by user key.\<close>

function groups :: "point_record list \<Rightarrow> record_group list" where
  "groups [] = []"
| "groups (r # rs) =
     record_group_from_records (user_key (fst r)) (r # takeWhile (same_key r) rs) #
     groups (dropWhile (same_key r) rs)"
  by pat_completeness auto
termination by (relation "measure length") (auto simp: length_dropWhile_le less_Suc_eq_le)

definition groups_records :: "record_group list \<Rightarrow> point_record set" where
  "groups_records gs = (\<Union>g\<in>set gs. set (rg_records g))"

lemma groups_records_simps [simp]:
  "groups_records [] = {}" "groups_records (g # gs) = set (rg_records g) \<union> groups_records gs"
  "groups_records (gs @ hs) = groups_records gs \<union> groups_records hs"
  by (auto simp: groups_records_def)

lemma groups_records_groups [simp]: "groups_records (groups rs) = set rs"
proof (induction rs rule: groups.induct)
  case (2 r rs)
  have "set rs = set (takeWhile (same_key r) rs) \<union> set (dropWhile (same_key r) rs)"
    by (metis set_append takeWhile_dropWhile_id)
  then show ?case using 2 by (simp add: record_group_from_records_def)
qed simp

lemma groups_eq_Nil [simp]: "groups rs = [] \<longleftrightarrow> rs = []"
  by (cases rs) auto

lemma key_before_trans: "key_before dir a b \<Longrightarrow> key_before dir b c \<Longrightarrow> key_before dir a c"
  by (cases dir) auto

lemma key_ordered_dropWhile: "key_ordered dir (r # rs) \<Longrightarrow> key_ordered dir (dropWhile P rs)"
  unfolding key_ordered_def by (simp add: dropWhile_eq_drop sorted_wrt_drop)

lemma dropWhile_after:
  assumes "key_ordered dir (r # rs)" "x \<in> set (dropWhile (same_key r) rs)"
  shows "key_before dir (user_key (fst r)) (user_key (fst x))"
proof -
  let ?ds = "dropWhile (same_key r) rs"
  obtain d ds where ds: "?ds = d # ds" using assms(2) by (cases ?ds) auto
  have "\<not> same_key r d" using ds hd_dropWhile [of "same_key r" rs] by auto
  moreover have "d \<in> set rs" using ds by (metis list.set_intros(1) set_dropWhileD)
  ultimately have rd: "key_before dir (user_key (fst r)) (user_key (fst d))"
    using assms(1) by (auto simp: key_ordered_def)
  have "key_ordered dir (d # ds)"
    using key_ordered_dropWhile [OF assms(1), of "same_key r"] unfolding ds .
  then have "x = d \<or> same_key d x \<or> key_before dir (user_key (fst d)) (user_key (fst x))"
    using assms(2) ds by (auto simp: key_ordered_def)
  then show ?thesis using rd key_before_trans by (auto simp: same_key_def)
qed

lemma groups_keys: "rg_user_key ` set (groups rs) = (\<lambda>r. user_key (fst r)) ` set rs"
proof (induction rs rule: groups.induct)
  case (2 r rs)
  have "set rs = set (takeWhile (same_key r) rs) \<union> set (dropWhile (same_key r) rs)"
    by (metis set_append takeWhile_dropWhile_id)
  moreover have "\<forall>x\<in>set (takeWhile (same_key r) rs). user_key (fst x) = user_key (fst r)"
    by (auto dest: set_takeWhileD simp: same_key_def)
  ultimately show ?case using 2 by (auto simp: record_group_from_records_def)
qed simp

lemma sort_by_eq_Nil [simp]: "sort_by c xs = [] \<longleftrightarrow> xs = []"
  by (metis length_0_conv length_sort_by)

lemma ordered_groups_groups: "key_ordered dir rs \<Longrightarrow> ordered_groups dir (groups rs)"
proof (induction rs rule: groups.induct)
  case (2 r rs)
  let ?ds = "dropWhile (same_key r) rs"
  have IH: "ordered_groups dir (groups ?ds)" by (rule 2(1) [OF key_ordered_dropWhile [OF 2(2)]])
  have "key_before dir (user_key (fst r)) (rg_user_key g)" if "g \<in> set (groups ?ds)" for g
  proof -
    have "rg_user_key g \<in> (\<lambda>r. user_key (fst r)) ` set ?ds"
      using that groups_keys [of ?ds] by blast
    then show ?thesis using dropWhile_after [OF 2(2)] by auto
  qed
  moreover have "\<forall>x\<in>set (takeWhile (same_key r) rs). user_key (fst x) = user_key (fst r)"
    by (auto dest: set_takeWhileD simp: same_key_def)
  ultimately show ?case
    using IH unfolding ordered_groups_def groups.simps by (simp add: record_group_from_records_def)
qed (simp add: ordered_groups_def)

lemma filter_after_run:
  assumes "key_ordered dir (r # rs)"
  shows "filter (\<lambda>x. key_before dir (user_key (fst r)) (user_key (fst x))) (r # rs) = dropWhile (same_key r) rs"
proof -
  let ?P = "\<lambda>x. key_before dir (user_key (fst r)) (user_key (fst x))"
  have irrefl: "\<not> key_before dir k k" for k by (cases dir) auto
  have "filter ?P (takeWhile (same_key r) rs) = []"
    using irrefl by (auto simp: filter_empty_conv same_key_def dest!: set_takeWhileD)
  moreover have "filter ?P (dropWhile (same_key r) rs) = dropWhile (same_key r) rs"
    using dropWhile_after [OF assms] by (simp add: filter_id_conv)
  ultimately have "filter ?P (takeWhile (same_key r) rs @ dropWhile (same_key r) rs) = dropWhile (same_key r) rs"
    unfolding filter_append by simp
  then show ?thesis using irrefl by simp
qed

text \<open>A source of groups: what is still to come, in the direction of the scan, and the operation that
  takes the first group of it.\<close>

locale group_source =
  fixes ok :: "'c \<Rightarrow> bool"
    and source_direction :: "'c \<Rightarrow> direction"
    and pending :: "'c \<Rightarrow> record_group list"
    and next_group :: "'c \<Rightarrow> (record_group option \<times> 'c) result"
  assumes next_group_none:
      "ok c \<Longrightarrow> pending c = [] \<Longrightarrow>
       \<exists>c'. next_group c = Inr (None, c') \<and> ok c' \<and> pending c' = [] \<and> source_direction c' = source_direction c"
    and next_group_some:
      "ok c \<Longrightarrow> pending c = g # gs \<Longrightarrow>
       \<exists>c'. next_group c = Inr (Some g, c') \<and> ok c' \<and> pending c' = gs \<and> source_direction c' = source_direction c"
    and pending_ordered: "ok c \<Longrightarrow> ordered_groups (source_direction c) (pending c)"
begin

text \<open>Taking groups until none is left returns all that are pending, in order.\<close>

lemma next_group_total: "ok c \<Longrightarrow> \<exists>g c'. next_group c = Inr (g, c') \<and> ok c'"
  using next_group_none next_group_some by (cases "pending c") blast+

end

section \<open>The memtable cursor is a source of groups\<close>

lemma first_internal_key_le_iff: "first_internal_key_for_user k \<le> ik \<longleftrightarrow> k \<le> user_key ik"
proof
  assume "first_internal_key_for_user k \<le> ik"
  then show "k \<le> user_key ik" using less_eq_internal_key_user_key by fastforce
next
  assume "k \<le> user_key ik"
  then show "first_internal_key_for_user k \<le> ik"
    using first_internal_key_le [of ik] user_key_less_internal_key [of "first_internal_key_for_user k" ik]
    by (auto simp: order_le_less)
qed

lemma last_internal_key_ge_iff: "ik \<le> last_internal_key_for_user k \<longleftrightarrow> user_key ik \<le> k"
proof
  assume "ik \<le> last_internal_key_for_user k"
  then show "user_key ik \<le> k" using less_eq_internal_key_user_key by fastforce
next
  assume "user_key ik \<le> k"
  then show "ik \<le> last_internal_key_for_user k"
    using last_internal_key_ge [of ik] user_key_less_internal_key [of ik "last_internal_key_for_user k"]
    by (auto simp: order_le_less)
qed

lemma above_memtable_start:
  "above_lower (memtable_start_bound b) ik \<longleftrightarrow> \<not> key_is_before_start (user_key ik) b"
  by (cases b) (simp_all add: first_internal_key_le_iff last_internal_key_ge_iff not_less flip: not_le)

lemma below_memtable_end:
  "below_upper (memtable_end_bound b) ik \<longleftrightarrow> \<not> key_is_after_end (user_key ik) b"
  by (cases b) (simp_all add: first_internal_key_le_iff last_internal_key_ge_iff not_less flip: not_le)

lemma memtable_bounds_inverted:
  "bounds_inverted (memtable_start_bound a) (memtable_end_bound b) \<longleftrightarrow> bounds_inverted a b"
  by (cases a; cases b) (simp_all add: first_internal_key_le_iff last_internal_key_ge_iff flip: not_le)

text \<open>The bounds of a cursor are those of a range of user keys, all of them selected.\<close>

definition mc_range :: "memtable_cursor \<Rightarrow> key_range \<Rightarrow> bool" where
  "mc_range c rng \<longleftrightarrow>
     mc_lower_bound c = memtable_start_bound (kr_start rng) \<and>
     mc_upper_bound c = memtable_end_bound (kr_end rng) \<and>
     \<not> bounds_inverted (kr_start rng) (kr_end rng) \<and>
     (\<forall>key. key_is_in_range key rng \<longrightarrow> selects (mc_selector c) key)"

definition mc_ok :: "memtable_cursor \<Rightarrow> bool" where
  "mc_ok c \<longleftrightarrow> btree_ok (mt_entries (mc_memtable c)) \<and> (\<exists>rng. mc_range c rng)"

fun in_direction :: "direction \<Rightarrow> 'a list \<Rightarrow> 'a list" where
  "in_direction Forward xs = xs"
| "in_direction Reverse xs = rev xs"

definition mc_records :: "memtable_cursor \<Rightarrow> point_record list" where
  "mc_records c = in_direction (mc_direction c)
     (filter (\<lambda>e. above_lower (mc_lower_bound c) (fst e) \<and> below_upper (mc_upper_bound c) (fst e))
       (mt_entries (mc_memtable c)))"

definition mc_pending :: "memtable_cursor \<Rightarrow> record_group list" where
  "mc_pending c = (if mc_exhausted c then [] else groups (mc_records c))"

lemma mc_records_range:
  "mc_range c rng \<Longrightarrow>
   mc_records c = in_direction (mc_direction c)
     (filter (\<lambda>e. key_is_in_range (user_key (fst e)) rng) (mt_entries (mc_memtable c)))"
  by (simp add: mc_records_def mc_range_def above_memtable_start below_memtable_end key_is_in_range_def)

lemma filter_in_direction: "filter P (in_direction dir xs) = in_direction dir (filter P xs)"
  by (cases dir) (simp_all add: rev_filter)

lemma set_in_direction [simp]: "set (in_direction dir xs) = set xs"
  by (cases dir) simp_all

lemma btree_ok_key_ordered:
  assumes "btree_ok (es :: point_record list)"
  shows "key_ordered dir (in_direction dir (filter P es))"
proof -
  have "sorted_wrt (\<lambda>a b. fst a < fst b) es"
    using assms by (simp add: btree_ok_def sorted_wrt_map)
  then have "sorted_wrt (\<lambda>a b. fst a < fst b) (filter P es)" by (rule sorted_wrt_filter)
  then have le: "sorted_wrt (\<lambda>a b. user_key (fst a) \<le> user_key (fst b)) (filter P es)"
    by (rule sorted_wrt_mono_rel [rotated]) (rule less_internal_key_user_key)
  show ?thesis
    using le by (cases dir) (auto simp: key_ordered_def same_key_def sorted_wrt_rev elim!: sorted_wrt_mono_rel [rotated])
qed

lemma mc_records_ordered: "mc_ok c \<Longrightarrow> key_ordered (mc_direction c) (mc_records c)"
  unfolding mc_ok_def mc_records_def using btree_ok_key_ordered by blast

lemma forward_match_cases:
  "selects sel k \<Longrightarrow> (case forward_key_state sel k of ForwardBefore \<Rightarrow> a | ForwardMatch \<Rightarrow> b | ForwardAfter \<Rightarrow> c) = b"
  by (metis forward_match forward_state.simps(8))

lemma reverse_match_cases:
  "selects sel k \<Longrightarrow> (case reverse_key_state sel k of ReverseAbove \<Rightarrow> a | ReverseMatch \<Rightarrow> b | ReverseBelow \<Rightarrow> c) = b"
  by (metis reverse_match reverse_state.simps(8))

lemma collect_group_forward_run:
  "\<forall>e\<in>set es. selects sel (user_key (fst e)) \<Longrightarrow>
   collect_group_forward sel (Some k) records es =
   Some (Some k, records @ takeWhile (\<lambda>x. user_key (fst x) = k) es)"
  by (induction es arbitrary: records) (auto simp: forward_match_cases)

lemma collect_group_reverse_run:
  "\<forall>e\<in>set es. selects sel (user_key (fst e)) \<Longrightarrow>
   collect_group_reverse sel (Some k) records es =
   Some (Some k, records @ takeWhile (\<lambda>x. user_key (fst x) = k) es)"
  by (induction es arbitrary: records) (auto simp: reverse_match_cases)

lemma collect_group_first:
  assumes "\<forall>e\<in>set (r # rs). selects sel (user_key (fst e))"
  shows "collect_group_forward sel None [] (r # rs) = Some (Some (user_key (fst r)), r # takeWhile (same_key r) rs)"
    "collect_group_reverse sel None [] (r # rs) = Some (Some (user_key (fst r)), r # takeWhile (same_key r) rs)"
  using assms
  by (simp_all add: forward_match_cases reverse_match_cases collect_group_forward_run collect_group_reverse_run
      same_key_def [abs_def] Let_def)

definition advance_bound :: "memtable_cursor \<Rightarrow> bytes \<Rightarrow> memtable_cursor" where
  "advance_bound c key =
     (case mc_direction c of
        Forward \<Rightarrow> c\<lparr>mc_lower_bound := Excluded (last_internal_key_for_user key)\<rparr>
      | Reverse \<Rightarrow> c\<lparr>mc_upper_bound := Excluded (first_internal_key_for_user key)\<rparr>)"

lemma advance_bound_range:
  assumes "mc_range c rng" "key_is_in_range key rng"
  shows "\<exists>rng'. mc_range (advance_bound c key) rng' \<and>
    (\<forall>k. key_is_in_range k rng' \<longleftrightarrow> key_is_in_range k rng \<and> key_before (mc_direction c) key k)"
proof (cases "mc_direction c")
  case Forward
  have s: "key_is_before_start k (kr_start rng) \<longrightarrow> k \<le> key" "key < k \<longrightarrow> \<not> key_is_before_start k (kr_start rng)" for k
    using assms(2) by (cases "kr_start rng"; auto simp: key_is_in_range_def)+
  have "\<not> bounds_inverted (Excluded key) (kr_end rng)"
    using assms(2) by (cases "kr_end rng") (auto simp: key_is_in_range_def)
  then show ?thesis
    using assms Forward s
    by (intro exI [of _ "rng\<lparr>kr_start := Excluded key\<rparr>"])
      (auto simp: mc_range_def advance_bound_def key_is_in_range_def not_le)
next
  case Reverse
  have s: "k < key \<longrightarrow> \<not> key_is_after_end k (kr_end rng)" for k
    using assms(2) by (cases "kr_end rng") (auto simp: key_is_in_range_def)
  have "\<not> bounds_inverted (kr_start rng) (Excluded key)"
    using assms(2) by (cases "kr_start rng") (auto simp: key_is_in_range_def)
  then show ?thesis
    using assms Reverse s
    by (intro exI [of _ "rng\<lparr>kr_end := Excluded key\<rparr>"])
      (auto simp: mc_range_def advance_bound_def key_is_in_range_def not_le)
qed

lemma advance_bound_fields [simp]:
  "mc_memtable (advance_bound c key) = mc_memtable c" "mc_direction (advance_bound c key) = mc_direction c"
  "mc_selector (advance_bound c key) = mc_selector c" "mc_exhausted (advance_bound c key) = mc_exhausted c"
  by (cases "mc_direction c"; simp add: advance_bound_def)+

lemma mc_records_selected: "mc_ok c \<Longrightarrow> r \<in> set (mc_records c) \<Longrightarrow> selects (mc_selector c) (user_key (fst r))"
  unfolding mc_ok_def by (auto simp: mc_records_range) (auto simp: mc_range_def)

lemma advance_bound_records:
  assumes "mc_ok c" "mc_records c = r # rs"
  shows "mc_ok (advance_bound c (user_key (fst r)))"
    "mc_records (advance_bound c (user_key (fst r))) = dropWhile (same_key r) rs"
proof -
  let ?k = "user_key (fst r)"
  obtain rng where rng: "mc_range c rng" "btree_ok (mt_entries (mc_memtable c))"
    using assms(1) unfolding mc_ok_def by blast
  have "r \<in> set (mc_records c)" using assms(2) by simp
  then have in_rng: "key_is_in_range ?k rng" using mc_records_range [OF rng(1)] by simp
  obtain rng' where rng': "mc_range (advance_bound c ?k) rng'"
    "\<forall>k. key_is_in_range k rng' \<longleftrightarrow> key_is_in_range k rng \<and> key_before (mc_direction c) ?k k"
    using advance_bound_range [OF rng(1) in_rng] by blast
  show "mc_ok (advance_bound c ?k)" using rng(2) rng'(1) unfolding mc_ok_def by auto
  have "mc_records (advance_bound c ?k) =
      filter (\<lambda>x. key_before (mc_direction c) ?k (user_key (fst x))) (mc_records c)"
    unfolding mc_records_range [OF rng(1)] mc_records_range [OF rng'(1)] filter_in_direction
    using rng'(2) by (simp add: conj_commute)
  also have "\<dots> = dropWhile (same_key r) rs"
    unfolding assms(2) by (rule filter_after_run) (use mc_records_ordered [OF assms(1)] assms(2) in simp)
  finally show "mc_records (advance_bound c ?k) = dropWhile (same_key r) rs" .
qed

lemma memtable_next_group_eq:
  assumes "mc_ok c" "\<not> mc_exhausted c"
  shows "memtable_next_group c =
    Inr (case mc_records c of
           [] \<Rightarrow> (None, c\<lparr>mc_exhausted := True\<rparr>)
         | r # rs \<Rightarrow> (Some (record_group_from_records (user_key (fst r)) (r # takeWhile (same_key r) rs)),
                     advance_bound c (user_key (fst r))))"
proof -
  let ?es = "filter (\<lambda>e. above_lower (mc_lower_bound c) (fst e) \<and> below_upper (mc_upper_bound c) (fst e))
    (mt_entries (mc_memtable c))"
  have range: "btree_range (mt_entries (mc_memtable c)) (mc_lower_bound c) (mc_upper_bound c) = Inr ?es"
    using assms(1) unfolding mc_ok_def mc_range_def btree_range_def by (auto simp: memtable_bounds_inverted)
  have sel: "\<forall>e\<in>set (mc_records c). selects (mc_selector c) (user_key (fst e))"
    using mc_records_selected [OF assms(1)] by blast
  show ?thesis
  proof (cases "mc_direction c")
    case Forward
    then have "?es = mc_records c" by (simp add: mc_records_def)
    then show ?thesis
      using Forward assms(2) range sel collect_group_first(1)
      by (cases "mc_records c") (simp_all add: memtable_next_group_def memtable_next_group_forward_def advance_bound_def)
  next
    case Reverse
    then have "rev ?es = mc_records c" by (simp add: mc_records_def)
    then show ?thesis
      using Reverse assms(2) range sel collect_group_first(2)
      by (cases "mc_records c") (simp_all add: memtable_next_group_def memtable_next_group_reverse_def advance_bound_def)
  qed
qed

interpretation mcur: group_source mc_ok mc_direction mc_pending memtable_next_group
proof
  fix c assume ok: "mc_ok c" and none: "mc_pending c = []"
  show "\<exists>c'. memtable_next_group c = Inr (None, c') \<and> mc_ok c' \<and> mc_pending c' = [] \<and> mc_direction c' = mc_direction c"
  proof (cases "mc_exhausted c")
    case True
    then show ?thesis
      using ok none by (cases "mc_direction c")
        (simp_all add: memtable_next_group_def memtable_next_group_forward_def memtable_next_group_reverse_def)
  next
    case False
    then have "mc_records c = []" using none by (simp add: mc_pending_def)
    moreover have "mc_ok (c\<lparr>mc_exhausted := True\<rparr>)" using ok by (simp add: mc_ok_def mc_range_def)
    ultimately show ?thesis using memtable_next_group_eq [OF ok False] by (simp add: mc_pending_def)
  qed
next
  fix c g gs assume ok: "mc_ok c" and some: "mc_pending c = g # gs"
  then have ex: "\<not> mc_exhausted c" by (auto simp: mc_pending_def)
  then obtain r rs where r: "mc_records c = r # rs" using some by (cases "mc_records c") (auto simp: mc_pending_def)
  show "\<exists>c'. memtable_next_group c = Inr (Some g, c') \<and> mc_ok c' \<and> mc_pending c' = gs \<and> mc_direction c' = mc_direction c"
    using memtable_next_group_eq [OF ok ex] some ex r advance_bound_records [OF ok r]
    by (auto simp: mc_pending_def)
next
  fix c assume "mc_ok c"
  then show "ordered_groups (mc_direction c) (mc_pending c)"
    using ordered_groups_groups [OF mc_records_ordered, of c] by (simp add: mc_pending_def ordered_groups_def)
qed

lemma memtable_scan_bounds_eq:
  "memtable_scan_bounds sel =
     (memtable_start_bound (kr_start (selector_query_range sel)),
      memtable_end_bound (kr_end (selector_query_range sel)))"
  by (cases sel) (simp_all split: option.split)

lemma memtable_cursor_new_ok:
  assumes "memtable_ok m" "\<not> bounds_inverted (kr_start (selector_query_range sel)) (kr_end (selector_query_range sel))"
  shows "mc_ok (memtable_cursor_new m sel dir)"
    "mc_pending (memtable_cursor_new m sel dir) =
       groups (in_direction dir (filter (\<lambda>e. selects sel (user_key (fst e))) (mt_entries m)))"
proof -
  have "mc_range (memtable_cursor_new m sel dir) (selector_query_range sel)"
    using assms(2) by (simp add: mc_range_def memtable_cursor_new_def memtable_scan_bounds_eq selects_def)
  then show "mc_ok (memtable_cursor_new m sel dir)"
    "mc_pending (memtable_cursor_new m sel dir) =
       groups (in_direction dir (filter (\<lambda>e. selects sel (user_key (fst e))) (mt_entries m)))"
    using assms(1) unfolding mc_ok_def mc_pending_def
    by (auto simp: mc_records_range memtable_ok_def memtable_cursor_new_def selects_def)
qed

end
