(* ===== verification/Table_Cursor.thy ===== *)
theory Table_Cursor
  imports Scan_Source Table_Build
begin

text \<open>The ordered cursor over the point records of a table (\<^verbatim>\<open>src/src/table/cursor.rs\<close>,
  \<^verbatim>\<open>TablePointCursor\<close>), which scans and compactions read tables with.  The flags that only feed the
  filter statistics (\<^verbatim>\<open>current_block_had_prefix_filter\<close>, \<^verbatim>\<open>current_block_matched_selector\<close>) and the block
  cache are left out; the asynchronous operations follow the same steps.

  The loops are total functions: a step either advances inside the current block or leaves it.  The
  cursor is shown to be a source of groups.  In reverse direction it delivers exactly the selected
  records of the table.  In forward direction it enters each block at a restart point and delivers
  every selected record except, possibly, versions of the key it seeks.\<close>

section \<open>Where a cursor starts\<close>

definition first_block_candidate :: "table \<Rightarrow> index_search_policy \<Rightarrow> (bytes \<Rightarrow> bool) \<Rightarrow> usize option" where
  "first_block_candidate t policy before =
     (case data_blocks t of
        Some blocks \<Rightarrow>
          (let index = partition_point_by (length blocks) policy
                 (\<lambda>i. before (user_key (largest_internal_key (blocks ! i))))
           in if index < length blocks then Some index else None)
      | None \<Rightarrow>
          (let partition_index = partition_point_by (length (index_partitions t)) policy
                 (\<lambda>i. before (user_key (ip_largest_internal_key (index_partitions t ! i))))
           in map_option first_data_block_index (nth_opt (index_partitions t) partition_index)))"

definition first_block_candidate_for_key :: "table \<Rightarrow> bytes \<Rightarrow> index_search_policy \<Rightarrow> usize option" where
  "first_block_candidate_for_key t key policy = first_block_candidate t policy (\<lambda>largest. largest < key)"

definition first_block_candidate_for_range :: "table \<Rightarrow> key_range \<Rightarrow> index_search_policy \<Rightarrow> usize option" where
  "first_block_candidate_for_range t rng policy =
     first_block_candidate t policy (\<lambda>largest. key_is_before_start largest (kr_start rng))"

definition checked_sub_usize :: "usize \<Rightarrow> usize \<Rightarrow> usize option" where
  "checked_sub_usize x y = (if y \<le> x then Some (x - y) else None)"

definition last_block_candidate_for_range :: "table \<Rightarrow> key_range \<Rightarrow> index_search_policy \<Rightarrow> usize option" where
  "last_block_candidate_for_range t rng policy =
     (case data_blocks t of
        Some blocks \<Rightarrow>
          checked_sub_usize (partition_point_by (length blocks) policy
            (\<lambda>i. \<not> key_is_after_end (user_key (smallest_internal_key (blocks ! i))) (kr_end rng))) 1
      | None \<Rightarrow>
          (let upper = partition_point_by (length (index_partitions t)) policy
                 (\<lambda>i. \<not> key_is_after_end (user_key (ip_smallest_internal_key (index_partitions t ! i))) (kr_end rng))
           in Option.bind (checked_sub_usize upper 1) (\<lambda>partition_index.
              let part = index_partitions t ! partition_index
              in Option.bind (checked_add_usize (first_data_block_index part) (ip_data_block_count part)) (\<lambda>e.
                 checked_sub_usize e 1))))"

fun first_block_for_selector :: "table \<Rightarrow> scan_selector \<Rightarrow> index_search_policy \<Rightarrow> usize option" where
  "first_block_for_selector t (RangeSelector rng) policy = first_block_candidate_for_range t rng policy"
| "first_block_for_selector t (PrefixSelector prefix) policy = first_block_candidate_for_key t prefix policy"

fun last_block_for_selector :: "table \<Rightarrow> scan_selector \<Rightarrow> index_search_policy \<Rightarrow> usize option" where
  "last_block_for_selector t (RangeSelector rng) policy = last_block_candidate_for_range t rng policy"
| "last_block_for_selector t (PrefixSelector prefix) policy =
     (let e = (case prefix_successor prefix of None \<Rightarrow> Unbounded | Some e \<Rightarrow> Excluded e);
          rng = \<lparr>kr_start = Included prefix, kr_end = e\<rparr>
      in last_block_candidate_for_range t rng policy)"

fun first_record_index_for_decoded_block ::
  "decoded_data_block \<Rightarrow> scan_selector \<Rightarrow> index_search_policy \<Rightarrow> usize result" where
  "first_record_index_for_decoded_block b (RangeSelector rng) policy =
     data_block_restart_index_for_bound b (kr_start rng) policy"
| "first_record_index_for_decoded_block b (PrefixSelector prefix) policy =
     data_block_restart_index_for_key b prefix policy"

section \<open>The cursor\<close>

record table_point_cursor =
  tc_table :: table
  tc_selector :: scan_selector
  tc_prefix_extractor :: prefix_extractor
  tc_direction :: direction
  tc_policy :: index_search_policy
  tc_block_index :: "usize option"
  tc_record_index :: usize
  tc_current_block :: "(usize \<times> decoded_data_block) option"
  tc_pending :: "point_record option"
  tc_exhausted :: bool

definition point_cursor ::
  "table \<Rightarrow> scan_selector \<Rightarrow> prefix_extractor \<Rightarrow> direction \<Rightarrow> index_search_policy \<Rightarrow> table_point_cursor" where
  "point_cursor t sel extractor dir policy =
     \<lparr>tc_table = t, tc_selector = sel, tc_prefix_extractor = extractor, tc_direction = dir,
      tc_policy = policy,
      tc_block_index =
        (case dir of
           Forward \<Rightarrow> first_block_for_selector t sel policy
         | Reverse \<Rightarrow> last_block_for_selector t sel policy),
      tc_record_index = 0, tc_current_block = None, tc_pending = None, tc_exhausted = False\<rparr>"

datatype cursor_block_state = CursorScan | CursorSkip | CursorDone

definition current_block_is :: "table_point_cursor \<Rightarrow> usize \<Rightarrow> bool" where
  "current_block_is c block_index =
     (case tc_current_block c of None \<Rightarrow> False | Some (current_index, b) \<Rightarrow> current_index = block_index)"

definition prefix_block_state :: "table_point_cursor \<Rightarrow> usize \<Rightarrow> table_data_block \<Rightarrow> bytes \<Rightarrow> cursor_block_state" where
  "prefix_block_state c block_index b prefix =
     (if current_block_is c block_index then CursorScan
      else if fst (block_prefix_filter_allows b prefix (tc_prefix_extractor c)) then CursorScan
      else CursorSkip)"

definition forward_block_state :: "table_point_cursor \<Rightarrow> usize \<Rightarrow> cursor_block_state result" where
  "forward_block_state c block_index =
     and_then (with_data_block_metadata (tc_table c) block_index) (\<lambda>b.
     Ok (case tc_selector c of
       RangeSelector rng \<Rightarrow>
         if key_is_after_end (user_key (smallest_internal_key b)) (kr_end rng) then CursorDone
         else if overlaps_range b rng then CursorScan
         else CursorSkip
     | PrefixSelector prefix \<Rightarrow>
         if \<not> prefix_bounds_may_overlap b prefix
         then (if user_key (largest_internal_key b) < prefix then CursorSkip else CursorDone)
         else prefix_block_state c block_index b prefix))"

definition reverse_block_state :: "table_point_cursor \<Rightarrow> usize \<Rightarrow> cursor_block_state result" where
  "reverse_block_state c block_index =
     and_then (with_data_block_metadata (tc_table c) block_index) (\<lambda>b.
     Ok (case tc_selector c of
       RangeSelector rng \<Rightarrow>
         if key_is_before_start (user_key (largest_internal_key b)) (kr_start rng) then CursorDone
         else if overlaps_range b rng then CursorScan
         else CursorSkip
     | PrefixSelector prefix \<Rightarrow>
         if user_key (largest_internal_key b) < prefix then CursorDone
         else if \<not> prefix_bounds_may_overlap b prefix then CursorSkip
         else prefix_block_state c block_index b prefix))"

definition move_to_next_block :: "table_point_cursor \<Rightarrow> table_point_cursor" where
  "move_to_next_block c =
     (case tc_block_index c of
        None \<Rightarrow> c\<lparr>tc_exhausted := True\<rparr>
      | Some i \<Rightarrow>
          c\<lparr>tc_block_index := (if i + 1 < data_block_count (tc_table c) then Some (i + 1) else None),
            tc_record_index := 0, tc_current_block := None\<rparr>)"

definition move_to_previous_block :: "table_point_cursor \<Rightarrow> table_point_cursor" where
  "move_to_previous_block c =
     (case tc_block_index c of
        None \<Rightarrow> c\<lparr>tc_exhausted := True\<rparr>
      | Some i \<Rightarrow>
          c\<lparr>tc_block_index := checked_sub_usize i 1, tc_record_index := 0, tc_current_block := None\<rparr>)"

definition ensure_current_block :: "table_point_cursor \<Rightarrow> usize \<Rightarrow> table_point_cursor result" where
  "ensure_current_block c block_index =
     (if current_block_is c block_index then Ok c
      else
        and_then (load_data_block (tc_table c) block_index) (\<lambda>b.
        and_then (case tc_direction c of
            Forward \<Rightarrow> first_record_index_for_decoded_block b (tc_selector c) (tc_policy c)
          | Reverse \<Rightarrow> Ok (length (db_records b))) (\<lambda>record_index.
        Ok (c\<lparr>tc_record_index := record_index, tc_current_block := Some (block_index, b)\<rparr>))))"

section \<open>Records\<close>

text \<open>The inner loops over the records of the current block: a selected record and the index to go on
  with, the first record beyond the selected keys, or the end of the block.\<close>

datatype record_scan = ScanFound point_record usize | ScanPast usize | ScanEnd

fun scan_records_forward :: "scan_selector \<Rightarrow> decoded_data_block \<Rightarrow> usize list \<Rightarrow> record_scan result" where
  "scan_records_forward sel b [] = Ok ScanEnd"
| "scan_records_forward sel b (i # is) =
     and_then (record_at b i) (\<lambda>r.
     case forward_key_state sel (user_key (fst r)) of
       ForwardBefore \<Rightarrow> scan_records_forward sel b is
     | ForwardMatch \<Rightarrow> Ok (ScanFound r (i + 1))
     | ForwardAfter \<Rightarrow> Ok (ScanPast (i + 1)))"

fun scan_records_reverse :: "scan_selector \<Rightarrow> decoded_data_block \<Rightarrow> usize list \<Rightarrow> record_scan result" where
  "scan_records_reverse sel b [] = Ok ScanEnd"
| "scan_records_reverse sel b (i # is) =
     and_then (record_at b i) (\<lambda>r.
     case reverse_key_state sel (user_key (fst r)) of
       ReverseAbove \<Rightarrow> scan_records_reverse sel b is
     | ReverseMatch \<Rightarrow> Ok (ScanFound r i)
     | ReverseBelow \<Rightarrow> Ok (ScanPast i))"

text \<open>The loop condition \<^verbatim>\<open>self.record_index < self.current_block_len(..)?\<close> reads the record index before
  the call loads the block and moves the index, so the first test sees the index of before.\<close>

definition scan_current_block_forward :: "usize \<Rightarrow> table_point_cursor \<Rightarrow> record_scan result" where
  "scan_current_block_forward index_before c =
     (case tc_current_block c of
        None \<Rightarrow> Ok ScanEnd
      | Some (_, b) \<Rightarrow>
          if index_before < length (db_records b)
          then scan_records_forward (tc_selector c) b
                 (tc_record_index c # [tc_record_index c + 1..<length (db_records b)])
          else Ok ScanEnd)"

definition scan_current_block_reverse :: "table_point_cursor \<Rightarrow> record_scan result" where
  "scan_current_block_reverse c =
     (case tc_current_block c of
        None \<Rightarrow>
          (if tc_record_index c > 0 then Err (invalid_table ''cursor record index outside data block'')
           else Ok ScanEnd)
      | Some (_, b) \<Rightarrow> scan_records_reverse (tc_selector c) b (rev [0..<tc_record_index c]))"

definition forward_blocks_left :: "table_point_cursor \<Rightarrow> nat" where
  "forward_blocks_left c =
     (case tc_block_index c of None \<Rightarrow> 0 | Some i \<Rightarrow> Suc (data_block_count (tc_table c) - i))"

definition reverse_blocks_left :: "table_point_cursor \<Rightarrow> nat" where
  "reverse_blocks_left c = (case tc_block_index c of None \<Rightarrow> 0 | Some i \<Rightarrow> Suc i)"

lemma ensure_current_block_fields:
  assumes "ensure_current_block c i = Inr c'"
  shows "tc_table c' = tc_table c" "tc_selector c' = tc_selector c" "tc_direction c' = tc_direction c"
    "tc_policy c' = tc_policy c" "tc_prefix_extractor c' = tc_prefix_extractor c"
    "tc_block_index c' = tc_block_index c" "tc_pending c' = tc_pending c" "tc_exhausted c' = tc_exhausted c"
    "current_block_is c' i"
  using assms by (auto simp: ensure_current_block_def and_then_eq_Inr_iff current_block_is_def
      split: if_splits)

function next_record_forward :: "table_point_cursor \<Rightarrow> (point_record option \<times> table_point_cursor) result" where
  "next_record_forward c =
     (if tc_exhausted c then Ok (None, c)
      else case tc_block_index c of
             None \<Rightarrow> Ok (None, c)
           | Some i \<Rightarrow>
               and_then (if current_block_is c i then Ok CursorScan else forward_block_state c i) (\<lambda>state.
               case state of
                 CursorSkip \<Rightarrow> next_record_forward (move_to_next_block c)
               | CursorDone \<Rightarrow> Ok (None, c\<lparr>tc_exhausted := True\<rparr>)
               | CursorScan \<Rightarrow>
                   and_then (ensure_current_block c i) (\<lambda>c'.
                   and_then (scan_current_block_forward (tc_record_index c) c') (\<lambda>scan.
                   case scan of
                     ScanFound r n \<Rightarrow> Ok (Some r, c'\<lparr>tc_record_index := n\<rparr>)
                   | ScanPast n \<Rightarrow> Ok (None, c'\<lparr>tc_record_index := n, tc_exhausted := True\<rparr>)
                   | ScanEnd \<Rightarrow> next_record_forward (move_to_next_block c')))))"
  by pat_completeness auto
termination
  by (relation "measure forward_blocks_left")
    (auto simp: forward_blocks_left_def move_to_next_block_def ensure_current_block_fields)

function next_record_reverse :: "table_point_cursor \<Rightarrow> (point_record option \<times> table_point_cursor) result" where
  "next_record_reverse c =
     (if tc_exhausted c then Ok (None, c)
      else case tc_block_index c of
             None \<Rightarrow> Ok (None, c)
           | Some i \<Rightarrow>
               and_then (if current_block_is c i then Ok CursorScan else reverse_block_state c i) (\<lambda>state.
               case state of
                 CursorSkip \<Rightarrow> next_record_reverse (move_to_previous_block c)
               | CursorDone \<Rightarrow> Ok (None, c\<lparr>tc_exhausted := True\<rparr>)
               | CursorScan \<Rightarrow>
                   and_then (ensure_current_block c i) (\<lambda>c'.
                   and_then (scan_current_block_reverse c') (\<lambda>scan.
                   case scan of
                     ScanFound r n \<Rightarrow> Ok (Some r, c'\<lparr>tc_record_index := n\<rparr>)
                   | ScanPast n \<Rightarrow> Ok (None, c'\<lparr>tc_record_index := n, tc_exhausted := True\<rparr>)
                   | ScanEnd \<Rightarrow> next_record_reverse (move_to_previous_block c')))))"
  by pat_completeness auto
termination
  by (relation "measure reverse_blocks_left")
    (auto simp: reverse_blocks_left_def move_to_previous_block_def ensure_current_block_fields checked_sub_usize_def)

declare next_record_forward.simps [simp del] next_record_reverse.simps [simp del]

definition next_record :: "table_point_cursor \<Rightarrow> (point_record option \<times> table_point_cursor) result" where
  "next_record c =
     (case tc_direction c of
        Forward \<Rightarrow> next_record_forward c
      | Reverse \<Rightarrow> next_record_reverse c)"

subsection \<open>Every record that is returned uses up part of the table\<close>

definition cursor_blocks_left :: "table_point_cursor \<Rightarrow> nat" where
  "cursor_blocks_left c =
     (case tc_direction c of Forward \<Rightarrow> forward_blocks_left c | Reverse \<Rightarrow> reverse_blocks_left c)"

definition cursor_unloaded :: "table_point_cursor \<Rightarrow> nat" where
  "cursor_unloaded c =
     (case tc_block_index c of None \<Rightarrow> 0 | Some i \<Rightarrow> if current_block_is c i then 0 else 1)"

definition cursor_records_left :: "table_point_cursor \<Rightarrow> nat" where
  "cursor_records_left c =
     (case tc_direction c of
        Forward \<Rightarrow> (case tc_current_block c of None \<Rightarrow> 0 | Some (_, b) \<Rightarrow> length (db_records b) - tc_record_index c)
      | Reverse \<Rightarrow> tc_record_index c)"

definition cursor_order :: "(table_point_cursor \<times> table_point_cursor) set" where
  "cursor_order = inv_image (less_than <*lex*> less_than <*lex*> less_than)
     (\<lambda>c. (cursor_blocks_left c, cursor_unloaded c, cursor_records_left c))"

lemma wf_cursor_order: "wf cursor_order"
  unfolding cursor_order_def by (intro wf_inv_image wf_lex_prod wf_less_than)

lemma cursor_order_iff:
  "(c', c) \<in> cursor_order \<longleftrightarrow>
     cursor_blocks_left c' < cursor_blocks_left c \<or>
     cursor_blocks_left c' = cursor_blocks_left c \<and>
     (cursor_unloaded c' < cursor_unloaded c \<or>
      cursor_unloaded c' = cursor_unloaded c \<and> cursor_records_left c' < cursor_records_left c)"
  by (auto simp: cursor_order_def)

lemma record_at_bounds: "record_at b i = Inr r \<Longrightarrow> i < length (db_records b) \<and> r = db_records b ! i"
  by (auto simp: record_at_def split: if_splits)

lemma scan_records_forward_found:
  "scan_records_forward sel b is = Inr (ScanFound r n) \<Longrightarrow> \<exists>i\<in>set is. n = i + 1 \<and> i < length (db_records b)"
proof (induction "is")
  case (Cons i "is")
  then obtain x where x: "record_at b i = Inr x" by (auto simp: and_then_eq_Inr_iff)
  show ?case
    using Cons x record_at_bounds [OF x]
    by (cases "forward_key_state sel (user_key (fst x))") (auto simp del: forward_match)
qed simp

lemma scan_records_reverse_found:
  "scan_records_reverse sel b is = Inr (ScanFound r n) \<Longrightarrow> n \<in> set is"
proof (induction "is")
  case (Cons i "is")
  then obtain x where x: "record_at b i = Inr x" by (auto simp: and_then_eq_Inr_iff)
  show ?case
    using Cons x by (cases "reverse_key_state sel (user_key (fst x))") (auto simp del: reverse_match)
qed simp

lemma move_fields [simp]:
  "tc_direction (move_to_next_block c) = tc_direction c" "tc_direction (move_to_previous_block c) = tc_direction c"
  "tc_table (move_to_next_block c) = tc_table c" "tc_table (move_to_previous_block c) = tc_table c"
  "tc_selector (move_to_next_block c) = tc_selector c" "tc_selector (move_to_previous_block c) = tc_selector c"
  "tc_policy (move_to_next_block c) = tc_policy c" "tc_policy (move_to_previous_block c) = tc_policy c"
  "tc_pending (move_to_next_block c) = tc_pending c" "tc_pending (move_to_previous_block c) = tc_pending c"
  by (simp_all add: move_to_next_block_def move_to_previous_block_def split: option.split)

lemma cursor_order_moved:
  assumes "(c', d) \<in> cursor_order" "cursor_blocks_left d < cursor_blocks_left c"
  shows "(c', c) \<in> cursor_order"
  using assms unfolding cursor_order_iff by linarith

lemma next_block_left:
  "tc_block_index c = Some i \<Longrightarrow> tc_direction c = Forward \<Longrightarrow>
   cursor_blocks_left (move_to_next_block c) < cursor_blocks_left c"
  "tc_block_index c = Some i \<Longrightarrow> tc_direction c = Reverse \<Longrightarrow>
   cursor_blocks_left (move_to_previous_block c) < cursor_blocks_left c"
  by (auto simp: cursor_blocks_left_def forward_blocks_left_def reverse_blocks_left_def
      move_to_next_block_def move_to_previous_block_def checked_sub_usize_def)

lemma found_decreases:
  assumes i: "tc_block_index c = Some i" and e: "ensure_current_block c i = Inr c'"
    and n: "current_block_is c i \<Longrightarrow> cursor_records_left (c'\<lparr>tc_record_index := n\<rparr>) < cursor_records_left c"
  shows "(c'\<lparr>tc_record_index := n\<rparr>, c) \<in> cursor_order"
proof -
  note f = ensure_current_block_fields [OF e]
  have b: "cursor_blocks_left (c'\<lparr>tc_record_index := n\<rparr>) = cursor_blocks_left c"
    using f by (cases "tc_direction c")
      (simp_all add: cursor_blocks_left_def forward_blocks_left_def reverse_blocks_left_def split: option.split)
  have u: "cursor_unloaded (c'\<lparr>tc_record_index := n\<rparr>) = 0"
    using f i by (simp add: cursor_unloaded_def current_block_is_def)
  show ?thesis
    using b u n i by (cases "current_block_is c i") (simp_all add: cursor_order_iff cursor_unloaded_def)
qed

lemma next_record_forward_decreases:
  "tc_direction c = Forward \<Longrightarrow> next_record_forward c = Inr (Some r, c') \<Longrightarrow>
   (c', c) \<in> cursor_order \<and> tc_direction c' = Forward"
proof (induction c rule: next_record_forward.induct)
  case (1 c)
  from 1(4) obtain i state where i: "\<not> tc_exhausted c" "tc_block_index c = Some i"
    "(if current_block_is c i then Ok CursorScan else forward_block_state c i) = Inr state"
    by (subst (asm) next_record_forward.simps) (auto simp: and_then_eq_Inr_iff split: if_splits option.splits)
  note step = 1(4) [unfolded next_record_forward.simps [of c]]
  show ?case
  proof (cases state)
    case CursorSkip
    then have "next_record_forward (move_to_next_block c) = Inr (Some r, c')"
      using step i by (simp split: if_splits)
    then show ?thesis
      using 1(2) [OF i CursorSkip] 1(3) cursor_order_moved [of c' "move_to_next_block c" c]
        next_block_left(1) [OF i(2) 1(3)] by simp
  next
    case CursorDone
    then show ?thesis using step i by (simp split: if_splits)
  next
    case CursorScan
    then obtain d scan where d: "ensure_current_block c i = Inr d"
      "scan_current_block_forward (tc_record_index c) d = Inr scan"
      using step i by (auto simp: and_then_eq_Inr_iff split: if_splits)
    note f = ensure_current_block_fields [OF d(1)]
    show ?thesis
    proof (cases scan)
      case (ScanFound r' n)
      then have c': "c' = d\<lparr>tc_record_index := n\<rparr>" using step i CursorScan d by (simp split: if_splits)
      obtain j b where b: "tc_current_block d = Some (j, b)" "tc_record_index c < length (db_records b)"
        "n > tc_record_index d"
        using d(2) ScanFound by (auto simp: scan_current_block_forward_def simp del: scan_records_forward.simps
            split: option.splits if_splits dest!: scan_records_forward_found)
      have "current_block_is c i \<Longrightarrow> d = c" using d(1) by (simp add: ensure_current_block_def)
      then have "(d\<lparr>tc_record_index := n\<rparr>, c) \<in> cursor_order"
        using b f(3) 1(3) by (intro found_decreases [OF i(2) d(1)]) (auto simp: cursor_records_left_def)
      then show ?thesis using c' f(3) 1(3) by simp
    next
      case (ScanPast n)
      then show ?thesis using step i CursorScan d by (simp split: if_splits)
    next
      case ScanEnd
      then have "next_record_forward (move_to_next_block d) = Inr (Some r, c')"
        using step i CursorScan d by (simp split: if_splits)
      moreover have "cursor_blocks_left d = cursor_blocks_left c"
        using f 1(3) by (simp add: cursor_blocks_left_def forward_blocks_left_def split: option.split)
      ultimately show ?thesis
        using 1(1) [OF i CursorScan d ScanEnd] 1(3) f cursor_order_moved [of c' "move_to_next_block d" c]
          next_block_left(1) [of d i] i(2) by simp
    qed
  qed
qed

lemma next_record_reverse_decreases:
  "tc_direction c = Reverse \<Longrightarrow> next_record_reverse c = Inr (Some r, c') \<Longrightarrow>
   (c', c) \<in> cursor_order \<and> tc_direction c' = Reverse"
proof (induction c rule: next_record_reverse.induct)
  case (1 c)
  from 1(4) obtain i state where i: "\<not> tc_exhausted c" "tc_block_index c = Some i"
    "(if current_block_is c i then Ok CursorScan else reverse_block_state c i) = Inr state"
    by (subst (asm) next_record_reverse.simps) (auto simp: and_then_eq_Inr_iff split: if_splits option.splits)
  note step = 1(4) [unfolded next_record_reverse.simps [of c]]
  show ?case
  proof (cases state)
    case CursorSkip
    then have "next_record_reverse (move_to_previous_block c) = Inr (Some r, c')"
      using step i by (simp split: if_splits)
    then show ?thesis
      using 1(2) [OF i CursorSkip] 1(3) cursor_order_moved [of c' "move_to_previous_block c" c]
        next_block_left(2) [OF i(2) 1(3)] by simp
  next
    case CursorDone
    then show ?thesis using step i by (simp split: if_splits)
  next
    case CursorScan
    then obtain d scan where d: "ensure_current_block c i = Inr d"
      "scan_current_block_reverse d = Inr scan"
      using step i by (auto simp: and_then_eq_Inr_iff split: if_splits)
    note f = ensure_current_block_fields [OF d(1)]
    show ?thesis
    proof (cases scan)
      case (ScanFound r' n)
      then have c': "c' = d\<lparr>tc_record_index := n\<rparr>" using step i CursorScan d by (simp split: if_splits)
      have b: "n < tc_record_index d"
        using d(2) ScanFound by (auto simp: scan_current_block_reverse_def split: option.splits if_splits
            dest!: scan_records_reverse_found)
      have "current_block_is c i \<Longrightarrow> d = c" using d(1) by (simp add: ensure_current_block_def)
      then have "(d\<lparr>tc_record_index := n\<rparr>, c) \<in> cursor_order"
        using b f(3) 1(3) by (intro found_decreases [OF i(2) d(1)]) (auto simp: cursor_records_left_def)
      then show ?thesis using c' f(3) 1(3) by simp
    next
      case (ScanPast n)
      then show ?thesis using step i CursorScan d by (simp split: if_splits)
    next
      case ScanEnd
      then have "next_record_reverse (move_to_previous_block d) = Inr (Some r, c')"
        using step i CursorScan d by (simp split: if_splits)
      moreover have "cursor_blocks_left d = cursor_blocks_left c"
        using f 1(3) by (simp add: cursor_blocks_left_def reverse_blocks_left_def split: option.split)
      ultimately show ?thesis
        using 1(1) [OF i CursorScan d ScanEnd] 1(3) f cursor_order_moved [of c' "move_to_previous_block d" c]
          next_block_left(2) [of d i] i(2) by simp
    qed
  qed
qed

lemma next_record_decreases:
  "next_record c = Inr (Some r, c') \<Longrightarrow> (c', c) \<in> cursor_order"
  using next_record_forward_decreases [of c r c'] next_record_reverse_decreases [of c r c']
  by (cases "tc_direction c") (simp_all add: next_record_def)

section \<open>Groups\<close>

text \<open>The loop of \<^verbatim>\<open>next_group\<close> that gathers the other versions of the key of the first record.\<close>

function collect_rest ::
  "table_point_cursor \<Rightarrow> bytes \<Rightarrow> point_record list \<Rightarrow> (point_record list \<times> table_point_cursor) result" where
  "collect_rest c key rest =
     and_then (next_record c) (\<lambda>res.
     case res of
       (None, c') \<Rightarrow> Ok (rest, c')
     | (Some r, c') \<Rightarrow>
         if user_key (fst r) = key then collect_rest c' key (rest @ [r])
         else Ok (rest, c'\<lparr>tc_pending := Some r\<rparr>))"
  by pat_completeness auto
termination
  by (relation "inv_image cursor_order fst") (auto simp: wf_cursor_order next_record_decreases)

declare collect_rest.simps [simp del]

definition table_next_group :: "table_point_cursor \<Rightarrow> (record_group option \<times> table_point_cursor) result" where
  "table_next_group c =
     and_then (case tc_pending c of
         Some r \<Rightarrow> Ok (Some r, c\<lparr>tc_pending := None\<rparr>)
       | None \<Rightarrow> next_record c) (\<lambda>res.
     case res of
       (None, c') \<Rightarrow> Ok (None, c')
     | (Some first, c') \<Rightarrow>
         and_then (collect_rest c' (user_key (fst first)) []) (\<lambda>(rest, c'').
         Ok (Some (record_group_from_first_and_rest (user_key (fst first)) first rest), c'')))"

section \<open>What a cursor still has to deliver\<close>

abbreviation selected :: "scan_selector \<Rightarrow> point_record list \<Rightarrow> point_record list" where
  "selected sel \<equiv> filter (\<lambda>r. selects sel (user_key (fst r)))"

definition entry_index :: "table_point_cursor \<Rightarrow> decoded_data_block \<Rightarrow> usize" where
  "entry_index c b = projr (first_record_index_for_decoded_block b (tc_selector c) (tc_policy c))"

definition forward_part :: "table_point_cursor \<Rightarrow> decoded_data_block \<Rightarrow> point_record list" where
  "forward_part c b = selected (tc_selector c) (drop (entry_index c b) (db_records b))"

definition reverse_part :: "table_point_cursor \<Rightarrow> decoded_data_block \<Rightarrow> point_record list" where
  "reverse_part c b = rev (selected (tc_selector c) (db_records b))"

definition tc_stream :: "table_point_cursor \<Rightarrow> point_record list" where
  "tc_stream c =
     (if tc_exhausted c then []
      else case tc_block_index c of
        None \<Rightarrow> []
      | Some i \<Rightarrow>
          let blocks = file_blocks (tc_table c)
          in case tc_direction c of
            Forward \<Rightarrow>
              (if current_block_is c i
               then selected (tc_selector c) (drop (tc_record_index c) (db_records (blocks ! i)))
               else forward_part c (blocks ! i)) @ concat (map (forward_part c) (drop (Suc i) blocks))
          | Reverse \<Rightarrow>
              (if current_block_is c i
               then rev (selected (tc_selector c) (take (tc_record_index c) (db_records (blocks ! i))))
               else reverse_part c (blocks ! i)) @ concat (map (reverse_part c) (rev (take i blocks))))"

definition tc_shape :: "table_point_cursor \<Rightarrow> bool" where
  "tc_shape c \<longleftrightarrow>
     table_ok (tc_table c) \<and>
     (\<forall>i. tc_block_index c = Some i \<longrightarrow> i < data_block_count (tc_table c)) \<and>
     (case tc_current_block c of
        None \<Rightarrow> tc_record_index c = 0
      | Some (i, b) \<Rightarrow> tc_block_index c = Some i \<and> b = file_blocks (tc_table c) ! i \<and>
          tc_record_index c \<le> length (db_records b))"

definition tc_static :: "table_point_cursor \<Rightarrow> table_point_cursor" where
  "tc_static c = c\<lparr>tc_block_index := None, tc_record_index := 0, tc_current_block := None, tc_exhausted := False\<rparr>"

lemma tc_shape_exhausted [simp]: "tc_shape (c\<lparr>tc_exhausted := e\<rparr>) \<longleftrightarrow> tc_shape c"
  by (cases "tc_current_block c") (auto simp: tc_shape_def)

lemma tc_static_eqD:
  assumes "tc_static c' = tc_static c"
  shows "tc_table c' = tc_table c" "tc_selector c' = tc_selector c" "tc_direction c' = tc_direction c"
    "tc_policy c' = tc_policy c" "tc_pending c' = tc_pending c"
    "forward_part c' = forward_part c" "reverse_part c' = reverse_part c"
proof -
  show f: "tc_table c' = tc_table c" "tc_selector c' = tc_selector c" "tc_direction c' = tc_direction c"
    "tc_policy c' = tc_policy c" "tc_pending c' = tc_pending c"
    using assms by (cases c; cases c'; simp add: tc_static_def)+
  show "forward_part c' = forward_part c" "reverse_part c' = reverse_part c"
    by (intro ext, simp add: forward_part_def reverse_part_def entry_index_def f)+
qed

lemma tc_static_updates [simp]:
  "tc_static (c\<lparr>tc_exhausted := e\<rparr>) = tc_static c" "tc_static (c\<lparr>tc_record_index := n\<rparr>) = tc_static c"
  "tc_static (move_to_next_block c) = tc_static c" "tc_static (move_to_previous_block c) = tc_static c"
  "tc_static (c\<lparr>tc_record_index := n, tc_exhausted := e\<rparr>) = tc_static c"
  "tc_static (c\<lparr>tc_record_index := n, tc_current_block := b\<rparr>) = tc_static c"
  by (simp_all add: tc_static_def move_to_next_block_def move_to_previous_block_def split: option.split)

fun seek_key :: "scan_selector \<Rightarrow> bytes option" where
  "seek_key (RangeSelector rng) =
     (case kr_start rng of Included key \<Rightarrow> Some key | Excluded key \<Rightarrow> Some key | Unbounded \<Rightarrow> None)"
| "seek_key (PrefixSelector prefix) = Some prefix"

lemma first_record_index_seek:
  "first_record_index_for_decoded_block b sel policy =
     (case seek_key sel of None \<Rightarrow> Ok 0 | Some key \<Rightarrow> data_block_restart_index_for_key b key policy)"
  by (cases sel) (auto split: bound.splits)

lemma first_record_index_at:
  assumes "block_ok b"
  shows "\<exists>n. first_record_index_for_decoded_block b sel policy = Inr n \<and>
    (n = 0 \<or> (\<exists>key. seek_key sel = Some key \<and> (\<exists>i\<in>set (restart_indices b). n = unat i) \<and>
      n < length (db_records b) \<and> user_key (fst (db_records b ! n)) \<le> key \<and>
      (\<forall>e\<in>set (take n (db_records b)). user_key (fst e) \<le> user_key (fst (db_records b ! n)))))"
proof (cases "seek_key sel")
  case (Some key)
  then show ?thesis using restart_index_at [OF assms, of key policy] by (auto simp: first_record_index_seek)
qed (simp add: first_record_index_seek)

lemma entry_index_eq:
  assumes "block_ok b" "db_records b \<noteq> []"
  shows "first_record_index_for_decoded_block b (tc_selector c) (tc_policy c) = Inr (entry_index c b)"
    "entry_index c b < length (db_records b)"
  using first_record_index_at [OF assms(1), of "tc_selector c" "tc_policy c"] assms(2)
  by (auto simp: entry_index_def)

section \<open>Forward\<close>

lemma block_records_sorted:
  "block_ok b \<Longrightarrow> i \<le> j \<Longrightarrow> j < length (db_records b) \<Longrightarrow>
   user_key (fst (db_records b ! i)) \<le> user_key (fst (db_records b ! j))"
  using sorted_nth_mono [of "map (\<lambda>r. user_key (fst r)) (db_records b)" i j]
  by (simp add: block_ok_def btree_ok_user_keys)

text \<open>The outcome of the inner loop at a record index.\<close>

definition forward_outcome :: "scan_selector \<Rightarrow> point_record list \<Rightarrow> usize \<Rightarrow> record_scan \<Rightarrow> bool" where
  "forward_outcome sel rs i scan \<longleftrightarrow>
     (case scan of
        ScanFound r n \<Rightarrow> n \<le> length rs \<and> selected sel (drop i rs) = r # selected sel (drop n rs)
      | ScanPast n \<Rightarrow> n \<le> length rs \<and> selected sel (drop i rs) = [] \<and> (\<exists>r\<in>set rs. forward_key_state sel (user_key (fst r)) = ForwardAfter)
      | ScanEnd \<Rightarrow> selected sel (drop i rs) = [])"

lemma scan_records_forward_eq:
  assumes "block_ok b" "i \<le> length (db_records b)"
  shows "\<exists>scan. scan_records_forward sel b [i..<length (db_records b)] = Inr scan \<and>
    forward_outcome sel (db_records b) i scan"
  using assms(2)
proof (induction "length (db_records b) - i" arbitrary: i)
  case 0
  then show ?case by (simp add: forward_outcome_def)
next
  case (Suc n)
  then have i: "i < length (db_records b)" by simp
  let ?r = "db_records b ! i"
  have IH: "\<exists>scan. scan_records_forward sel b [Suc i..<length (db_records b)] = Inr scan \<and>
      forward_outcome sel (db_records b) (Suc i) scan"
    using Suc by simp
  have d: "drop i (db_records b) = ?r # drop (Suc i) (db_records b)" using i by (simp add: Cons_nth_drop_Suc)
  have r: "record_at b i = Inr ?r" using i by (simp add: record_at_def)
  note eval = upt_conv_Cons [OF i] r
  show ?case
  proof (cases "forward_key_state sel (user_key (fst ?r))")
    case ForwardBefore
    then have "\<not> selects sel (user_key (fst ?r))" by (metis forward_match forward_state.distinct(1))
    then have "selected sel (drop i (db_records b)) = selected sel (drop (Suc i) (db_records b))"
      using d by simp
    then have "forward_outcome sel (db_records b) i = forward_outcome sel (db_records b) (Suc i)"
      by (intro ext) (simp only: forward_outcome_def)
    then show ?thesis using IH ForwardBefore by (simp add: eval)
  next
    case ForwardMatch
    then have "selects sel (user_key (fst ?r))" by simp
    then show ?thesis
      using i d by (intro exI [of _ "ScanFound ?r (i + 1)"]) (simp add: eval forward_match_cases forward_outcome_def)
  next
    case ForwardAfter
    have "\<not> selects sel (user_key (fst x))" if x: "x \<in> set (drop i (db_records b))" for x
    proof -
      obtain j where "i \<le> j" "j < length (db_records b)" "x = db_records b ! j"
        using set_drop_nth [OF x] by blast
      then show ?thesis using after_stays_after [OF ForwardAfter] block_records_sorted [OF assms(1)] by simp
    qed
    then show ?thesis
      using ForwardAfter i by (auto simp: eval forward_outcome_def filter_empty_conv intro!: bexI [of _ ?r])
  qed
qed

lemma prefix_filter_skip:
  assumes "describes e b" "\<not> fst (block_prefix_filter_allows e prefix extractor)" "r \<in> set (db_records b)"
  shows "\<not> starts_with (user_key (fst r)) prefix"
proof
  assume "starts_with (user_key (fst r)) prefix"
  then obtain rest where rest: "user_key (fst r) = prefix @ rest"
    unfolding starts_with_def by (metis append_take_drop_id)
  obtain f p where f: "tdb_prefix_filter e = Some f" "pf_extractor f = extractor"
    "query_filter_prefix extractor prefix = Some p" "\<not> may_contain_prefix f p"
    using assms(2) by (auto simp: block_prefix_filter_allows_def prefix_filter_result_def filter_prefix_result_def
        bind_eq_Some_conv split: option.splits if_splits)
  have "\<not> prefix_filter_misses (tdb_prefix_filter e) (user_key (fst r))"
    using assms(1,3) by (simp add: describes_def)
  then show False
    using f query_filter_prefix_extract [OF f(3), of rest] by (simp add: prefix_filter_misses_def rest)
qed

lemma selects_prefix: "selects (PrefixSelector p) k \<longleftrightarrow> starts_with k p"
  by (simp add: selects_def key_is_in_range_def starts_with_range not_less not_le split: option.split)

lemma forward_block_state_skip:
  assumes ok: "table_ok (tc_table c)" and i: "i < data_block_count (tc_table c)"
    and skip: "forward_block_state c i = Inr CursorSkip"
  shows "\<forall>r\<in>set (db_records (file_blocks (tc_table c) ! i)). \<not> selects (tc_selector c) (user_key (fst r))"
proof (intro ballI)
  fix r assume r: "r \<in> set (db_records (file_blocks (tc_table c) ! i))"
  let ?e = "table_index (tc_table c) ! i"
  have d: "describes ?e (file_blocks (tc_table c) ! i)" by (rule table_ok_describes [OF ok i])
  have le: "user_key (fst r) \<le> user_key (largest_internal_key ?e)" using describes_user_keys(2) [OF d r] .
  show "\<not> selects (tc_selector c) (user_key (fst r))"
  proof (cases "tc_selector c")
    case (RangeSelector rng)
    then have "key_is_before_start (user_key (largest_internal_key ?e)) (kr_start rng)"
      using skip by (auto simp: forward_block_state_def with_data_block_metadata_Ok [OF ok i] overlaps_range_def
          split: if_splits)
    then have "key_is_before_start (user_key (fst r)) (kr_start rng)" using before_start_mono [OF le] by simp
    then show ?thesis using RangeSelector by (simp add: selects_def key_is_in_range_def)
  next
    case (PrefixSelector p)
    then consider "user_key (largest_internal_key ?e) < p" |
      "\<not> fst (block_prefix_filter_allows ?e p (tc_prefix_extractor c))"
      using skip by (auto simp: forward_block_state_def with_data_block_metadata_Ok [OF ok i] prefix_block_state_def
          split: if_splits)
    then show ?thesis
    proof cases
      case 1
      then have "user_key (fst r) < p" using le by order
      then show ?thesis using PrefixSelector starts_with_le selects_prefix by (metis not_less)
    next
      case 2
      then show ?thesis using PrefixSelector prefix_filter_skip [OF d 2 r] selects_prefix by simp
    qed
  qed
qed

lemma forward_block_state_done:
  assumes ok: "table_ok (tc_table c)" and i: "i < data_block_count (tc_table c)"
    and fin: "forward_block_state c i = Inr CursorDone"
  shows "\<forall>r\<in>set (records_from (tc_table c) i). \<not> selects (tc_selector c) (user_key (fst r))"
proof (intro ballI)
  fix r assume r: "r \<in> set (records_from (tc_table c) i)"
  let ?e = "table_index (tc_table c) ! i"
  have le: "user_key (smallest_internal_key ?e) \<le> user_key (fst r)" by (rule records_from_later [OF ok i r])
  show "\<not> selects (tc_selector c) (user_key (fst r))"
  proof (cases "tc_selector c")
    case (RangeSelector rng)
    then have "key_is_after_end (user_key (smallest_internal_key ?e)) (kr_end rng)"
      using fin by (auto simp: forward_block_state_def with_data_block_metadata_Ok [OF ok i] split: if_splits)
    then have "key_is_after_end (user_key (fst r)) (kr_end rng)" using after_end_mono le by blast
    then show ?thesis using RangeSelector by (simp add: selects_def key_is_in_range_def)
  next
    case (PrefixSelector p)
    then have "\<not> starts_with (user_key (smallest_internal_key ?e)) p" "p < user_key (smallest_internal_key ?e)"
      using fin by (auto simp: forward_block_state_def with_data_block_metadata_Ok [OF ok i] prefix_block_state_def
          prefix_bounds_may_overlap_def split: if_splits)
    then have "forward_key_state (PrefixSelector p) (user_key (smallest_internal_key ?e)) = ForwardAfter" by simp
    then show ?thesis using PrefixSelector after_stays_after [OF _ le] by simp
  qed
qed

lemma forward_block_state_total:
  "table_ok (tc_table c) \<Longrightarrow> i < data_block_count (tc_table c) \<Longrightarrow> \<exists>state. forward_block_state c i = Inr state"
  by (simp add: forward_block_state_def with_data_block_metadata_Ok)

lemma forward_part_empty:
  "\<forall>r\<in>set (db_records b). \<not> selects (tc_selector c) (user_key (fst r)) \<Longrightarrow> forward_part c b = []"
  by (auto simp: forward_part_def filter_empty_conv dest: in_set_dropD)

lemma forward_parts_empty:
  assumes "\<forall>r\<in>set (records_from (tc_table c) i). \<not> selects (tc_selector c) (user_key (fst r))"
  shows "concat (map (forward_part c) (drop i (file_blocks (tc_table c)))) = []"
proof -
  have "forward_part c b = []" if "b \<in> set (drop i (file_blocks (tc_table c)))" for b
    using assms that by (intro forward_part_empty) (auto simp: records_from_def)
  then show ?thesis by simp
qed

lemma tc_shape_block:
  assumes "tc_shape c" "tc_block_index c = Some i"
  shows "table_ok (tc_table c)" "i < data_block_count (tc_table c)" "i < length (file_blocks (tc_table c))"
    "block_ok (file_blocks (tc_table c) ! i)" "db_records (file_blocks (tc_table c) ! i) \<noteq> []"
proof -
  show ok: "table_ok (tc_table c)" and i: "i < data_block_count (tc_table c)"
    using assms by (simp_all add: tc_shape_def)
  then show "i < length (file_blocks (tc_table c))" using table_ok_lengths by simp
  show "block_ok (file_blocks (tc_table c) ! i)" "db_records (file_blocks (tc_table c) ! i) \<noteq> []"
    using table_ok_describes [OF ok i] by (simp_all add: describes_def)
qed

lemma drop_block:
  "i < length blocks \<Longrightarrow> concat (map f (drop i blocks)) = f (blocks ! i) @ concat (map f (drop (Suc i) blocks))"
  by (simp flip: Cons_nth_drop_Suc)

lemma move_to_next_block_stream:
  assumes "tc_shape c" "tc_block_index c = Some i" "tc_direction c = Forward" "\<not> tc_exhausted c"
  shows "tc_shape (move_to_next_block c)"
    "tc_stream (move_to_next_block c) = concat (map (forward_part c) (drop (Suc i) (file_blocks (tc_table c))))"
proof -
  note b = tc_shape_block [OF assms(1,2)]
  have len: "length (file_blocks (tc_table c)) = data_block_count (tc_table c)" using table_ok_lengths [OF b(1)] by simp
  show "tc_shape (move_to_next_block c)"
    using b(1) assms(2) by (simp add: tc_shape_def move_to_next_block_def)
  have part: "forward_part (move_to_next_block c) = forward_part c"
    using tc_static_eqD(6) [of "move_to_next_block c" c] by simp
  have unloaded: "\<not> current_block_is (move_to_next_block c) j" for j
    using assms(2) by (simp add: current_block_is_def move_to_next_block_def)
  show "tc_stream (move_to_next_block c) = concat (map (forward_part c) (drop (Suc i) (file_blocks (tc_table c))))"
  proof (cases "Suc i < data_block_count (tc_table c)")
    case True
    then have "tc_block_index (move_to_next_block c) = Some (Suc i)" "\<not> tc_exhausted (move_to_next_block c)"
      using assms by (simp_all add: move_to_next_block_def)
    then show ?thesis
      using True assms(3) unloaded part len by (simp add: tc_stream_def drop_block Let_def)
  next
    case False
    then have "tc_block_index (move_to_next_block c) = None"
      using assms by (simp add: move_to_next_block_def)
    then show ?thesis using False len by (simp add: tc_stream_def)
  qed
qed

lemma ensure_current_block_forward:
  assumes "tc_shape c" "tc_block_index c = Some i" "tc_direction c = Forward" "\<not> tc_exhausted c"
  shows "\<exists>c'. ensure_current_block c i = Inr c' \<and> tc_shape c' \<and> tc_static c' = tc_static c \<and>
    tc_block_index c' = Some i \<and> \<not> tc_exhausted c' \<and> tc_current_block c' = Some (i, file_blocks (tc_table c) ! i) \<and>
    tc_stream c' = tc_stream c \<and>
    (tc_record_index c < length (db_records (file_blocks (tc_table c) ! i)) \<and>
       tc_record_index c' < length (db_records (file_blocks (tc_table c) ! i)) \<or> c' = c)"
proof (cases "current_block_is c i")
  case True
  then have "tc_current_block c = Some (i, file_blocks (tc_table c) ! i)"
    using assms(1) by (auto simp: current_block_is_def tc_shape_def split: option.splits)
  then show ?thesis using True assms by (simp add: ensure_current_block_def)
next
  case False
  note b = tc_shape_block [OF assms(1,2)]
  let ?b = "file_blocks (tc_table c) ! i"
  let ?c = "c\<lparr>tc_record_index := entry_index c ?b, tc_current_block := Some (i, ?b)\<rparr>"
  have "tc_record_index c = 0"
    using False assms(1,2) by (auto simp: current_block_is_def tc_shape_def split: option.splits)
  moreover have "ensure_current_block c i = Inr ?c"
    using False assms(3) load_data_block_Ok [OF b(1,2)] entry_index_eq(1) [OF b(4,5)]
    by (simp add: ensure_current_block_def)
  moreover have "tc_shape ?c"
    using assms(1,2) b(2) entry_index_eq(2) [OF b(4,5)] by (simp add: tc_shape_def less_imp_le)
  moreover have "tc_stream ?c = tc_stream c"
    using assms(2-4) False tc_static_eqD(6) [of ?c c]
    by (simp add: tc_stream_def current_block_is_def [of ?c] forward_part_def Let_def)
  ultimately show ?thesis
    using b(5) assms(2,4) entry_index_eq(2) [OF b(4,5)] by (intro exI [of _ ?c]) simp
qed

text \<open>Taking the next record of a stream.\<close>

definition takes_head ::
  "table_point_cursor \<Rightarrow> (point_record option \<times> table_point_cursor) result \<Rightarrow> bool" where
  "takes_head c res \<longleftrightarrow>
     (\<exists>c'. res = Inr (case tc_stream c of [] \<Rightarrow> None | r # _ \<Rightarrow> Some r, c') \<and>
        tc_shape c' \<and> tc_static c' = tc_static c \<and> tc_stream c' = tl (tc_stream c))"

lemma takes_head_same_stream:
  "takes_head d res \<Longrightarrow> tc_stream d = tc_stream c \<Longrightarrow> tc_static d = tc_static c \<Longrightarrow> takes_head c res"
  by (simp add: takes_head_def)

lemma takes_head_exhausted:
  "tc_shape c' \<Longrightarrow> tc_static c' = tc_static c \<Longrightarrow> tc_stream c = [] \<Longrightarrow> tc_stream c' = [] \<Longrightarrow>
   takes_head c (Inr (None, c'))"
  by (simp add: takes_head_def)

lemma scan_current_block_forward_eq:
  assumes "tc_shape d" "tc_block_index d = Some i"
    "tc_current_block d = Some (i, file_blocks (tc_table d) ! i)"
    "index_before < length (db_records (file_blocks (tc_table d) ! i)) \<and>
       tc_record_index d < length (db_records (file_blocks (tc_table d) ! i)) \<or> index_before = tc_record_index d"
  shows "\<exists>scan. scan_current_block_forward index_before d = Inr scan \<and>
    forward_outcome (tc_selector d) (db_records (file_blocks (tc_table d) ! i)) (tc_record_index d) scan"
proof -
  let ?b = "file_blocks (tc_table d) ! i"
  have ok: "block_ok ?b" by (rule tc_shape_block(4) [OF assms(1,2)])
  have le: "tc_record_index d \<le> length (db_records ?b)" using assms(1,3) by (simp add: tc_shape_def)
  show ?thesis
  proof (cases "tc_record_index d < length (db_records ?b)")
    case True
    then have "index_before < length (db_records ?b)" using assms(4) by auto
    then have "scan_current_block_forward index_before d =
        scan_records_forward (tc_selector d) ?b [tc_record_index d..<length (db_records ?b)]"
      using assms(3) True by (simp add: scan_current_block_forward_def upt_conv_Cons del: scan_records_forward.simps)
    then show ?thesis using scan_records_forward_eq [OF ok le] by simp
  next
    case False
    then show ?thesis using assms(3,4) le by (auto simp: scan_current_block_forward_def forward_outcome_def)
  qed
qed

lemma records_after_block:
  assumes "table_ok t" "i < data_block_count t" "r \<in> set (db_records (file_blocks t ! i))" "x \<in> set (records_from t (Suc i))"
  shows "user_key (fst r) \<le> user_key (fst x)"
proof -
  obtain j where j: "Suc i \<le> j" "j < data_block_count t" "x \<in> set (db_records (file_blocks t ! j))"
    using assms(4) table_ok_lengths [OF assms(1)] by (auto simp: records_from_def dest!: set_drop_nth)
  have "user_key (fst r) \<le> user_key (largest_internal_key (table_index t ! i))"
    by (rule describes_user_keys(2) [OF table_ok_describes [OF assms(1,2)] assms(3)])
  also have "\<dots> \<le> user_key (smallest_internal_key (table_index t ! j))"
    using table_index_ordered [OF assms(1), of i j] j by (intro user_key_mono) auto
  also have "\<dots> \<le> user_key (fst x)"
    by (rule describes_user_keys(1) [OF table_ok_describes [OF assms(1) j(2)] j(3)])
  finally show ?thesis .
qed

lemma forward_outcome_takes_head:
  assumes shape: "tc_shape d" "tc_block_index d = Some i" and fwd: "tc_direction d = Forward" "\<not> tc_exhausted d"
    and cur: "tc_current_block d = Some (i, file_blocks (tc_table d) ! i)"
    and out: "forward_outcome (tc_selector d) (db_records (file_blocks (tc_table d) ! i)) (tc_record_index d) scan"
    and rest: "scan = ScanEnd \<Longrightarrow> tc_shape (move_to_next_block d) \<Longrightarrow> tc_direction (move_to_next_block d) = Forward \<Longrightarrow>
      takes_head (move_to_next_block d) (next_record_forward (move_to_next_block d))"
  shows "takes_head d (case scan of
       ScanFound r n \<Rightarrow> Ok (Some r, d\<lparr>tc_record_index := n\<rparr>)
     | ScanPast n \<Rightarrow> Ok (None, d\<lparr>tc_record_index := n, tc_exhausted := True\<rparr>)
     | ScanEnd \<Rightarrow> next_record_forward (move_to_next_block d))"
proof -
  let ?rs = "db_records (file_blocks (tc_table d) ! i)"
  let ?later = "concat (map (forward_part d) (drop (Suc i) (file_blocks (tc_table d))))"
  note b = tc_shape_block [OF shape]
  have is_cur: "current_block_is d i" using cur by (simp add: current_block_is_def)
  have stream: "tc_stream d = selected (tc_selector d) (drop (tc_record_index d) ?rs) @ ?later"
    using shape(2) fwd is_cur by (simp add: tc_stream_def Let_def)
  show ?thesis
  proof (cases scan)
    case (ScanFound r n)
    let ?d = "d\<lparr>tc_record_index := n\<rparr>"
    have n: "n \<le> length ?rs" "selected (tc_selector d) (drop (tc_record_index d) ?rs) = r # selected (tc_selector d) (drop n ?rs)"
      using out ScanFound by (simp_all add: forward_outcome_def)
    have "tc_stream ?d = selected (tc_selector d) (drop n ?rs) @ ?later"
      using shape(2) fwd is_cur tc_static_eqD(6) [of ?d d] by (simp add: tc_stream_def current_block_is_def Let_def)
    moreover have "tc_shape ?d" using shape cur n(1) by (simp add: tc_shape_def)
    ultimately show ?thesis using ScanFound stream n(2) by (simp add: takes_head_def)
  next
    case (ScanPast n)
    let ?d = "d\<lparr>tc_record_index := n, tc_exhausted := True\<rparr>"
    obtain r where r: "r \<in> set ?rs" "forward_key_state (tc_selector d) (user_key (fst r)) = ForwardAfter"
      and none: "selected (tc_selector d) (drop (tc_record_index d) ?rs) = []" "n \<le> length ?rs"
      using out ScanPast by (auto simp: forward_outcome_def)
    have "?later = []"
      using after_stays_after [OF r(2)] records_after_block [OF b(1,2) r(1)] by (intro forward_parts_empty) blast
    then have "tc_stream d = []" using stream none(1) by simp
    moreover have "tc_shape ?d" using shape cur none(2) by (simp add: tc_shape_def)
    ultimately show ?thesis using ScanPast by (simp add: takes_head_exhausted tc_stream_def [of ?d])
  next
    case ScanEnd
    have "tc_stream d = tc_stream (move_to_next_block d)"
      using move_to_next_block_stream(2) [OF shape fwd] stream out ScanEnd by (simp add: forward_outcome_def)
    then show ?thesis
      using rest [OF ScanEnd move_to_next_block_stream(1) [OF shape fwd]] takes_head_same_stream fwd(1) ScanEnd by simp
  qed
qed

lemma next_record_forward_takes_head:
  "tc_shape c \<Longrightarrow> tc_direction c = Forward \<Longrightarrow> takes_head c (next_record_forward c)"
proof (induction c rule: next_record_forward.induct)
  case (1 c)
  show ?case
  proof (cases "tc_exhausted c \<or> tc_block_index c = None")
    case True
    then have "next_record_forward c = Inr (None, c)" by (subst next_record_forward.simps) auto
    moreover have "tc_stream c = []" using True by (auto simp: tc_stream_def)
    ultimately show ?thesis using 1(3) takes_head_exhausted by simp
  next
    case False
    then obtain i where i: "\<not> tc_exhausted c" "tc_block_index c = Some i" by auto
    note b = tc_shape_block [OF 1(3) i(2)]
    note move = move_to_next_block_stream [OF 1(3) i(2) 1(4) i(1)]
    obtain state where state: "(if current_block_is c i then Ok CursorScan else forward_block_state c i) = Inr state"
      using forward_block_state_total [OF b(1,2)] by (cases "current_block_is c i") auto
    note eval = next_record_forward.simps [of c] i state
    show ?thesis
    proof (cases state)
      case CursorSkip
      then have unloaded: "\<not> current_block_is c i" and skip: "forward_block_state c i = Inr CursorSkip"
        using state by (simp_all split: if_splits)
      have "tc_stream c = tc_stream (move_to_next_block c)"
        using forward_part_empty forward_block_state_skip [OF b(1,2) skip] unloaded i 1(4) move(2)
        by (simp add: tc_stream_def)
      then show ?thesis
        using takes_head_same_stream [OF 1(2) [OF i state CursorSkip move(1)]] 1(4) by (simp add: eval CursorSkip)
    next
      case CursorDone
      then have unloaded: "\<not> current_block_is c i" and fin: "forward_block_state c i = Inr CursorDone"
        using state by (simp_all split: if_splits)
      have "forward_part c (file_blocks (tc_table c) ! i) @
          concat (map (forward_part c) (drop (Suc i) (file_blocks (tc_table c)))) = []"
        using forward_parts_empty [OF forward_block_state_done [OF b(1,2) fin]] unfolding drop_block [OF b(3)] .
      then have "tc_stream c = []" using unloaded i 1(4) by (simp add: tc_stream_def)
      then show ?thesis
        using 1(3) by (simp add: eval CursorDone takes_head_exhausted tc_stream_def [of "c\<lparr>tc_exhausted := True\<rparr>"])
    next
      case CursorScan
      obtain d where d: "ensure_current_block c i = Inr d" "tc_shape d" "tc_static d = tc_static c"
        "tc_block_index d = Some i" "\<not> tc_exhausted d" "tc_current_block d = Some (i, file_blocks (tc_table c) ! i)"
        "tc_stream d = tc_stream c"
        "tc_record_index c < length (db_records (file_blocks (tc_table c) ! i)) \<and>
         tc_record_index d < length (db_records (file_blocks (tc_table c) ! i)) \<or> d = c"
        using ensure_current_block_forward [OF 1(3) i(2) 1(4) i(1)] by blast
      note f = tc_static_eqD [OF d(3)]
      obtain scan where scan: "scan_current_block_forward (tc_record_index c) d = Inr scan"
        "forward_outcome (tc_selector d) (db_records (file_blocks (tc_table d) ! i)) (tc_record_index d) scan"
        using scan_current_block_forward_eq [OF d(2,4), of "tc_record_index c"] d(5,6,8) f(1) by auto
      have fwd: "tc_direction d = Forward" using f(3) 1(4) by simp
      have "takes_head d (case scan of
           ScanFound r n \<Rightarrow> Ok (Some r, d\<lparr>tc_record_index := n\<rparr>)
         | ScanPast n \<Rightarrow> Ok (None, d\<lparr>tc_record_index := n, tc_exhausted := True\<rparr>)
         | ScanEnd \<Rightarrow> next_record_forward (move_to_next_block d))"
        using forward_outcome_takes_head [OF d(2,4) fwd d(5) _ scan(2)] d(6) f(1)
          1(1) [OF i state CursorScan d(1) scan(1)] by auto
      then show ?thesis
        using takes_head_same_stream [OF _ d(7,3)] by (simp add: eval CursorScan d(1) scan(1))
    qed
  qed
qed

section \<open>Reverse\<close>

definition reverse_outcome :: "scan_selector \<Rightarrow> point_record list \<Rightarrow> usize \<Rightarrow> record_scan \<Rightarrow> bool" where
  "reverse_outcome sel rs n scan \<longleftrightarrow>
     (case scan of
        ScanFound r m \<Rightarrow> m \<le> n \<and> rev (selected sel (take n rs)) = r # rev (selected sel (take m rs))
      | ScanPast m \<Rightarrow> m \<le> n \<and> selected sel (take n rs) = [] \<and>
          (\<exists>r\<in>set rs. reverse_key_state sel (user_key (fst r)) = ReverseBelow)
      | ScanEnd \<Rightarrow> selected sel (take n rs) = [])"

lemma reverse_outcome_step:
  assumes "reverse_outcome sel rs n scan" "selected sel (take (Suc n) rs) = selected sel (take n rs)"
  shows "reverse_outcome sel rs (Suc n) scan"
  using assms by (cases scan) (auto simp: reverse_outcome_def)

lemma scan_records_reverse_eq:
  assumes "block_ok b" "n \<le> length (db_records b)"
  shows "\<exists>scan. scan_records_reverse sel b (rev [0..<n]) = Inr scan \<and> reverse_outcome sel (db_records b) n scan"
  using assms(2)
proof (induction n)
  case 0
  then show ?case by (simp add: reverse_outcome_def)
next
  case (Suc n)
  let ?rs = "db_records b" let ?r = "?rs ! n"
  have n: "n < length ?rs" using Suc by simp
  have t: "take (Suc n) ?rs = take n ?rs @ [?r]" using n by (simp add: take_Suc_conv_app_nth)
  have r: "record_at b n = Inr ?r" using n by (simp add: record_at_def)
  show ?case
  proof (cases "reverse_key_state sel (user_key (fst ?r))")
    case ReverseAbove
    then have "\<not> selects sel (user_key (fst ?r))" by (metis reverse_match reverse_state.distinct(1))
    then have "selected sel (take (Suc n) ?rs) = selected sel (take n ?rs)" using t by simp
    then show ?thesis using Suc ReverseAbove reverse_outcome_step r by auto
  next
    case ReverseMatch
    then have "selects sel (user_key (fst ?r))" by simp
    then show ?thesis
      using t r by (intro exI [of _ "ScanFound ?r n"]) (simp add: reverse_match_cases reverse_outcome_def)
  next
    case ReverseBelow
    have "\<not> selects sel (user_key (fst x))" if x: "x \<in> set (take (Suc n) ?rs)" for x
    proof -
      obtain j where "j \<le> n" "x = ?rs ! j" using x n by (auto simp: in_set_conv_nth less_Suc_eq_le)
      then show ?thesis using below_stays_below [OF ReverseBelow] block_records_sorted [OF assms(1)] n by simp
    qed
    then have "selected sel (take (Suc n) ?rs) = []" by (simp add: filter_empty_conv)
    then show ?thesis
      using ReverseBelow r nth_mem [OF n]
      by (intro exI [of _ "ScanPast n"]) (auto simp: reverse_outcome_def)
  qed
qed

lemma records_before_block:
  assumes "table_ok t" "i < data_block_count t" "r \<in> set (db_records (file_blocks t ! i))"
    "b \<in> set (take i (file_blocks t))" "x \<in> set (db_records b)"
  shows "user_key (fst x) \<le> user_key (fst r)"
proof -
  obtain j where j: "j < i" "b = file_blocks t ! j"
    using assms(2,4) table_ok_lengths [OF assms(1)] by (auto simp: in_set_conv_nth)
  have "file_blocks t ! i \<in> set (drop (Suc j) (file_blocks t))"
    using j(1) assms(2) table_ok_lengths [OF assms(1)]
    by (auto simp: in_set_conv_nth intro!: exI [of _ "i - Suc j"])
  then have "r \<in> set (records_from t (Suc j))" using assms(3) by (auto simp: records_from_def)
  then show ?thesis
    using records_after_block [OF assms(1), of j x r] j assms(2,5) by simp
qed

lemma reverse_block_state_total:
  "table_ok (tc_table c) \<Longrightarrow> i < data_block_count (tc_table c) \<Longrightarrow> \<exists>state. reverse_block_state c i = Inr state"
  by (simp add: reverse_block_state_def with_data_block_metadata_Ok)

lemma reverse_block_state_skip:
  assumes ok: "table_ok (tc_table c)" and i: "i < data_block_count (tc_table c)"
    and skip: "reverse_block_state c i = Inr CursorSkip"
  shows "\<forall>r\<in>set (db_records (file_blocks (tc_table c) ! i)). \<not> selects (tc_selector c) (user_key (fst r))"
proof (intro ballI)
  fix r assume r: "r \<in> set (db_records (file_blocks (tc_table c) ! i))"
  let ?e = "table_index (tc_table c) ! i"
  have d: "describes ?e (file_blocks (tc_table c) ! i)" by (rule table_ok_describes [OF ok i])
  have le: "user_key (smallest_internal_key ?e) \<le> user_key (fst r)" using describes_user_keys(1) [OF d r] .
  show "\<not> selects (tc_selector c) (user_key (fst r))"
  proof (cases "tc_selector c")
    case (RangeSelector rng)
    then have "key_is_after_end (user_key (smallest_internal_key ?e)) (kr_end rng)"
      using skip by (auto simp: reverse_block_state_def with_data_block_metadata_Ok [OF ok i] overlaps_range_def
          split: if_splits)
    then have "key_is_after_end (user_key (fst r)) (kr_end rng)" using after_end_mono le by blast
    then show ?thesis using RangeSelector by (simp add: selects_def key_is_in_range_def)
  next
    case (PrefixSelector p)
    then consider "\<not> starts_with (user_key (smallest_internal_key ?e)) p" "p < user_key (smallest_internal_key ?e)" |
      "\<not> fst (block_prefix_filter_allows ?e p (tc_prefix_extractor c))"
      using skip by (auto simp: reverse_block_state_def with_data_block_metadata_Ok [OF ok i] prefix_block_state_def
          prefix_bounds_may_overlap_def split: if_splits)
    then show ?thesis
    proof cases
      case 1
      then have "forward_key_state (PrefixSelector p) (user_key (smallest_internal_key ?e)) = ForwardAfter" by simp
      then show ?thesis using PrefixSelector after_stays_after [OF _ le] by simp
    next
      case 2
      then show ?thesis using PrefixSelector prefix_filter_skip [OF d 2 r] selects_prefix by simp
    qed
  qed
qed

lemma reverse_block_state_done:
  assumes ok: "table_ok (tc_table c)" and i: "i < data_block_count (tc_table c)"
    and fin: "reverse_block_state c i = Inr CursorDone"
    and r: "user_key (fst r) \<le> user_key (largest_internal_key (table_index (tc_table c) ! i))"
  shows "\<not> selects (tc_selector c) (user_key (fst r))"
proof (cases "tc_selector c")
  case (RangeSelector rng)
  then have "key_is_before_start (user_key (largest_internal_key (table_index (tc_table c) ! i))) (kr_start rng)"
    using fin by (auto simp: reverse_block_state_def with_data_block_metadata_Ok [OF ok i] split: if_splits)
  then have "key_is_before_start (user_key (fst r)) (kr_start rng)" using before_start_mono [OF r] by simp
  then show ?thesis using RangeSelector by (simp add: selects_def key_is_in_range_def)
next
  case (PrefixSelector p)
  then have "user_key (largest_internal_key (table_index (tc_table c) ! i)) < p"
    using fin by (auto simp: reverse_block_state_def with_data_block_metadata_Ok [OF ok i] prefix_block_state_def
        split: if_splits)
  then have "user_key (fst r) < p" using r by order
  then show ?thesis using PrefixSelector starts_with_le selects_prefix by (metis not_less)
qed

lemma reverse_part_empty:
  "\<forall>r\<in>set (db_records b). \<not> selects (tc_selector c) (user_key (fst r)) \<Longrightarrow> reverse_part c b = []"
  by (auto simp: reverse_part_def filter_empty_conv)

lemma reverse_parts_before:
  assumes "table_ok (tc_table c)" "i < data_block_count (tc_table c)"
    "r \<in> set (db_records (file_blocks (tc_table c) ! i))"
    "\<And>k. k \<le> user_key (fst r) \<Longrightarrow> \<not> selects (tc_selector c) k"
  shows "concat (map (reverse_part c) (rev (take i (file_blocks (tc_table c))))) = []"
proof -
  have "reverse_part c b = []" if b: "b \<in> set (take i (file_blocks (tc_table c)))" for b
    using records_before_block [OF assms(1-3) b] assms(4) by (intro reverse_part_empty) blast
  then show ?thesis by simp
qed

lemma rev_take_Suc: "k < length xs \<Longrightarrow> rev (take (Suc k) xs) = xs ! k # rev (take k xs)"
  by (simp add: take_Suc_conv_app_nth)

lemma move_to_previous_block_stream:
  assumes "tc_shape c" "tc_block_index c = Some i" "tc_direction c = Reverse" "\<not> tc_exhausted c"
  shows "tc_shape (move_to_previous_block c)"
    "tc_stream (move_to_previous_block c) = concat (map (reverse_part c) (rev (take i (file_blocks (tc_table c)))))"
proof -
  note b = tc_shape_block [OF assms(1,2)]
  show "tc_shape (move_to_previous_block c)"
    using b(1,2) assms(2) by (auto simp: tc_shape_def move_to_previous_block_def checked_sub_usize_def)
  have part: "reverse_part (move_to_previous_block c) = reverse_part c"
    using tc_static_eqD(7) [of "move_to_previous_block c" c] by simp
  have unloaded: "\<not> current_block_is (move_to_previous_block c) j" for j
    using assms(2) by (simp add: current_block_is_def move_to_previous_block_def)
  show "tc_stream (move_to_previous_block c) = concat (map (reverse_part c) (rev (take i (file_blocks (tc_table c)))))"
  proof (cases i)
    case 0
    then have "tc_block_index (move_to_previous_block c) = None"
      using assms by (simp add: move_to_previous_block_def checked_sub_usize_def)
    then show ?thesis using 0 by (simp add: tc_stream_def)
  next
    case (Suc k)
    then have "tc_block_index (move_to_previous_block c) = Some k" "\<not> tc_exhausted (move_to_previous_block c)"
      using assms by (simp_all add: move_to_previous_block_def checked_sub_usize_def)
    then show ?thesis
      using Suc b(3) assms(3) unloaded part by (simp add: tc_stream_def Let_def rev_take_Suc)
  qed
qed

lemma ensure_current_block_reverse:
  assumes "tc_shape c" "tc_block_index c = Some i" "tc_direction c = Reverse" "\<not> tc_exhausted c"
  shows "\<exists>c'. ensure_current_block c i = Inr c' \<and> tc_shape c' \<and> tc_static c' = tc_static c \<and>
    tc_block_index c' = Some i \<and> \<not> tc_exhausted c' \<and> tc_current_block c' = Some (i, file_blocks (tc_table c) ! i) \<and>
    tc_stream c' = tc_stream c"
proof (cases "current_block_is c i")
  case True
  then have "tc_current_block c = Some (i, file_blocks (tc_table c) ! i)"
    using assms(1) by (auto simp: current_block_is_def tc_shape_def split: option.splits)
  then show ?thesis using True assms by (simp add: ensure_current_block_def)
next
  case False
  note b = tc_shape_block [OF assms(1,2)]
  let ?b = "file_blocks (tc_table c) ! i"
  let ?c = "c\<lparr>tc_record_index := length (db_records ?b), tc_current_block := Some (i, ?b)\<rparr>"
  have "ensure_current_block c i = Inr ?c"
    using False assms(3) load_data_block_Ok [OF b(1,2)] by (simp add: ensure_current_block_def)
  moreover have "tc_shape ?c" using assms(1,2) b(2) by (simp add: tc_shape_def)
  moreover have "tc_stream ?c = tc_stream c"
    using assms(2-4) False tc_static_eqD(7) [of ?c c]
    by (simp add: tc_stream_def current_block_is_def [of ?c] reverse_part_def Let_def)
  ultimately show ?thesis using assms(2,4) by (intro exI [of _ ?c]) simp
qed

lemma reverse_outcome_takes_head:
  assumes shape: "tc_shape d" "tc_block_index d = Some i" and bwd: "tc_direction d = Reverse" "\<not> tc_exhausted d"
    and cur: "tc_current_block d = Some (i, file_blocks (tc_table d) ! i)"
    and out: "reverse_outcome (tc_selector d) (db_records (file_blocks (tc_table d) ! i)) (tc_record_index d) scan"
    and rest: "scan = ScanEnd \<Longrightarrow> tc_shape (move_to_previous_block d) \<Longrightarrow> tc_direction (move_to_previous_block d) = Reverse \<Longrightarrow>
      takes_head (move_to_previous_block d) (next_record_reverse (move_to_previous_block d))"
  shows "takes_head d (case scan of
       ScanFound r n \<Rightarrow> Ok (Some r, d\<lparr>tc_record_index := n\<rparr>)
     | ScanPast n \<Rightarrow> Ok (None, d\<lparr>tc_record_index := n, tc_exhausted := True\<rparr>)
     | ScanEnd \<Rightarrow> next_record_reverse (move_to_previous_block d))"
proof -
  let ?rs = "db_records (file_blocks (tc_table d) ! i)"
  let ?later = "concat (map (reverse_part d) (rev (take i (file_blocks (tc_table d)))))"
  note b = tc_shape_block [OF shape]
  have is_cur: "current_block_is d i" using cur by (simp add: current_block_is_def)
  have le: "tc_record_index d \<le> length ?rs" using shape cur by (simp add: tc_shape_def)
  have stream: "tc_stream d = rev (selected (tc_selector d) (take (tc_record_index d) ?rs)) @ ?later"
    using shape(2) bwd is_cur by (simp add: tc_stream_def Let_def)
  show ?thesis
  proof (cases scan)
    case (ScanFound r n)
    let ?d = "d\<lparr>tc_record_index := n\<rparr>"
    have n: "n \<le> tc_record_index d"
      "rev (selected (tc_selector d) (take (tc_record_index d) ?rs)) = r # rev (selected (tc_selector d) (take n ?rs))"
      using out ScanFound by (simp_all add: reverse_outcome_def)
    have "tc_stream ?d = rev (selected (tc_selector d) (take n ?rs)) @ ?later"
      using shape(2) bwd is_cur tc_static_eqD(7) [of ?d d] by (simp add: tc_stream_def current_block_is_def Let_def)
    moreover have "tc_shape ?d" using shape cur n(1) le by (simp add: tc_shape_def)
    ultimately show ?thesis using ScanFound stream n(2) by (simp add: takes_head_def)
  next
    case (ScanPast n)
    let ?d = "d\<lparr>tc_record_index := n, tc_exhausted := True\<rparr>"
    obtain r where r: "r \<in> set ?rs" "reverse_key_state (tc_selector d) (user_key (fst r)) = ReverseBelow"
      and none: "selected (tc_selector d) (take (tc_record_index d) ?rs) = []" "n \<le> tc_record_index d"
      using out ScanPast by (auto simp: reverse_outcome_def)
    have "?later = []" by (rule reverse_parts_before [OF b(1,2) r(1) below_stays_below [OF r(2)]])
    then have "tc_stream d = []" using stream none(1) by simp
    moreover have "tc_shape ?d" using shape cur none(2) le by (simp add: tc_shape_def)
    ultimately show ?thesis using ScanPast by (simp add: takes_head_exhausted tc_stream_def [of ?d])
  next
    case ScanEnd
    have "tc_stream d = tc_stream (move_to_previous_block d)"
      using move_to_previous_block_stream(2) [OF shape bwd] stream out ScanEnd by (simp add: reverse_outcome_def)
    then show ?thesis
      using rest [OF ScanEnd move_to_previous_block_stream(1) [OF shape bwd]] takes_head_same_stream bwd(1) ScanEnd by simp
  qed
qed

lemma next_record_reverse_takes_head:
  "tc_shape c \<Longrightarrow> tc_direction c = Reverse \<Longrightarrow> takes_head c (next_record_reverse c)"
proof (induction c rule: next_record_reverse.induct)
  case (1 c)
  show ?case
  proof (cases "tc_exhausted c \<or> tc_block_index c = None")
    case True
    then have "next_record_reverse c = Inr (None, c)" by (subst next_record_reverse.simps) auto
    moreover have "tc_stream c = []" using True by (auto simp: tc_stream_def)
    ultimately show ?thesis using 1(3) takes_head_exhausted by simp
  next
    case False
    then obtain i where i: "\<not> tc_exhausted c" "tc_block_index c = Some i" by auto
    note b = tc_shape_block [OF 1(3) i(2)]
    note move = move_to_previous_block_stream [OF 1(3) i(2) 1(4) i(1)]
    obtain state where state: "(if current_block_is c i then Ok CursorScan else reverse_block_state c i) = Inr state"
      using reverse_block_state_total [OF b(1,2)] by (cases "current_block_is c i") auto
    note eval = next_record_reverse.simps [of c] i state
    show ?thesis
    proof (cases state)
      case CursorSkip
      then have unloaded: "\<not> current_block_is c i" and skip: "reverse_block_state c i = Inr CursorSkip"
        using state by (simp_all split: if_splits)
      have "tc_stream c = tc_stream (move_to_previous_block c)"
        using reverse_part_empty reverse_block_state_skip [OF b(1,2) skip] unloaded i 1(4) move(2)
        by (simp add: tc_stream_def)
      then show ?thesis
        using takes_head_same_stream [OF 1(2) [OF i state CursorSkip move(1)]] 1(4) by (simp add: eval CursorSkip)
    next
      case CursorDone
      then have unloaded: "\<not> current_block_is c i" and fin: "reverse_block_state c i = Inr CursorDone"
        using state by (simp_all split: if_splits)
      note below = reverse_block_state_done [OF b(1,2) fin]
      note d = table_ok_describes [OF b(1,2)]
      obtain r where r: "r \<in> set (db_records (file_blocks (tc_table c) ! i))"
        using b(5) by (cases "db_records (file_blocks (tc_table c) ! i)") auto
      have "\<not> selects (tc_selector c) k" if "k \<le> user_key (fst r)" for k
        using below [of "(InternalKey k 0 Put 0, None)"] that describes_user_keys(2) [OF d r] by simp
      then have "concat (map (reverse_part c) (rev (take i (file_blocks (tc_table c))))) = []"
        by (rule reverse_parts_before [OF b(1,2) r])
      moreover have "reverse_part c (file_blocks (tc_table c) ! i) = []"
        using below describes_user_keys(2) [OF d] by (intro reverse_part_empty) blast
      ultimately have "tc_stream c = []" using unloaded i 1(4) by (simp add: tc_stream_def)
      then show ?thesis
        using 1(3) by (simp add: eval CursorDone takes_head_exhausted tc_stream_def [of "c\<lparr>tc_exhausted := True\<rparr>"])
    next
      case CursorScan
      obtain d where d: "ensure_current_block c i = Inr d" "tc_shape d" "tc_static d = tc_static c"
        "tc_block_index d = Some i" "\<not> tc_exhausted d" "tc_current_block d = Some (i, file_blocks (tc_table c) ! i)"
        "tc_stream d = tc_stream c"
        using ensure_current_block_reverse [OF 1(3) i(2) 1(4) i(1)] by blast
      note f = tc_static_eqD [OF d(3)]
      have le: "tc_record_index d \<le> length (db_records (file_blocks (tc_table d) ! i))"
        using d(2,6) by (auto simp: tc_shape_def)
      obtain scan where scan: "scan_current_block_reverse d = Inr scan"
        "reverse_outcome (tc_selector d) (db_records (file_blocks (tc_table d) ! i)) (tc_record_index d) scan"
        using scan_records_reverse_eq [OF tc_shape_block(4) [OF d(2,4)] le] d(6) f(1)
        by (auto simp: scan_current_block_reverse_def)
      have bwd: "tc_direction d = Reverse" using f(3) 1(4) by simp
      have "takes_head d (case scan of
           ScanFound r n \<Rightarrow> Ok (Some r, d\<lparr>tc_record_index := n\<rparr>)
         | ScanPast n \<Rightarrow> Ok (None, d\<lparr>tc_record_index := n, tc_exhausted := True\<rparr>)
         | ScanEnd \<Rightarrow> next_record_reverse (move_to_previous_block d))"
        using reverse_outcome_takes_head [OF d(2,4) bwd d(5) _ scan(2)] d(6) f(1)
          1(1) [OF i state CursorScan d(1) scan(1)] by auto
      then show ?thesis
        using takes_head_same_stream [OF _ d(7,3)] by (simp add: eval CursorScan d(1) scan(1))
    qed
  qed
qed

lemma next_record_takes_head: "tc_shape c \<Longrightarrow> takes_head c (next_record c)"
  using next_record_forward_takes_head [of c] next_record_reverse_takes_head [of c]
  by (cases "tc_direction c") (simp_all add: next_record_def)

section \<open>The table cursor is a source of groups\<close>

text \<open>The record that the last call read ahead comes first.\<close>

definition tc_remaining :: "table_point_cursor \<Rightarrow> point_record list" where
  "tc_remaining c = (case tc_pending c of None \<Rightarrow> [] | Some r \<Rightarrow> [r]) @ tc_stream c"

definition tc_ok :: "table_point_cursor \<Rightarrow> bool" where
  "tc_ok c \<longleftrightarrow> tc_shape c \<and> key_ordered (tc_direction c) (tc_remaining c)"

lemma pending_update [simp]:
  "tc_shape (c\<lparr>tc_pending := p\<rparr>) = tc_shape c" "tc_stream (c\<lparr>tc_pending := p\<rparr>) = tc_stream c"
proof -
  show "tc_shape (c\<lparr>tc_pending := p\<rparr>) = tc_shape c"
    by (cases "tc_current_block c") (auto simp: tc_shape_def)
  have "forward_part (c\<lparr>tc_pending := p\<rparr>) = forward_part c" "reverse_part (c\<lparr>tc_pending := p\<rparr>) = reverse_part c"
    by (intro ext, simp add: forward_part_def reverse_part_def entry_index_def)+
  then show "tc_stream (c\<lparr>tc_pending := p\<rparr>) = tc_stream c"
    by (cases "tc_direction c") (simp_all add: tc_stream_def current_block_is_def Let_def split: option.split)
qed

lemma collect_rest_eq:
  assumes "tc_shape c" "tc_pending c = None"
  shows "\<exists>c'. collect_rest c key rest = Inr (rest @ takeWhile (\<lambda>r. user_key (fst r) = key) (tc_stream c), c') \<and>
    tc_shape c' \<and> tc_direction c' = tc_direction c \<and>
    tc_remaining c' = dropWhile (\<lambda>r. user_key (fst r) = key) (tc_stream c)"
  using assms
proof (induction "tc_stream c" arbitrary: c rest)
  case Nil
  obtain c' where c': "next_record c = Inr (None, c')" "tc_shape c'" "tc_static c' = tc_static c" "tc_stream c' = []"
    using next_record_takes_head [OF Nil(2)] Nil(1) [symmetric] by (auto simp: takes_head_def)
  then show ?case
    using Nil(1,3) tc_static_eqD [OF c'(3)] by (subst collect_rest.simps) (simp add: tc_remaining_def)
next
  case (Cons r rs)
  obtain c' where c': "next_record c = Inr (Some r, c')" "tc_shape c'" "tc_static c' = tc_static c" "tc_stream c' = rs"
    using next_record_takes_head [OF Cons(3)] Cons(2) [symmetric] by (auto simp: takes_head_def)
  note f = tc_static_eqD [OF c'(3)]
  show ?case
  proof (cases "user_key (fst r) = key")
    case True
    have "tc_pending c' = None" using f(5) Cons(4) by simp
    from Cons(1) [OF c'(4) [symmetric] c'(2) this, of "rest @ [r]"]
    show ?thesis using True c' f(3) Cons(2) [symmetric] by (subst collect_rest.simps) simp
  next
    case False
    then show ?thesis
      using c' f Cons(2) [symmetric] by (subst collect_rest.simps) (simp add: tc_remaining_def)
  qed
qed

lemma first_record_eq:
  assumes "tc_shape c"
  shows "\<exists>c'. (case tc_pending c of Some r \<Rightarrow> Ok (Some r, c\<lparr>tc_pending := None\<rparr>) | None \<Rightarrow> next_record c) =
      Inr (case tc_remaining c of [] \<Rightarrow> None | r # _ \<Rightarrow> Some r, c') \<and>
    tc_shape c' \<and> tc_pending c' = None \<and> tc_direction c' = tc_direction c \<and> tc_stream c' = tl (tc_remaining c)"
proof (cases "tc_pending c")
  case None
  obtain c' where c': "next_record c = Inr (case tc_stream c of [] \<Rightarrow> None | r # _ \<Rightarrow> Some r, c')"
    "tc_shape c'" "tc_static c' = tc_static c" "tc_stream c' = tl (tc_stream c)"
    using next_record_takes_head [OF assms] by (auto simp: takes_head_def)
  then show ?thesis using None tc_static_eqD [OF c'(3)] by (simp add: tc_remaining_def)
qed (use assms in \<open>simp add: tc_remaining_def\<close>)

lemma table_next_group_eq:
  assumes "tc_shape c"
  shows "case tc_remaining c of
      [] \<Rightarrow> \<exists>c'. table_next_group c = Inr (None, c') \<and> tc_shape c' \<and> tc_remaining c' = [] \<and> tc_direction c' = tc_direction c
    | r # rs \<Rightarrow> \<exists>c'. table_next_group c =
          Inr (Some (record_group_from_records (user_key (fst r)) (r # takeWhile (same_key r) rs)), c') \<and>
        tc_shape c' \<and> tc_remaining c' = dropWhile (same_key r) rs \<and> tc_direction c' = tc_direction c"
proof -
  obtain c' where c': "(case tc_pending c of Some r \<Rightarrow> Ok (Some r, c\<lparr>tc_pending := None\<rparr>) | None \<Rightarrow> next_record c) =
      Inr (case tc_remaining c of [] \<Rightarrow> None | r # _ \<Rightarrow> Some r, c')"
    "tc_shape c'" "tc_pending c' = None" "tc_direction c' = tc_direction c" "tc_stream c' = tl (tc_remaining c)"
    using first_record_eq [OF assms] by blast
  show ?thesis
  proof (cases "tc_remaining c")
    case Nil
    then show ?thesis using c' by (simp add: table_next_group_def tc_remaining_def [of c'])
  next
    case (Cons r rs)
    obtain c'' where "collect_rest c' (user_key (fst r)) [] = Inr (takeWhile (same_key r) rs, c'')"
      "tc_shape c''" "tc_direction c'' = tc_direction c'" "tc_remaining c'' = dropWhile (same_key r) rs"
      using collect_rest_eq [OF c'(2,3), of "user_key (fst r)" "[]"] c'(5) Cons
      by (auto simp: same_key_def [abs_def])
    then show ?thesis
      using c'(1,4) Cons
      by (simp add: table_next_group_def record_group_from_first_and_rest_def record_group_from_records_def)
  qed
qed

interpretation tcur: group_source tc_ok tc_direction "\<lambda>c. groups (tc_remaining c)" table_next_group
proof
  fix c assume "tc_ok c" "groups (tc_remaining c) = []"
  then show "\<exists>c'. table_next_group c = Inr (None, c') \<and> tc_ok c' \<and> groups (tc_remaining c') = [] \<and>
      tc_direction c' = tc_direction c"
    using table_next_group_eq [of c] by (auto simp: tc_ok_def key_ordered_def)
next
  fix c g gs assume ok: "tc_ok c" and g: "groups (tc_remaining c) = g # gs"
  then obtain r rs where r: "tc_remaining c = r # rs" by (cases "tc_remaining c") auto
  have "key_ordered (tc_direction c) (dropWhile (same_key r) rs)"
    using ok r key_ordered_dropWhile [of "tc_direction c" r rs "same_key r"] by (simp add: tc_ok_def)
  then show "\<exists>c'. table_next_group c = Inr (Some g, c') \<and> tc_ok c' \<and> groups (tc_remaining c') = gs \<and>
      tc_direction c' = tc_direction c"
    using table_next_group_eq [of c] ok g r by (auto simp: tc_ok_def)
next
  fix c assume "tc_ok c"
  then show "ordered_groups (tc_direction c) (groups (tc_remaining c))"
    using ordered_groups_groups by (simp add: tc_ok_def)
qed

end
