(* ===== verification/Cursor_Contents.thy ===== *)
theory Cursor_Contents
  imports Table_Cursor
begin

text \<open>What a new table cursor (\<open>TablePointCursor::new\<close> of \<open>table/cursor.rs\<close>) delivers.  In reverse
  direction it delivers every record of the table that the scan selects; in forward direction the seek
  for the first key may step over versions of exactly that key.\<close>


text \<open>Where partition \<open>p\<close> of the index begins and ends.\<close>

lemma partition_span:
  assumes ok: "table_ok t" and p: "p < length (index_partitions t)"
  defines "n \<equiv> INDEX_PARTITION_TARGET_ENTRIES"
  defines "l \<equiv> ip_data_block_count (index_partitions t ! p)"
  shows "first_data_block_index (index_partitions t ! p) = p * n" "0 < l" "p * n + l \<le> data_block_count t"
    "ip_smallest_internal_key (index_partitions t ! p) = smallest_internal_key (table_index t ! (p * n))"
    "ip_largest_internal_key (index_partitions t ! p) = largest_internal_key (table_index t ! (p * n + l - 1))"
    "\<And>j. p * n \<le> j \<Longrightarrow> j < data_block_count t \<Longrightarrow> j < Suc p * n \<Longrightarrow> j < p * n + l" "l \<le> n"
proof -
  let ?c = "file_partitions t ! p"
  have p': "p < length (file_partitions t)" using p table_partitions(1) [OF ok] by simp
  note part = table_partitions(2,3) [OF ok p']
  have fp: "file_partitions t = chunks n (table_index t)" using ok by (simp add: table_ok_def n_def)
  have n0: "0 < n" by (simp add: n_def)
  have c: "?c = take n (drop (p * n) (table_index t))"
    using nth_chunks(2) [OF n0, of p "table_index t"] p' by (simp add: fp)
  have l: "l = length ?c" using part(1) by (simp add: l_def)
  have len: "length (table_index t) = data_block_count t" using table_ok_lengths [OF ok] by simp
  show "first_data_block_index (index_partitions t ! p) = p * n" using part(1) by (simp add: n_def)
  show l0: "0 < l" using l part(2) by simp
  have lc: "l = min n (data_block_count t - p * n)" using l c len by simp
  show "p * n + l \<le> data_block_count t" using lc l0 by linarith
  show "ip_smallest_internal_key (index_partitions t ! p) = smallest_internal_key (table_index t ! (p * n))"
    using part c lc l0 len n0 by (simp add: hd_conv_nth)
  have "last ?c = ?c ! (l - 1)" using part(2) l by (simp add: last_conv_nth)
  also have "\<dots> = table_index t ! (p * n + (l - 1))"
  proof -
    have "l - 1 < n" "p * n \<le> length (table_index t)" using lc l0 len by linarith+
    then show ?thesis unfolding c by simp
  qed
  finally show "ip_largest_internal_key (index_partitions t ! p) = largest_internal_key (table_index t ! (p * n + l - 1))"
    using part(1) l0 by simp
  show "j < p * n + l" if "p * n \<le> j" "j < data_block_count t" "j < Suc p * n" for j
    using that lc by auto
  show "l \<le> n" using lc by simp
qed

lemma partition_of_block:
  assumes "table_ok t" "j < data_block_count t"
  shows "j div INDEX_PARTITION_TARGET_ENTRIES < length (index_partitions t)"
proof -
  have fp: "file_partitions t = chunks INDEX_PARTITION_TARGET_ENTRIES (table_index t)"
    using assms(1) by (simp add: table_ok_def)
  then show ?thesis
    using nth_nth_chunks(1) [OF INDEX_PARTITION_pos, of j "table_index t"] table_ok_lengths [OF assms(1)] assms(2)
      table_partitions(1) [OF assms(1)] by simp
qed

lemma table_index_mono:
  assumes "table_ok t" "i \<le> j" "j < data_block_count t"
  shows "user_key (smallest_internal_key (table_index t ! i)) \<le> user_key (smallest_internal_key (table_index t ! j))"
    "user_key (largest_internal_key (table_index t ! i)) \<le> user_key (largest_internal_key (table_index t ! j))"
proof -
  have i: "i < data_block_count t" using assms by simp
  have "smallest_internal_key (table_index t ! i) \<le> smallest_internal_key (table_index t ! j)"
    "largest_internal_key (table_index t ! i) \<le> largest_internal_key (table_index t ! j)"
    using table_index_ordered [OF assms(1), of i j] table_index_entry_bounds [OF assms(1) i]
      table_index_entry_bounds [OF assms(1,3)] assms(2,3)
    by (cases "i = j"; simp; order)+
  then show "user_key (smallest_internal_key (table_index t ! i)) \<le> user_key (smallest_internal_key (table_index t ! j))"
    "user_key (largest_internal_key (table_index t ! i)) \<le> user_key (largest_internal_key (table_index t ! j))"
    by (auto intro: user_key_mono)
qed

lemma index_partitions_sorted:
  assumes ok: "table_ok t"
  shows "sorted_wrt (\<lambda>a b. user_key (ip_smallest_internal_key a) \<le> user_key (ip_smallest_internal_key b) \<and>
    user_key (ip_largest_internal_key a) \<le> user_key (ip_largest_internal_key b)) (index_partitions t)"
  unfolding sorted_wrt_iff_nth_less
proof (intro allI impI)
  fix i j assume ij: "i < j" "j < length (index_partitions t)"
  let ?n = INDEX_PARTITION_TARGET_ENTRIES
  let ?li = "ip_data_block_count (index_partitions t ! i)" and ?lj = "ip_data_block_count (index_partitions t ! j)"
  note pi = partition_span [OF ok, of i] and pj = partition_span [OF ok ij(2)]
  have i: "i < length (index_partitions t)" using ij by simp
  have step: "Suc i * ?n \<le> j * ?n" using ij(1) by (intro mult_le_mono1) simp
  then have jn: "j * ?n < data_block_count t" using pj(2,3) by linarith
  have "i * ?n + ?li \<le> j * ?n" using pi(7) [OF i] step by simp
  then show "user_key (ip_smallest_internal_key (index_partitions t ! i)) \<le> user_key (ip_smallest_internal_key (index_partitions t ! j)) \<and>
    user_key (ip_largest_internal_key (index_partitions t ! i)) \<le> user_key (ip_largest_internal_key (index_partitions t ! j))"
    using pi(2,4,5) [OF i] pj(2-5) step ij(1)
    by (auto intro!: table_index_mono [OF ok])
qed

lemma first_block_candidate_eq:
  assumes ok: "table_ok t" and mono: "down_closed before"
  shows "\<exists>i\<le>data_block_count t. first_block_candidate t policy before = (if i < data_block_count t then Some i else None) \<and>
    (\<forall>j<i. before (user_key (largest_internal_key (table_index t ! j))))"
proof -
  let ?n = INDEX_PARTITION_TARGET_ENTRIES
  let ?P = "\<lambda>p. before (user_key (ip_largest_internal_key p))"
  let ?k = "partition_point ?P (index_partitions t)"
  have part: "partitioned ?P (index_partitions t)"
    by (rule partitioned_sorted_wrt [OF index_partitions_sorted [OF ok]]) (use mono in \<open>auto simp: down_closed_def\<close>)
  have cand: "first_block_candidate t policy before =
      map_option first_data_block_index (nth_opt (index_partitions t) ?k)"
    using ok partition_point_by_nth [OF part, of policy] by (simp add: first_block_candidate_def table_ok_def Let_def)
  have before: "before (user_key (largest_internal_key (table_index t ! j)))"
    if j: "j < data_block_count t" "j div ?n < ?k" for j
  proof -
    let ?p = "j div ?n"
    have p: "?p < length (index_partitions t)" by (rule partition_of_block [OF ok j(1)])
    note span = partition_span [OF ok p]
    have "?P (index_partitions t ! ?p)" using partition_point_partitioned [OF part p] j(2) by simp
    moreover have "j < ?p * ?n + ip_data_block_count (index_partitions t ! ?p)"
      using j(1) by (intro span(6)) (simp_all add: dividend_less_div_times div_times_less_eq_dividend)
    ultimately show ?thesis
      using mono table_index_mono(2) [OF ok, of j "?p * ?n + ip_data_block_count (index_partitions t ! ?p) - 1"]
        span(2,3,5) unfolding down_closed_def by fastforce
  qed
  show ?thesis
  proof (cases "?k < length (index_partitions t)")
    case True
    note span = partition_span [OF ok True]
    have "?k * ?n < data_block_count t" using span(2,3) by linarith
    moreover have "j div ?n < ?k" if "j < ?k * ?n" for j using that by (simp add: less_mult_imp_div_less)
    ultimately show ?thesis
      using True cand span(1) before by (intro exI [of _ "?k * ?n"]) (auto simp: nth_opt_def)
  next
    case False
    then have "j div ?n < ?k" if "j < data_block_count t" for j using partition_of_block [OF ok that] by simp
    then show ?thesis
      using False cand before by (intro exI [of _ "data_block_count t"]) (auto simp: nth_opt_def)
  qed
qed

lemma last_block_candidate_eq:
  assumes ok: "table_ok t"
  shows "case last_block_candidate_for_range t rng policy of
      None \<Rightarrow> (\<forall>j<data_block_count t. key_is_after_end (user_key (smallest_internal_key (table_index t ! j))) (kr_end rng))
    | Some i \<Rightarrow> i < data_block_count t \<and>
        (\<forall>j<data_block_count t. i < j \<longrightarrow> key_is_after_end (user_key (smallest_internal_key (table_index t ! j))) (kr_end rng))"
proof -
  let ?n = INDEX_PARTITION_TARGET_ENTRIES
  let ?P = "\<lambda>p. \<not> key_is_after_end (user_key (ip_smallest_internal_key p)) (kr_end rng)"
  let ?k = "partition_point ?P (index_partitions t)"
  have part: "partitioned ?P (index_partitions t)"
    by (rule partitioned_sorted_wrt [OF index_partitions_sorted [OF ok]]) (use after_end_mono in blast)
  have k: "partition_point_by (length (index_partitions t)) policy (\<lambda>i. ?P (index_partitions t ! i)) = ?k"
    by (rule partition_point_by_nth [OF part])
  have db: "data_blocks t = None" using ok by (simp add: table_ok_def)
  have after: "key_is_after_end (user_key (smallest_internal_key (table_index t ! j))) (kr_end rng)"
    if j: "j < data_block_count t" "?k \<le> j div ?n" for j
  proof -
    let ?p = "j div ?n"
    have p: "?p < length (index_partitions t)" by (rule partition_of_block [OF ok j(1)])
    have "\<not> ?P (index_partitions t ! ?p)" using partition_point_partitioned [OF part p] j(2) by simp
    moreover have "user_key (smallest_internal_key (table_index t ! (?p * ?n))) \<le> user_key (smallest_internal_key (table_index t ! j))"
      by (rule table_index_mono(1) [OF ok _ j(1)]) (simp add: div_times_less_eq_dividend)
    ultimately show ?thesis using partition_span(4) [OF ok p] after_end_mono by auto
  qed
  show ?thesis
  proof (cases ?k)
    case 0
    then show ?thesis using after db k by (simp add: last_block_candidate_for_range_def checked_sub_usize_def)
  next
    case (Suc q)
    then have q: "q < length (index_partitions t)" using partition_point_le [of ?P "index_partitions t"] by simp
    note span = partition_span [OF ok q]
    let ?e = "q * ?n + ip_data_block_count (index_partitions t ! q)"
    have cand: "last_block_candidate_for_range t rng policy = Some (?e - 1)"
      using Suc db k span(1-3) table_ok_lengths(3) [OF ok]
      by (simp add: last_block_candidate_for_range_def checked_sub_usize_def checked_add_usize_def)
    have "?k \<le> j div ?n" if "j < data_block_count t" "?e - 1 < j" for j
    proof (rule ccontr)
      assume "\<not> ?k \<le> j div ?n"
      then have "j div ?n \<le> q" using Suc by simp
      then have "j < Suc q * ?n" by (metis INDEX_PARTITION_pos less_mult_imp_div_less not_less div_less_iff_less_mult le_imp_less_Suc)
      moreover have "q * ?n \<le> j" using that(2) span(2) by linarith
      ultimately have "j < ?e" using span(6) that(1) by blast
      then show False using that(2) by linarith
    qed
    then show ?thesis using cand after span(2,3) by auto
  qed
qed

lemma sorted_wrt_concat_parts:
  assumes "\<forall>b\<in>set bs. set (f b) \<subseteq> set (g b) \<and> (sorted_wrt P (g b) \<longrightarrow> sorted_wrt P (f b))"
    "sorted_wrt P (concat (map g bs))"
  shows "sorted_wrt P (concat (map f bs))"
  using assms
proof (induction bs)
  case (Cons b bs)
  have "set (concat (map f bs)) \<subseteq> set (concat (map g bs))" using Cons(2) by auto
  then show ?case using Cons by (simp add: sorted_wrt_append) blast
qed simp

lemma table_records_key_ordered: "table_ok t \<Longrightarrow> key_ordered dir (in_direction dir (selected sel (table_records t)))"
  using btree_ok_key_ordered [of "table_records t"] by (simp add: table_ok_def)

text \<open>In reverse direction a cursor delivers every selected record.\<close>

lemma rev_selected_concat:
  "rev (selected (tc_selector c) (concat (map db_records bs))) = concat (map (reverse_part c) (rev bs))"
  by (induction bs) (simp_all add: reverse_part_def)

lemma point_cursor_fields [simp]:
  "tc_table (point_cursor t sel ex dir policy) = t" "tc_selector (point_cursor t sel ex dir policy) = sel"
  "tc_direction (point_cursor t sel ex dir policy) = dir" "tc_pending (point_cursor t sel ex dir policy) = None"
  "tc_exhausted (point_cursor t sel ex dir policy) = False" "tc_current_block (point_cursor t sel ex dir policy) = None"
  "tc_record_index (point_cursor t sel ex dir policy) = 0" "tc_policy (point_cursor t sel ex dir policy) = policy"
  by (simp_all add: point_cursor_def)

lemma point_cursor_reverse:
  assumes ok: "table_ok t"
  shows "tc_ok (point_cursor t sel ex Reverse policy)"
    "tc_remaining (point_cursor t sel ex Reverse policy) = rev (selected sel (table_records t))"
proof -
  let ?c = "point_cursor t sel ex Reverse policy" and ?bs = "file_blocks t"
  have index: "tc_block_index ?c = last_block_candidate_for_range t (selector_query_range sel) policy"
    by (cases sel) (simp_all add: point_cursor_def Let_def)
  have len: "length ?bs = data_block_count t" using table_ok_lengths [OF ok] by simp
  have unloaded: "\<not> current_block_is ?c j" for j by (simp add: current_block_is_def)
  have beyond: "reverse_part ?c (?bs ! j) = []"
    if j: "j < data_block_count t" "key_is_after_end (user_key (smallest_internal_key (table_index t ! j))) (kr_end (selector_query_range sel))" for j
  proof (rule reverse_part_empty, intro ballI)
    fix r assume "r \<in> set (db_records (?bs ! j))"
    then have "user_key (smallest_internal_key (table_index t ! j)) \<le> user_key (fst r)"
      using describes_user_keys(1) [OF table_ok_describes [OF ok j(1)]] by blast
    then show "\<not> selects (tc_selector ?c) (user_key (fst r))"
      using after_end_mono [OF j(2)] by (simp add: selects_def key_is_in_range_def)
  qed
  have all: "rev (selected sel (table_records t)) = concat (map (reverse_part ?c) (rev ?bs))"
    using rev_selected_concat [of ?c ?bs] by (simp add: table_records_def)
  have stream: "tc_stream ?c = rev (selected sel (table_records t)) \<and>
      (\<forall>i. tc_block_index ?c = Some i \<longrightarrow> i < data_block_count t)"
  proof (cases "tc_block_index ?c")
    case None
    then have "\<forall>b\<in>set ?bs. reverse_part ?c b = []"
      using last_block_candidate_eq [OF ok, of "selector_query_range sel" policy] beyond len
      by (auto simp: index in_set_conv_nth)
    then show ?thesis using None all by (simp add: tc_stream_def)
  next
    case (Some i)
    have i: "i < data_block_count t" "\<forall>j<data_block_count t. i < j \<longrightarrow>
        key_is_after_end (user_key (smallest_internal_key (table_index t ! j))) (kr_end (selector_query_range sel))"
      using last_block_candidate_eq [OF ok, of "selector_query_range sel" policy] Some by (simp_all add: index)
    have "\<forall>b\<in>set (drop (Suc i) ?bs). reverse_part ?c b = []"
      using beyond i(2) len by (auto dest!: set_drop_nth)
    then have "concat (map (reverse_part ?c) (rev (drop (Suc i) ?bs))) = []" by simp
    then have "rev (selected sel (table_records t)) = concat (map (reverse_part ?c) (rev (take (Suc i) ?bs)))"
      unfolding all by (metis append_Nil append_take_drop_id concat_append map_append rev_append)
    then show ?thesis
      using Some i(1) unloaded len by (simp add: tc_stream_def Let_def rev_take_Suc)
  qed
  then show r: "tc_remaining ?c = rev (selected sel (table_records t))" by (simp add: tc_remaining_def)
  have "tc_shape ?c" using stream ok by (simp add: tc_shape_def)
  then show "tc_ok ?c" using table_records_key_ordered [OF ok, of Reverse sel] by (simp add: tc_ok_def r)
qed

text \<open>In forward direction it delivers every selected record except, possibly, versions of the key it
  seeks.  None is left out when no restart point but the first of a block is a version of that key.\<close>

definition seek_exact :: "table \<Rightarrow> scan_selector \<Rightarrow> bool" where
  "seek_exact t sel \<longleftrightarrow>
     (\<forall>b\<in>set (file_blocks t). \<forall>i\<in>set (restart_indices b).
        unat i = 0 \<or> seek_key sel \<noteq> Some (user_key (fst (db_records b ! unat i))))"

lemma selects_seek: "seek_key sel = Some key \<Longrightarrow> selects sel k \<Longrightarrow> key \<le> k"
  by (cases sel) (auto simp: selects_def key_is_in_range_def split: bound.splits)

lemma forward_part_complete:
  assumes "block_ok b" "db_records b \<noteq> []"
  shows "\<exists>ds. selected (tc_selector c) (db_records b) = ds @ forward_part c b \<and>
    (\<forall>r\<in>set ds. seek_key (tc_selector c) = Some (user_key (fst r))) \<and>
    ((\<forall>i\<in>set (restart_indices b). unat i = 0 \<or>
        seek_key (tc_selector c) \<noteq> Some (user_key (fst (db_records b ! unat i)))) \<longrightarrow> ds = [])"
proof -
  let ?n = "entry_index c b" and ?sel = "tc_selector c"
  let ?ds = "selected ?sel (take ?n (db_records b))"
  have split: "selected ?sel (db_records b) = ?ds @ forward_part c b"
    by (simp add: forward_part_def flip: filter_append)
  have n: "?n = 0 \<or> (\<exists>key. seek_key ?sel = Some key \<and> (\<exists>i\<in>set (restart_indices b). ?n = unat i) \<and>
      user_key (fst (db_records b ! ?n)) \<le> key \<and>
      (\<forall>e\<in>set (take ?n (db_records b)). user_key (fst e) \<le> user_key (fst (db_records b ! ?n))))"
    using first_record_index_at [OF assms(1), of ?sel "tc_policy c"] entry_index_eq(1) [OF assms, of c] by auto
  show ?thesis
  proof (cases "?n = 0")
    case True
    then show ?thesis using split by (intro exI [of _ "[]"]) simp
  next
    case False
    with n have "\<exists>key. seek_key ?sel = Some key \<and> (\<exists>i\<in>set (restart_indices b). ?n = unat i) \<and>
      user_key (fst (db_records b ! ?n)) \<le> key \<and>
      (\<forall>e\<in>set (take ?n (db_records b)). user_key (fst e) \<le> user_key (fst (db_records b ! ?n)))" by simp
    then obtain key i where key: "seek_key ?sel = Some key" "i \<in> set (restart_indices b)" "?n = unat i"
      "user_key (fst (db_records b ! ?n)) \<le> key"
      "\<forall>e\<in>set (take ?n (db_records b)). user_key (fst e) \<le> user_key (fst (db_records b ! ?n))"
      by (elim exE conjE bexE)
    have eq: "user_key (fst r) = key \<and> user_key (fst (db_records b ! ?n)) = key" if "r \<in> set ?ds" for r
    proof -
      have "user_key (fst r) \<le> user_key (fst (db_records b ! ?n))" "selects ?sel (user_key (fst r))"
        using that key(5) by auto
      then show ?thesis using key(4) selects_seek [OF key(1)] by (meson order.antisym order_trans)
    qed
    have "?ds = []" if "\<forall>i\<in>set (restart_indices b). unat i = 0 \<or>
        seek_key ?sel \<noteq> Some (user_key (fst (db_records b ! unat i)))"
    proof (rule ccontr)
      assume "?ds \<noteq> []"
      then have "user_key (fst (db_records b ! unat i)) = key" using eq [OF list.set_sel(1)] key(3) by simp
      then show False using that [THEN bspec, OF key(2)] key(1,3) False by simp
    qed
    then show ?thesis using split eq key(1) by (intro exI [of _ ?ds]) blast
  qed
qed

definition off_seek :: "scan_selector \<Rightarrow> point_record \<Rightarrow> bool" where
  "off_seek sel r \<longleftrightarrow> seek_key sel \<noteq> Some (user_key (fst r))"

lemma forward_parts_complete:
  assumes "\<forall>b\<in>set bs. block_ok b \<and> db_records b \<noteq> []"
  shows "set (concat (map (forward_part c) bs)) \<subseteq> set (selected (tc_selector c) (concat (map db_records bs)))"
    "filter (off_seek (tc_selector c)) (concat (map (forward_part c) bs)) =
     filter (off_seek (tc_selector c)) (selected (tc_selector c) (concat (map db_records bs)))"
    "\<forall>b\<in>set bs. \<forall>i\<in>set (restart_indices b). unat i = 0 \<or>
        seek_key (tc_selector c) \<noteq> Some (user_key (fst (db_records b ! unat i))) \<Longrightarrow>
     concat (map (forward_part c) bs) = selected (tc_selector c) (concat (map db_records bs))"
proof -
  show "set (concat (map (forward_part c) bs)) \<subseteq> set (selected (tc_selector c) (concat (map db_records bs)))"
    by (auto simp: forward_part_def dest: in_set_dropD)
  show "filter (off_seek (tc_selector c)) (concat (map (forward_part c) bs)) =
     filter (off_seek (tc_selector c)) (selected (tc_selector c) (concat (map db_records bs)))"
    using assms
  proof (induction bs)
    case (Cons b bs)
    obtain ds where ds: "selected (tc_selector c) (db_records b) = ds @ forward_part c b"
      "\<forall>r\<in>set ds. seek_key (tc_selector c) = Some (user_key (fst r))"
      using forward_part_complete [of b c] Cons(2) by auto
    have "filter (off_seek (tc_selector c)) ds = []" using ds(2) by (simp add: off_seek_def filter_empty_conv)
    then show ?case using Cons ds(1) by (simp del: filter_filter)
  qed simp
  assume "\<forall>b\<in>set bs. \<forall>i\<in>set (restart_indices b). unat i = 0 \<or>
        seek_key (tc_selector c) \<noteq> Some (user_key (fst (db_records b ! unat i)))"
  with assms show "concat (map (forward_part c) bs) = selected (tc_selector c) (concat (map db_records bs))"
  proof (induction bs)
    case (Cons b bs)
    obtain ds where ds: "selected (tc_selector c) (db_records b) = ds @ forward_part c b"
      "(\<forall>i\<in>set (restart_indices b). unat i = 0 \<or>
        seek_key (tc_selector c) \<noteq> Some (user_key (fst (db_records b ! unat i)))) \<longrightarrow> ds = []"
      using forward_part_complete [of b c] Cons(2) unfolding list.set ball_simps by blast
    have "ds = []" by (rule mp [OF ds(2)]) (use Cons(3) in \<open>simp only: list.set insert_iff, blast\<close>)
    then have "selected (tc_selector c) (db_records b) = forward_part c b" using ds(1) by simp
    then show ?case using Cons by simp
  qed simp
qed

lemma point_cursor_forward_index:
  assumes ok: "table_ok t"
  shows "\<exists>i\<le>data_block_count t.
    tc_block_index (point_cursor t sel ex Forward policy) = (if i < data_block_count t then Some i else None) \<and>
    (\<forall>j<i. \<forall>b. b = file_blocks t ! j \<longrightarrow> selected sel (db_records b) = [])"
proof -
  let ?c = "point_cursor t sel ex Forward policy"
  have skip: "selected sel (db_records (file_blocks t ! j)) = []"
    if "j < data_block_count t" "\<And>k. k \<le> user_key (largest_internal_key (table_index t ! j)) \<Longrightarrow> \<not> selects sel k" for j
    using that describes_user_keys(2) [OF table_ok_describes [OF ok that(1)]] by (auto simp: filter_empty_conv)
  show ?thesis
  proof (cases sel)
    case (RangeSelector range)
    let ?before = "\<lambda>k. key_is_before_start k (kr_start range)"
    have index: "tc_block_index ?c = first_block_candidate t policy ?before"
      using RangeSelector by (simp add: point_cursor_def Let_def first_block_candidate_for_range_def)
    obtain i where i: "i \<le> data_block_count t"
      "first_block_candidate t policy ?before = (if i < data_block_count t then Some i else None)"
      "\<forall>j<i. ?before (user_key (largest_internal_key (table_index t ! j)))"
      using first_block_candidate_eq [OF ok, of ?before policy, OF down_closed_before_start] by blast
    have "selected sel (db_records (file_blocks t ! j)) = []" if j: "j < i" for j
    proof (rule skip)
      show "\<not> selects sel k" if "k \<le> user_key (largest_internal_key (table_index t ! j))" for k
        using before_start_mono [OF that] i(3) j RangeSelector by (simp add: selects_def key_is_in_range_def)
    qed (use i(1) j in simp)
    then show ?thesis using i(1,2) index by (intro exI [of _ i]) simp
  next
    case (PrefixSelector p)
    let ?before = "\<lambda>k. k < p"
    have index: "tc_block_index ?c = first_block_candidate t policy ?before"
      using PrefixSelector by (simp add: point_cursor_def Let_def first_block_candidate_for_key_def)
    obtain i where i: "i \<le> data_block_count t"
      "first_block_candidate t policy ?before = (if i < data_block_count t then Some i else None)"
      "\<forall>j<i. ?before (user_key (largest_internal_key (table_index t ! j)))"
      using first_block_candidate_eq [OF ok, of ?before policy, OF down_closed_less] by blast
    have "selected sel (db_records (file_blocks t ! j)) = []" if j: "j < i" for j
    proof (rule skip)
      show "\<not> selects sel k" if "k \<le> user_key (largest_internal_key (table_index t ! j))" for k
        using order.strict_trans1 [OF that i(3) [rule_format, OF j]] selects_seek [of sel p k] PrefixSelector by auto
    qed (use i(1) j in simp)
    then show ?thesis using i(1,2) index by (intro exI [of _ i]) simp
  qed
qed

lemma point_cursor_forward:
  assumes ok: "table_ok t"
  shows "tc_ok (point_cursor t sel ex Forward policy)"
    "set (tc_remaining (point_cursor t sel ex Forward policy)) \<subseteq> set (selected sel (table_records t))"
    "filter (off_seek sel) (tc_remaining (point_cursor t sel ex Forward policy)) =
     filter (off_seek sel) (selected sel (table_records t))"
    "seek_exact t sel \<Longrightarrow> tc_remaining (point_cursor t sel ex Forward policy) = selected sel (table_records t)"
proof -
  let ?c = "point_cursor t sel ex Forward policy" and ?bs = "file_blocks t"
  obtain i where i: "i \<le> data_block_count t"
    "tc_block_index ?c = (if i < data_block_count t then Some i else None)"
    "\<forall>j<i. \<forall>b. b = ?bs ! j \<longrightarrow> selected sel (db_records b) = []"
    using point_cursor_forward_index [OF ok] by blast
  have len: "length ?bs = data_block_count t" using table_ok_lengths [OF ok] by simp
  have blocks: "\<forall>b\<in>set (drop i ?bs). block_ok b \<and> db_records b \<noteq> []"
  proof
    fix b assume "b \<in> set (drop i ?bs)"
    then obtain j where "j < data_block_count t" "b = ?bs ! j"
      using len by (metis in_set_conv_nth in_set_dropD)
    then show "block_ok b \<and> db_records b \<noteq> []" using table_ok_describes [OF ok] by (simp add: describes_def)
  qed
  have "\<forall>b\<in>set (take i ?bs). selected sel (db_records b) = []"
    using i(1,3) len by (auto simp: in_set_conv_nth)
  then have "selected sel (concat (map db_records (take i ?bs))) = []" by (auto simp: filter_empty_conv)
  then have recs: "selected sel (table_records t) = selected sel (concat (map db_records (drop i ?bs)))"
    unfolding table_records_def
    by (metis (no_types, lifting) append_Nil append_take_drop_id concat_append filter_append map_append)
  have r: "tc_remaining ?c = concat (map (forward_part ?c) (drop i ?bs))"
  proof (cases "i < data_block_count t")
    case True
    then show ?thesis using i(2) len
      by (simp add: tc_remaining_def tc_stream_def Let_def current_block_is_def Cons_nth_drop_Suc [symmetric])
  next
    case False
    then show ?thesis using i len by (simp add: tc_remaining_def tc_stream_def)
  qed
  show "set (tc_remaining ?c) \<subseteq> set (selected sel (table_records t))"
    "filter (off_seek sel) (tc_remaining ?c) = filter (off_seek sel) (selected sel (table_records t))"
    using forward_parts_complete(1,2) [OF blocks, of ?c] unfolding r recs by simp_all
  show "tc_remaining ?c = selected sel (table_records t)" if "seek_exact t sel"
    using forward_parts_complete(3) [OF blocks, of ?c] that unfolding r recs
    by (simp add: seek_exact_def) (meson in_set_dropD)
  have shape: "tc_shape ?c" using ok i(2) by (simp add: tc_shape_def split: if_splits)
  have "key_ordered Forward (concat (map db_records ?bs))"
    using ok btree_ok_key_ordered [of "table_records t" Forward "\<lambda>_. True"] by (simp add: table_ok_def table_records_def)
  moreover have "concat (map db_records ?bs) = concat (map db_records (take i ?bs)) @ concat (map db_records (drop i ?bs))"
    by (simp flip: concat_append map_append)
  ultimately have "key_ordered Forward (concat (map db_records (drop i ?bs)))"
    unfolding key_ordered_def by (simp only: sorted_wrt_append)
  then have "key_ordered Forward (tc_remaining ?c)"
    unfolding key_ordered_def r
    by (rule sorted_wrt_concat_parts [rotated])
      (auto simp: forward_part_def sorted_wrt_filter sorted_wrt_drop dest: in_set_dropD)
  with shape show "tc_ok ?c" by (simp add: tc_ok_def)
qed

end
