(* ===== verification/Scan_Merge.thy ===== *)
theory Scan_Merge
  imports Cursor_Contents Lsm_Read
begin

text \<open>
  The merge of a scan (\<^verbatim>\<open>LazyScan\<close> of \<^verbatim>\<open>src/src/iterator.rs\<close>): a binary heap orders the sources by
  their current key in the direction of the scan; a round takes the groups of the first key from every
  source that has it, sorts their versions and returns the newest visible one unless it is deleted.

  Shown here: a scan over sources that keep the contract of \<open>group_source\<close> ends, returns every row the
  sources hold a visible version of, in the direction of the scan and each key once. The state of a scan
  after an error is not modelled.
\<close>

section \<open>Sources\<close>

datatype source_cursor = MemtableSource memtable_cursor | TableSource table_point_cursor

record record_source =
  rs_cursor :: source_cursor
  rs_current :: "record_group option"

definition source_memtable :: "memtable \<Rightarrow> scan_selector \<Rightarrow> direction \<Rightarrow> record_source" where
  "source_memtable m sel dir =
     \<lparr>rs_cursor = MemtableSource (memtable_cursor_new m sel dir), rs_current = None\<rparr>"

definition source_table :: "table_point_cursor \<Rightarrow> record_source" where
  "source_table c = \<lparr>rs_cursor = TableSource c, rs_current = None\<rparr>"

fun source_next_group :: "source_cursor \<Rightarrow> (record_group option \<times> source_cursor) result" where
  "source_next_group (MemtableSource c) =
     and_then (memtable_next_group c) (\<lambda>(g, c). Ok (g, MemtableSource c))"
| "source_next_group (TableSource c) =
     and_then (table_next_group c) (\<lambda>(g, c). Ok (g, TableSource c))"

definition ensure_current :: "record_source \<Rightarrow> record_source result" where
  "ensure_current s =
     (case rs_current s of
        None \<Rightarrow> and_then (source_next_group (rs_cursor s)) (\<lambda>(g, c). Ok \<lparr>rs_cursor = c, rs_current = g\<rparr>)
      | Some _ \<Rightarrow> Ok s)"

definition current_key :: "record_source \<Rightarrow> (bytes option \<times> record_source) result" where
  "current_key s = and_then (ensure_current s) (\<lambda>s. Ok (map_option rg_user_key (rs_current s), s))"

definition take_current_group :: "record_source \<Rightarrow> (record_group option \<times> record_source) result" where
  "take_current_group s = and_then (ensure_current s) (\<lambda>s. Ok (rs_current s, s\<lparr>rs_current := None\<rparr>))"

section \<open>The heap of sources\<close>

text \<open>\<^verbatim>\<open>BinaryHeap\<close> as the list of its entries: \<open>heap_peek\<close> is the greatest entry, \<open>heap_pop\<close> takes it
  out. There is at most one entry per source, so no two entries compare equal.\<close>

record source_heap_entry =
  he_user_key :: bytes
  he_source_index :: usize
  he_direction :: direction

fun compare_scan_keys :: "bytes \<Rightarrow> bytes \<Rightarrow> direction \<Rightarrow> ordering" where
  "compare_scan_keys left right Forward = cmp left right"
| "compare_scan_keys left right Reverse = cmp right left"

definition compare_heap_entries :: "source_heap_entry \<Rightarrow> source_heap_entry \<Rightarrow> ordering" where
  "compare_heap_entries a b =
     (case compare_scan_keys (he_user_key a) (he_user_key b) (he_direction a) of
        Less \<Rightarrow> Greater
      | Equal \<Rightarrow> cmp (he_source_index b) (he_source_index a)
      | Greater \<Rightarrow> Less)"

fun heap_peek :: "source_heap_entry list \<Rightarrow> source_heap_entry option" where
  "heap_peek [] = None"
| "heap_peek (e # es) = Some (fold (\<lambda>x best. if compare_heap_entries x best = Greater then x else best) es e)"

definition heap_pop :: "source_heap_entry list \<Rightarrow> (source_heap_entry \<times> source_heap_entry list) option" where
  "heap_pop heap = map_option (\<lambda>e. (e, remove1 e heap)) (heap_peek heap)"

section \<open>Rows\<close>

datatype lazy_value = LazyInline bytes | LazyBlob internal_key value_ref

record lazy_key_value =
  lkv_key :: bytes
  lkv_value :: lazy_value

datatype lazy_visibility = Visible lazy_key_value | HiddenByDelete | NoVisibleVersion

fun into_item :: "lazy_visibility \<Rightarrow> lazy_key_value option" where
  "into_item (Visible item) = Some item"
| "into_item HiddenByDelete = None"
| "into_item NoVisibleVersion = None"

text \<open>\<open>has_db_path\<close>: the scan belongs to a database with a path, under which blob files can be read.\<close>

definition lazy_value_of :: "bool \<Rightarrow> value_ref option \<Rightarrow> internal_key \<Rightarrow> lazy_value result" where
  "lazy_value_of has_db_path v ik =
     and_then (ok_or (Corruption ''put record is missing value bytes'') v) (\<lambda>v.
     case v of
       Inline bs \<Rightarrow> Ok (LazyInline bs)
     | BlobIndex _ \<Rightarrow>
         if has_db_path then Ok (LazyBlob ik v)
         else Err (Corruption ''in-memory database cannot read blob value references''))"

text \<open>\<open>read_blob\<close> stands for the blob file read of \<^verbatim>\<open>blob::read_value_for_internal_key\<close> through the storage
  backend of the database.\<close>

fun into_value_sync :: "(value_ref \<Rightarrow> internal_key \<Rightarrow> bytes result) \<Rightarrow> lazy_value \<Rightarrow> bytes result" where
  "into_value_sync read_blob (LazyInline bs) = Ok bs"
| "into_value_sync read_blob (LazyBlob ik v) = read_blob v ik"

definition into_key_value_sync ::
  "(value_ref \<Rightarrow> internal_key \<Rightarrow> bytes result) \<Rightarrow> lazy_key_value \<Rightarrow> (bytes \<times> bytes) result" where
  "into_key_value_sync read_blob item =
     and_then (into_value_sync read_blob (lkv_value item)) (\<lambda>bs. Ok (lkv_key item, bs))"

section \<open>The scan\<close>

record lazy_scan =
  ls_direction :: direction
  ls_read_sequence :: sequence
  ls_has_db_path :: bool
  ls_range_tombstones :: "range_tombstone list"
  ls_sources :: "record_source list"
  ls_source_heap :: "source_heap_entry list"
  ls_source_heap_initialized :: bool

definition from_sources ::
  "direction \<Rightarrow> sequence \<Rightarrow> bool \<Rightarrow> range_tombstone list \<Rightarrow> record_source list \<Rightarrow> lazy_scan" where
  "from_sources dir read_sequence has_db_path tombstones sources =
     \<lparr>ls_direction = dir, ls_read_sequence = read_sequence, ls_has_db_path = has_db_path,
      ls_range_tombstones = rti_new rt_range tombstones, ls_sources = sources, ls_source_heap = [],
      ls_source_heap_initialized = False\<rparr>"

fun visible_lazy_item_from_sorted_records :: "lazy_scan \<Rightarrow> point_record list \<Rightarrow> lazy_visibility result" where
  "visible_lazy_item_from_sorted_records s [] = Ok NoVisibleVersion"
| "visible_lazy_item_from_sorted_records s ((ik, v) # records) =
     (if ik_sequence ik > ls_read_sequence s then visible_lazy_item_from_sorted_records s records
      else case ik_kind ik of
        Put \<Rightarrow>
          if range_tombstones_cover (ls_range_tombstones s) (user_key ik) (ik_sequence ik) (batch_index ik)
               (ls_read_sequence s)
          then Ok HiddenByDelete
          else and_then (lazy_value_of (ls_has_db_path s) v ik) (\<lambda>lv.
               Ok (Visible \<lparr>lkv_key = user_key ik, lkv_value = lv\<rparr>))
      | PointDelete \<Rightarrow> Ok HiddenByDelete
      | RangeDelete \<Rightarrow> visible_lazy_item_from_sorted_records s records)"

definition visible_lazy_item_from_records :: "lazy_scan \<Rightarrow> point_record list \<Rightarrow> lazy_key_value option result" where
  "visible_lazy_item_from_records s records =
     and_then (visible_lazy_item_from_sorted_records s (sort_by compare_scan_records records))
       (\<lambda>visibility. Ok (into_item visibility))"

definition push_source_heap_entry :: "usize \<Rightarrow> lazy_scan \<Rightarrow> lazy_scan result" where
  "push_source_heap_entry i s =
     and_then (current_key (ls_sources s ! i)) (\<lambda>(key, src).
     let s = s\<lparr>ls_sources := (ls_sources s)[i := src]\<rparr>
     in case key of
       None \<Rightarrow> Ok s
     | Some k \<Rightarrow>
         Ok (s\<lparr>ls_source_heap := \<lparr>he_user_key = k, he_source_index = i, he_direction = ls_direction s\<rparr> #
                ls_source_heap s\<rparr>))"

definition initialize_source_heap :: "lazy_scan \<Rightarrow> lazy_scan result" where
  "initialize_source_heap s =
     and_then (fold_result push_source_heap_entry [0..<length (ls_sources s)] s)
       (\<lambda>s. Ok (s\<lparr>ls_source_heap_initialized := True\<rparr>))"

text \<open>The entries with the key of the popped one, with their sources, and the rest of the heap.\<close>

lemma heap_peek_mem: "heap_peek es = Some e \<Longrightarrow> e \<in> set es"
proof -
  have "fold (\<lambda>x best. if compare_heap_entries x best = Greater then x else best) xs b \<in> insert b (set xs)" for xs b
    by (induction xs arbitrary: b) (auto split: if_splits)
  then show "heap_peek es = Some e \<Longrightarrow> e \<in> set es" by (cases es) force+
qed

function pop_same_key :: "bytes \<Rightarrow> source_heap_entry list \<Rightarrow> usize list \<Rightarrow> usize list \<times> source_heap_entry list" where
  "pop_same_key key heap indices =
     (case heap_peek heap of
        None \<Rightarrow> (indices, heap)
      | Some e \<Rightarrow>
          if he_user_key e = key then pop_same_key key (remove1 e heap) (indices @ [he_source_index e])
          else (indices, heap))"
  by pat_completeness auto
termination
  by (relation "measure (\<lambda>(_, heap, _). length heap)") (auto dest!: heap_peek_mem simp: length_remove1 dest: length_pos_if_in_set)

definition push_group_records :: "point_record list option \<Rightarrow> record_group \<Rightarrow> point_record list option" where
  "push_group_records records g =
     (case records of Some rs \<Rightarrow> Some (rs @ rg_records g) | None \<Rightarrow> Some (rg_records g))"

definition take_source :: "usize \<Rightarrow> point_record list option \<times> lazy_scan \<Rightarrow> (point_record list option \<times> lazy_scan) result" where
  "take_source i = (\<lambda>(records, s).
     and_then (take_current_group (ls_sources s ! i)) (\<lambda>(g, src).
     let s = s\<lparr>ls_sources := (ls_sources s)[i := src]\<rparr>;
         records = (case g of None \<Rightarrow> records | Some g \<Rightarrow> push_group_records records g)
     in and_then (push_source_heap_entry i s) (\<lambda>s. Ok (records, s))))"

text \<open>One round of the loop: the outer option is \<open>None\<close> when the heap is empty and the loop ends, the
  inner one when the round has no row to return.\<close>

definition next_round :: "lazy_scan \<Rightarrow> (lazy_key_value option option \<times> lazy_scan) result" where
  "next_round s =
     (case heap_pop (ls_source_heap s) of
        None \<Rightarrow> Ok (None, s)
      | Some (e, heap) \<Rightarrow>
          let (indices, heap) = pop_same_key (he_user_key e) heap [he_source_index e]
          in and_then (fold_result take_source indices (None, s\<lparr>ls_source_heap := heap\<rparr>)) (\<lambda>(records, s).
             case records of
               None \<Rightarrow> Ok (Some None, s)
             | Some rs \<Rightarrow> and_then (visible_lazy_item_from_records s rs) (\<lambda>item. Ok (Some item, s))))"

partial_function (option) next_loop :: "lazy_scan \<Rightarrow> (lazy_key_value option \<times> lazy_scan) result option" where
  "next_loop s =
     (case next_round s of
        Inl e \<Rightarrow> Some (Err e)
      | Inr (round, s') \<Rightarrow>
          (case round of
             None \<Rightarrow> Some (Ok (None, s'))
           | Some (Some item) \<Rightarrow> Some (Ok (Some item, s'))
           | Some None \<Rightarrow> next_loop s'))"

definition next_lazy :: "lazy_scan \<Rightarrow> (lazy_key_value option \<times> lazy_scan) result option" where
  "next_lazy s =
     (case (if ls_source_heap_initialized s then Ok s else initialize_source_heap s) of
        Inl e \<Rightarrow> Some (Err e)
      | Inr s \<Rightarrow> next_loop s)"

definition scan_next ::
  "(value_ref \<Rightarrow> internal_key \<Rightarrow> bytes result) \<Rightarrow> lazy_scan \<Rightarrow> ((bytes \<times> bytes) option \<times> lazy_scan) result option" where
  "scan_next read_blob s =
     map_option (\<lambda>r. and_then r (\<lambda>(item, s).
       case item of
         None \<Rightarrow> Ok (None, s)
       | Some item \<Rightarrow> and_then (into_key_value_sync read_blob item) (\<lambda>row. Ok (Some row, s))))
     (next_lazy s)"

section \<open>Sources of the scan\<close>

fun source_ok :: "source_cursor \<Rightarrow> bool" where
  "source_ok (MemtableSource c) = mc_ok c"
| "source_ok (TableSource c) = tc_ok c"

fun cursor_direction :: "source_cursor \<Rightarrow> direction" where
  "cursor_direction (MemtableSource c) = mc_direction c"
| "cursor_direction (TableSource c) = tc_direction c"

fun cursor_pending :: "source_cursor \<Rightarrow> record_group list" where
  "cursor_pending (MemtableSource c) = mc_pending c"
| "cursor_pending (TableSource c) = groups (tc_remaining c)"

interpretation scur: group_source source_ok cursor_direction cursor_pending source_next_group
proof
  fix c assume "source_ok c" "cursor_pending c = []"
  then show "\<exists>c'. source_next_group c = Inr (None, c') \<and> source_ok c' \<and> cursor_pending c' = [] \<and>
      cursor_direction c' = cursor_direction c"
    using mcur.next_group_none tcur.next_group_none by (cases c) fastforce+
next
  fix c g gs assume "source_ok c" "cursor_pending c = g # gs"
  then show "\<exists>c'. source_next_group c = Inr (Some g, c') \<and> source_ok c' \<and> cursor_pending c' = gs \<and>
      cursor_direction c' = cursor_direction c"
    using mcur.next_group_some tcur.next_group_some by (cases c) fastforce+
next
  fix c assume "source_ok c"
  then show "ordered_groups (cursor_direction c) (cursor_pending c)"
    using mcur.pending_ordered tcur.pending_ordered by (cases c) auto
qed

definition rs_pending :: "record_source \<Rightarrow> record_group list" where
  "rs_pending s = (case rs_current s of None \<Rightarrow> [] | Some g \<Rightarrow> [g]) @ cursor_pending (rs_cursor s)"

abbreviation rs_direction :: "record_source \<Rightarrow> direction" where
  "rs_direction s \<equiv> cursor_direction (rs_cursor s)"

definition rs_ok :: "record_source \<Rightarrow> bool" where
  "rs_ok s \<longleftrightarrow> source_ok (rs_cursor s) \<and> ordered_groups (rs_direction s) (rs_pending s)"

text \<open>Loading the current group changes nothing of what is pending.\<close>

lemma ensure_current_eq:
  assumes "rs_ok s"
  shows "\<exists>s'. ensure_current s = Inr s' \<and> rs_ok s' \<and> rs_pending s' = rs_pending s \<and>
    rs_direction s' = rs_direction s \<and>
    (case rs_pending s of [] \<Rightarrow> rs_current s' = None | g # gs \<Rightarrow> rs_current s' = Some g \<and> cursor_pending (rs_cursor s') = gs)"
proof (cases "rs_current s")
  case (Some g)
  then show ?thesis using assms by (simp add: ensure_current_def rs_pending_def)
next
  case None
  have ok: "source_ok (rs_cursor s)" and p: "rs_pending s = cursor_pending (rs_cursor s)"
    using assms None by (simp_all add: rs_ok_def rs_pending_def)
  show ?thesis
  proof (cases "cursor_pending (rs_cursor s)")
    case Nil
    then show ?thesis
      using scur.next_group_none [OF ok Nil] None p assms
      by (auto simp: ensure_current_def rs_ok_def rs_pending_def)
  next
    case (Cons g gs)
    then show ?thesis
      using scur.next_group_some [OF ok Cons] None p assms
      by (auto simp: ensure_current_def rs_ok_def rs_pending_def)
  qed
qed

lemma ordered_groups_tl: "ordered_groups dir (g # gs) \<Longrightarrow> ordered_groups dir gs"
  by (simp add: ordered_groups_def)

interpretation rsrc: group_source rs_ok rs_direction rs_pending take_current_group
proof
  fix s assume s: "rs_ok s" "rs_pending s = []"
  then show "\<exists>s'. take_current_group s = Inr (None, s') \<and> rs_ok s' \<and> rs_pending s' = [] \<and> rs_direction s' = rs_direction s"
    using ensure_current_eq [OF s(1)] by (auto simp: take_current_group_def rs_pending_def rs_ok_def)
next
  fix s g gs assume s: "rs_ok s" "rs_pending s = g # gs"
  then show "\<exists>s'. take_current_group s = Inr (Some g, s') \<and> rs_ok s' \<and> rs_pending s' = gs \<and> rs_direction s' = rs_direction s"
    using ensure_current_eq [OF s(1)] ordered_groups_tl
    by (auto simp: take_current_group_def rs_pending_def rs_ok_def)
next
  fix s assume "rs_ok s"
  then show "ordered_groups (rs_direction s) (rs_pending s)" by (simp add: rs_ok_def)
qed

lemma current_key_eq:
  assumes "rs_ok s"
  shows "\<exists>s'. current_key s = Inr (if rs_pending s = [] then None else Some (rg_user_key (hd (rs_pending s))), s') \<and>
    rs_ok s' \<and> rs_pending s' = rs_pending s \<and> rs_direction s' = rs_direction s"
  using ensure_current_eq [OF assms] by (cases "rs_pending s") (auto simp: current_key_def)

section \<open>The heap\<close>

lemma key_before_irrefl [simp]: "\<not> key_before dir k k"
  by (cases dir) auto

lemma key_before_linear: "key_before dir a b \<or> a = b \<or> key_before dir b a"
  by (cases dir) auto

lemma key_before_asym: "key_before dir a b \<Longrightarrow> \<not> key_before dir b a"
  by (cases dir) auto

lemma not_key_before_trans: "\<not> key_before dir a b \<Longrightarrow> \<not> key_before dir b c \<Longrightarrow> \<not> key_before dir a c"
  by (cases dir) auto

lemma compare_heap_entries_Greater:
  assumes "he_direction a = dir" "he_direction b = dir"
  shows "compare_heap_entries a b = Greater \<Longrightarrow> \<not> key_before dir (he_user_key b) (he_user_key a)"
    "compare_heap_entries a b \<noteq> Greater \<Longrightarrow> \<not> key_before dir (he_user_key a) (he_user_key b)"
  using assms by (cases dir; auto simp: compare_heap_entries_def cmp_def split: ordering.splits if_splits)+

lemma heap_peek_first:
  assumes "heap_peek es = Some e" "\<forall>x\<in>set es. he_direction x = dir" "x \<in> set es"
  shows "\<not> key_before dir (he_user_key x) (he_user_key e)"
proof -
  let ?f = "\<lambda>x best. if compare_heap_entries x best = Greater then x else best"
  have fold: "\<forall>x\<in>insert b (set xs). \<not> key_before dir (he_user_key x) (he_user_key (fold ?f xs b))"
    if "he_direction b = dir" "\<forall>x\<in>set xs. he_direction x = dir" for xs b
    using that
  proof (induction xs arbitrary: b)
    case (Cons y ys)
    let ?b = "?f y b"
    have b: "he_direction ?b = dir" using Cons(2,3) by simp
    have step: "\<not> key_before dir (he_user_key y) (he_user_key ?b)" "\<not> key_before dir (he_user_key b) (he_user_key ?b)"
      using compare_heap_entries_Greater [of y dir b] Cons(2,3) by auto
    define last where "last = fold ?f (y # ys) b"
    have rest: "\<forall>x\<in>insert ?b (set ys). \<not> key_before dir (he_user_key x) (he_user_key last)"
      using Cons(1) [OF b] Cons(3) unfolding last_def by simp
    then have "\<not> key_before dir (he_user_key ?b) (he_user_key last)" by blast
    then have "\<not> key_before dir (he_user_key y) (he_user_key last)" "\<not> key_before dir (he_user_key b) (he_user_key last)"
      by (rule not_key_before_trans [OF step(1)], rule not_key_before_trans [OF step(2)])
    then show ?case using rest unfolding last_def [symmetric] by simp
  qed simp
  then show ?thesis using assms by (cases es) auto
qed

declare pop_same_key.simps [simp del]

lemma pop_same_key_eq:
  assumes "\<forall>x\<in>set heap. he_direction x = dir \<and> \<not> key_before dir (he_user_key x) key"
  shows "\<exists>es heap'. pop_same_key key heap indices = (indices @ map he_source_index es, heap') \<and>
    mset heap = mset es + mset heap' \<and> (\<forall>e\<in>set es. he_user_key e = key) \<and> (\<forall>e\<in>set heap'. he_user_key e \<noteq> key)"
  using assms
proof (induction key heap indices rule: pop_same_key.induct)
  case (1 key heap indices)
  show ?case
  proof (cases "heap_peek heap")
    case None
    then have "heap = []" by (cases heap) auto
    then show ?thesis by (simp add: pop_same_key.simps)
  next
    case (Some e)
    have e: "e \<in> set heap" using Some by (rule heap_peek_mem)
    show ?thesis
    proof (cases "he_user_key e = key")
      case True
      have "\<forall>x\<in>set (remove1 e heap). he_direction x = dir \<and> \<not> key_before dir (he_user_key x) key"
        using 1(2) by (meson notin_set_remove1)
      then obtain es heap' where es: "pop_same_key key (remove1 e heap) (indices @ [he_source_index e]) =
          ((indices @ [he_source_index e]) @ map he_source_index es, heap')"
        "mset (remove1 e heap) = mset es + mset heap'" "\<forall>e\<in>set es. he_user_key e = key"
        "\<forall>e\<in>set heap'. he_user_key e \<noteq> key"
        using 1(1) [OF Some True] by blast
      have "mset heap = mset (e # es) + mset heap'"
        using es(2) insert_DiffM [of e "mset heap"] e by simp
      then show ?thesis
        using es True Some
        by (intro exI [of _ "e # es"] exI [of _ heap']) (simp add: pop_same_key.simps [of key heap])
    next
      case False
      have "he_user_key x \<noteq> key" if x: "x \<in> set heap" for x
      proof
        assume "he_user_key x = key"
        moreover have "key_before dir key (he_user_key e)"
          using key_before_linear [of dir key "he_user_key e"] 1(2) e False by blast
        ultimately show False using heap_peek_first [OF Some, of dir x] 1(2) x by auto
      qed
      then show ?thesis
        using Some False by (intro exI [of _ "[]"] exI [of _ heap]) (simp add: pop_same_key.simps)
    qed
  qed
qed

section \<open>Rounds\<close>

text \<open>What the sources still hold, and which of them the heap has an entry for.\<close>

definition pend :: "lazy_scan \<Rightarrow> record_group list list" where
  "pend s = map rs_pending (ls_sources s)"

definition ls_static :: "lazy_scan \<Rightarrow> lazy_scan" where
  "ls_static s = s\<lparr>ls_sources := [], ls_source_heap := []\<rparr>"

definition sources_ok :: "lazy_scan \<Rightarrow> bool" where
  "sources_ok s \<longleftrightarrow> (\<forall>src\<in>set (ls_sources s). rs_ok src \<and> rs_direction src = ls_direction s)"

definition nonempty_sources :: "lazy_scan \<Rightarrow> nat set" where
  "nonempty_sources s = {i. i < length (ls_sources s) \<and> pend s ! i \<noteq> []}"

definition entry_of :: "lazy_scan \<Rightarrow> nat \<Rightarrow> source_heap_entry" where
  "entry_of s i = \<lparr>he_user_key = rg_user_key (hd (pend s ! i)), he_source_index = i, he_direction = ls_direction s\<rparr>"

definition heap_holds :: "lazy_scan \<Rightarrow> nat set \<Rightarrow> bool" where
  "heap_holds s I \<longleftrightarrow> distinct (ls_source_heap s) \<and> set (ls_source_heap s) = entry_of s ` (I \<inter> nonempty_sources s)"

lemma entry_of_index [simp]: "he_source_index (entry_of s i) = i" "he_direction (entry_of s i) = ls_direction s"
  "he_user_key (entry_of s i) = rg_user_key (hd (pend s ! i))"
  by (simp_all add: entry_of_def)

lemma entry_of_inj: "entry_of s i = entry_of s j \<Longrightarrow> i = j"
  by (metis entry_of_index(1))

lemma ls_static_eqD:
  assumes "ls_static s' = ls_static s"
  shows "ls_direction s' = ls_direction s" "ls_read_sequence s' = ls_read_sequence s"
    "ls_has_db_path s' = ls_has_db_path s" "ls_range_tombstones s' = ls_range_tombstones s"
    "ls_source_heap_initialized s' = ls_source_heap_initialized s"
  using assms by (cases s; cases s'; simp add: ls_static_def)+

lemma ls_static_updates [simp]:
  "ls_static (s\<lparr>ls_sources := x\<rparr>) = ls_static s" "ls_static (s\<lparr>ls_source_heap := h\<rparr>) = ls_static s"
  by (simp_all add: ls_static_def)

lemma pend_updates [simp]:
  "length (pend s) = length (ls_sources s)" "pend (s\<lparr>ls_source_heap := h\<rparr>) = pend s"
  "pend (s\<lparr>ls_source_heap_initialized := b\<rparr>) = pend s"
  "i < length (ls_sources s) \<Longrightarrow> pend s ! i = rs_pending (ls_sources s ! i)"
  by (simp_all add: pend_def)

lemma heap_holds_cong:
  assumes "ls_direction s' = ls_direction s" "length (ls_sources s') = length (ls_sources s)"
    "ls_source_heap s' = ls_source_heap s" "\<forall>i\<in>I. pend s' ! i = pend s ! i"
  shows "heap_holds s' I \<longleftrightarrow> heap_holds s I"
proof -
  have "I \<inter> nonempty_sources s' = I \<inter> nonempty_sources s" using assms(2,4) by (auto simp: nonempty_sources_def)
  moreover have "entry_of s' ` (I \<inter> nonempty_sources s) = entry_of s ` (I \<inter> nonempty_sources s)"
    using assms(1,4) by (intro image_cong) (simp_all add: entry_of_def)
  ultimately show ?thesis using assms(3) by (simp add: heap_holds_def)
qed

lemma sources_ok_update:
  assumes "sources_ok s" "rs_ok src" "rs_direction src = ls_direction s"
  shows "sources_ok (s\<lparr>ls_sources := (ls_sources s)[i := src]\<rparr>)"
  using assms by (auto simp: sources_ok_def dest!: set_update_subset_insert [THEN subsetD])

lemma push_source_heap_entry_eq:
  assumes ok: "sources_ok s" and heap: "heap_holds s I" and i: "i < length (ls_sources s)" "i \<notin> I"
  shows "\<exists>s'. push_source_heap_entry i s = Inr s' \<and> sources_ok s' \<and> heap_holds s' (insert i I) \<and>
    pend s' = pend s \<and> ls_static s' = ls_static s"
proof -
  let ?src = "ls_sources s ! i" and ?dir = "ls_direction s"
  have src: "rs_ok ?src" "rs_direction ?src = ?dir" using ok i(1) by (simp_all add: sources_ok_def)
  obtain src' where src': "current_key ?src =
      Inr (if rs_pending ?src = [] then None else Some (rg_user_key (hd (rs_pending ?src))), src')"
    "rs_ok src'" "rs_pending src' = rs_pending ?src" "rs_direction src' = rs_direction ?src"
    using current_key_eq [OF src(1)] by blast
  let ?s = "s\<lparr>ls_sources := (ls_sources s)[i := src']\<rparr>"
  have ok': "sources_ok ?s" using sources_ok_update [OF ok src'(2)] src(2) src'(4) by simp
  have pend: "pend ?s = pend s"
    using i(1) src'(3) by (simp add: pend_def map_update list_update_same_conv)
  have heap': "heap_holds ?s I" by (rule heap_holds_cong [THEN iffD2, OF _ _ _ _ heap]) (simp_all add: pend)
  show ?thesis
  proof (cases "rs_pending ?src = []")
    case True
    then have "insert i I \<inter> nonempty_sources ?s = I \<inter> nonempty_sources ?s"
      using i(1) src'(3) by (auto simp: nonempty_sources_def pend_def nth_list_update)
    then show ?thesis
      using True src'(1) ok' pend heap' by (simp add: push_source_heap_entry_def heap_holds_def)
  next
    case False
    let ?s' = "?s\<lparr>ls_source_heap := entry_of s i # ls_source_heap s\<rparr>"
    have push: "push_source_heap_entry i s = Inr ?s'"
      using False src'(1) i(1) by (simp add: push_source_heap_entry_def entry_of_def)
    have I: "insert i I \<inter> nonempty_sources ?s' = insert i (I \<inter> nonempty_sources s)"
      using i(1) False pend by (auto simp: nonempty_sources_def)
    have ent: "entry_of ?s' = entry_of s" using pend by (simp add: entry_of_def fun_eq_iff)
    have "entry_of s i \<notin> set (ls_source_heap s)"
      using heap i(2) entry_of_inj by (auto simp: heap_holds_def)
    then have "heap_holds ?s' (insert i I)"
      using heap unfolding heap_holds_def I ent by simp
    moreover have "sources_ok ?s'" using ok' by (simp add: sources_ok_def)
    ultimately show ?thesis using push pend by auto
  qed
qed

lemma take_source_eq:
  assumes ok: "sources_ok s" and heap: "heap_holds s I" and i: "i < length (ls_sources s)" "i \<notin> I"
    and p: "pend s ! i = g # gs"
  shows "\<exists>s'. take_source i (records, s) = Inr (push_group_records records g, s') \<and> sources_ok s' \<and>
    heap_holds s' (insert i I) \<and> pend s' = (pend s)[i := gs] \<and> ls_static s' = ls_static s"
proof -
  let ?src = "ls_sources s ! i"
  have src: "rs_ok ?src" "rs_direction ?src = ls_direction s" using ok i(1) by (simp_all add: sources_ok_def)
  obtain src' where src': "take_current_group ?src = Inr (Some g, src')" "rs_ok src'" "rs_pending src' = gs"
    "rs_direction src' = rs_direction ?src"
    using rsrc.next_group_some [OF src(1), of g gs] p i(1) by auto
  let ?s = "s\<lparr>ls_sources := (ls_sources s)[i := src']\<rparr>"
  have ok': "sources_ok ?s" using sources_ok_update [OF ok src'(2)] src(2) src'(4) by simp
  have pend: "pend ?s = (pend s)[i := gs]" using src'(3) by (simp add: pend_def map_update)
  have "\<forall>j\<in>I. pend ?s ! j = pend s ! j" using i(2) unfolding pend by (metis nth_list_update_neq)
  then have heap': "heap_holds ?s I" by (intro heap_holds_cong [THEN iffD2, OF _ _ _ _ heap]) simp_all
  obtain s' where "push_source_heap_entry i ?s = Inr s'" "sources_ok s'" "heap_holds s' (insert i I)"
    "pend s' = pend ?s" "ls_static s' = ls_static ?s"
    using push_source_heap_entry_eq [OF ok' heap', of i] i by auto
  then show ?thesis using src'(1) pend by (simp add: take_source_def)
qed

text \<open>Taking the groups of several sources.\<close>

lemma take_sources_eq:
  assumes "sources_ok s" "heap_holds s I" "distinct is" "\<forall>i\<in>set is. i < length (ls_sources s) \<and> i \<notin> I \<and> pend s ! i \<noteq> []"
  shows "\<exists>s' out. fold_result take_source is (records, s) = Inr (out, s') \<and>
    (is \<noteq> [] \<or> records \<noteq> None \<longrightarrow> out \<noteq> None) \<and>
    set (case out of None \<Rightarrow> [] | Some rs \<Rightarrow> rs) =
      set (case records of None \<Rightarrow> [] | Some rs \<Rightarrow> rs) \<union> (\<Union>i\<in>set is. set (rg_records (hd (pend s ! i)))) \<and>
    sources_ok s' \<and> heap_holds s' (I \<union> set is) \<and> length (ls_sources s') = length (ls_sources s) \<and>
    (\<forall>i<length (ls_sources s). pend s' ! i = (if i \<in> set is then tl (pend s ! i) else pend s ! i)) \<and>
    ls_static s' = ls_static s"
  using assms
proof (induction "is" arbitrary: s I records)
  case Nil
  then show ?case by auto
next
  case (Cons i js)
  obtain g gs where g: "pend s ! i = g # gs" using Cons(5) by (cases "pend s ! i") auto
  have i: "i < length (ls_sources s)" "i \<notin> I" using Cons(5) by simp_all
  obtain s1 where s1: "take_source i (records, s) = Inr (push_group_records records g, s1)" "sources_ok s1"
    "heap_holds s1 (insert i I)" "pend s1 = (pend s)[i := gs]" "ls_static s1 = ls_static s"
    using take_source_eq [OF Cons(2,3) i g] by blast
  have len: "length (ls_sources s1) = length (ls_sources s)"
    using s1(4) by (metis length_list_update pend_updates(1))
  have js: "distinct js" "i \<notin> set js" using Cons(4) by simp_all
  have prem: "\<forall>j\<in>set js. j < length (ls_sources s1) \<and> j \<notin> insert i I \<and> pend s1 ! j \<noteq> []"
    using Cons(5) js len s1(4) by (auto simp: nth_list_update)
  have "push_group_records records g \<noteq> None" by (simp add: push_group_records_def split: option.split)
  moreover from Cons(1) [OF s1(2,3) js(1) prem, of "push_group_records records g"]
  obtain s' out where s': "fold_result take_source js (push_group_records records g, s1) = Inr (out, s')"
    "js \<noteq> [] \<or> push_group_records records g \<noteq> None \<longrightarrow> out \<noteq> None"
    "set (case out of None \<Rightarrow> [] | Some rs \<Rightarrow> rs) =
      set (case push_group_records records g of None \<Rightarrow> [] | Some rs \<Rightarrow> rs) \<union>
      (\<Union>j\<in>set js. set (rg_records (hd (pend s1 ! j))))"
    "sources_ok s'" "heap_holds s' (insert i I \<union> set js)" "length (ls_sources s') = length (ls_sources s1)"
    "\<forall>j<length (ls_sources s1). pend s' ! j = (if j \<in> set js then tl (pend s1 ! j) else pend s1 ! j)"
    "ls_static s' = ls_static s1"
    by (elim exE conjE)
  ultimately have out: "out \<noteq> None" by blast
  have same: "(\<Union>j\<in>set js. set (rg_records (hd (pend s1 ! j)))) = (\<Union>j\<in>set js. set (rg_records (hd (pend s ! j))))"
    using js(2) unfolding s1(4) by (intro SUP_cong refl) (metis nth_list_update_neq)
  have recs: "set (case push_group_records records g of None \<Rightarrow> [] | Some rs \<Rightarrow> rs) =
      set (case records of None \<Rightarrow> [] | Some rs \<Rightarrow> rs) \<union> set (rg_records (hd (pend s ! i)))"
    using g by (auto simp: push_group_records_def split: option.split)
  have pend: "\<forall>j<length (ls_sources s). pend s' ! j = (if j \<in> set (i # js) then tl (pend s ! j) else pend s ! j)"
    using s'(7) len s1(4) js(2) g i(1) by (auto simp: nth_list_update)
  show ?case
  proof (intro exI [of _ s'] exI [of _ out] conjI)
    show "fold_result take_source (i # js) (records, s) = Inr (out, s')" using s1(1) s'(1) by simp
    show "set (case out of None \<Rightarrow> [] | Some rs \<Rightarrow> rs) = set (case records of None \<Rightarrow> [] | Some rs \<Rightarrow> rs) \<union>
        (\<Union>i\<in>set (i # js). set (rg_records (hd (pend s ! i))))"
      unfolding s'(3) recs same by (simp add: Un_assoc)
  qed (use s1(5) s'(4-6,8) pend len out in simp_all)
qed

definition scan_records :: "lazy_scan \<Rightarrow> point_record set" where
  "scan_records s = (\<Union>p\<in>set (pend s). groups_records p)"

lemma scan_records_nth: "scan_records s = (\<Union>i\<in>{..<length (ls_sources s)}. groups_records (pend s ! i))"
  unfolding scan_records_def by (force simp: set_conv_nth)

lemma group_head:
  assumes "ordered_groups dir (g # gs)"
  shows "rg_records g \<noteq> []" "r \<in> set (rg_records g) \<Longrightarrow> user_key (fst r) = rg_user_key g"
    "r \<in> groups_records gs \<Longrightarrow> key_before dir (rg_user_key g) (user_key (fst r))"
  using assms by (auto simp: ordered_groups_def groups_records_def)

lemma pend_ordered: "sources_ok s \<Longrightarrow> i < length (ls_sources s) \<Longrightarrow> ordered_groups (ls_direction s) (pend s ! i)"
  using rsrc.pending_ordered [of "ls_sources s ! i"] by (simp add: sources_ok_def)

text \<open>The part of one source that belongs to the first key, and the part behind it.\<close>

lemma source_at_key:
  assumes "ordered_groups dir p" "p \<noteq> [] \<longrightarrow> \<not> key_before dir (rg_user_key (hd p)) k"
  shows "{r \<in> groups_records p. user_key (fst r) = k} =
      (if p \<noteq> [] \<and> rg_user_key (hd p) = k then set (rg_records (hd p)) else {})"
    "groups_records (if p \<noteq> [] \<and> rg_user_key (hd p) = k then tl p else p) =
      {r \<in> groups_records p. key_before dir k (user_key (fst r))}"
    "r \<in> groups_records p \<Longrightarrow> user_key (fst r) = k \<or> key_before dir k (user_key (fst r))"
proof -
  have cases: "(\<forall>r\<in>set (rg_records (hd p)). user_key (fst r) = rg_user_key (hd p)) \<and>
      (\<forall>r\<in>groups_records (tl p). key_before dir (rg_user_key (hd p)) (user_key (fst r))) \<and>
      groups_records p = set (rg_records (hd p)) \<union> groups_records (tl p) \<and>
      (rg_user_key (hd p) = k \<or> key_before dir k (rg_user_key (hd p)))" if "p \<noteq> []"
    using that group_head [of dir "hd p" "tl p"] assms key_before_linear [of dir k "rg_user_key (hd p)"]
    by (cases p) auto
  show "{r \<in> groups_records p. user_key (fst r) = k} =
      (if p \<noteq> [] \<and> rg_user_key (hd p) = k then set (rg_records (hd p)) else {})"
    using cases key_before_asym by (cases "p = []") auto
  show "groups_records (if p \<noteq> [] \<and> rg_user_key (hd p) = k then tl p else p) =
      {r \<in> groups_records p. key_before dir k (user_key (fst r))}"
    using cases by (cases "p = []") (auto intro: key_before_trans)
  show "user_key (fst r) = k \<or> key_before dir k (user_key (fst r))" if "r \<in> groups_records p"
    using cases that by (cases "p = []") (auto intro: key_before_trans)
qed

lemma next_round_empty:
  assumes "sources_ok s" "heap_holds s UNIV" "scan_records s = {}"
  shows "next_round s = Inr (None, s)"
proof -
  have "pend s ! i = []" if "i < length (ls_sources s)" for i
  proof (rule ccontr)
    assume "pend s ! i \<noteq> []"
    then obtain g gs where g: "pend s ! i = g # gs" by (cases "pend s ! i") auto
    then have "rg_records g \<noteq> []" using group_head(1) pend_ordered [OF assms(1) that] by metis
    moreover have "pend s ! i \<in> set (pend s)" by (metis nth_mem pend_updates(1) that)
    ultimately show False using assms(3) g unfolding scan_records_def by (metis UN_I empty_iff groups_records_simps(2) list.set_sel(1) UnI1)
  qed
  then have "nonempty_sources s = {}" by (auto simp: nonempty_sources_def)
  then have "ls_source_heap s = []" using assms(2) by (simp add: heap_holds_def)
  then show ?thesis by (simp add: next_round_def heap_pop_def)
qed

text \<open>What the heap gives up in a round: the entries of all sources at the first key.\<close>

lemma pop_round:
  assumes ok: "sources_ok s" and heap: "heap_holds s UNIV" and ne: "ls_source_heap s \<noteq> []"
  shows "\<exists>e k is heap'. heap_pop (ls_source_heap s) = Some (e, remove1 e (ls_source_heap s)) \<and> he_user_key e = k \<and>
    pop_same_key k (remove1 e (ls_source_heap s)) [he_source_index e] = (is, heap') \<and> is \<noteq> [] \<and> distinct is \<and>
    set is = {i \<in> nonempty_sources s. rg_user_key (hd (pend s ! i)) = k} \<and>
    heap_holds (s\<lparr>ls_source_heap := heap'\<rparr>) (- set is) \<and>
    (\<forall>i\<in>nonempty_sources s. \<not> key_before (ls_direction s) (rg_user_key (hd (pend s ! i))) k)"
proof -
  let ?h = "ls_source_heap s" and ?dir = "ls_direction s"
  obtain e where e: "heap_peek ?h = Some e" using ne by (cases ?h) auto
  let ?k = "he_user_key e"
  have mem: "e \<in> set ?h" by (rule heap_peek_mem [OF e])
  have h: "distinct ?h" "set ?h = entry_of s ` nonempty_sources s" using heap by (simp_all add: heap_holds_def)
  have dirs: "\<forall>x\<in>set ?h. he_direction x = ?dir" using h(2) by auto
  have first: "\<forall>x\<in>set ?h. \<not> key_before ?dir (he_user_key x) ?k" using heap_peek_first [OF e dirs] by blast
  obtain es heap' where es: "pop_same_key ?k (remove1 e ?h) [he_source_index e] =
      ([he_source_index e] @ map he_source_index es, heap')"
    "mset (remove1 e ?h) = mset es + mset heap'" "\<forall>x\<in>set es. he_user_key x = ?k" "\<forall>x\<in>set heap'. he_user_key x \<noteq> ?k"
    using pop_same_key_eq [of "remove1 e ?h" ?dir ?k "[he_source_index e]"] dirs first
    by (meson notin_set_remove1)
  have m: "mset ?h = mset (e # es @ heap')" using es(2) insert_DiffM [of e "mset ?h"] mem by simp
  have sets: "set ?h = insert e (set es) \<union> set heap'" using m by (metis Un_insert_left list.set(2) mset_eq_setD set_append)
  have dist: "distinct (e # es @ heap')" using m h(1) mset_eq_imp_distinct_iff by blast
  have inj: "inj_on he_source_index (set ?h)" unfolding h(2) by (auto simp: inj_on_def)
  let ?is = "map he_source_index (e # es)"
  have di: "distinct ?is" using dist inj sets by (auto simp: distinct_map intro: inj_on_subset)
  have at: "set (e # es) = {x \<in> set ?h. he_user_key x = ?k}" using sets es(3,4) by auto
  then have idx: "set ?is = {i \<in> nonempty_sources s. rg_user_key (hd (pend s ! i)) = ?k}"
    unfolding set_map at h(2) by force
  have "set heap' = {x \<in> set ?h. he_user_key x \<noteq> ?k}" using sets es(3,4) by auto
  then have "set heap' = entry_of s ` {i \<in> nonempty_sources s. rg_user_key (hd (pend s ! i)) \<noteq> ?k}"
    unfolding h(2) Compr_image_eq entry_of_index .
  moreover have "- set ?is \<inter> nonempty_sources s = {i \<in> nonempty_sources s. rg_user_key (hd (pend s ! i)) \<noteq> ?k}"
    unfolding idx by blast
  ultimately have "set heap' = entry_of s ` (- set ?is \<inter> nonempty_sources s)" by simp
  then have "heap_holds (s\<lparr>ls_source_heap := heap'\<rparr>) (- set ?is)"
    using dist by (simp add: heap_holds_def nonempty_sources_def entry_of_def)
  moreover have "\<forall>i\<in>nonempty_sources s. \<not> key_before ?dir (rg_user_key (hd (pend s ! i))) ?k"
    using first unfolding h(2) by simp
  ultimately show ?thesis
    using e es(1) di idx by (intro exI [of _ e] exI [of _ ?k] exI [of _ ?is] exI [of _ heap']) (simp add: heap_pop_def)
qed

lemma round_sets:
  assumes ok: "sources_ok s"
    and first: "\<forall>i\<in>nonempty_sources s. \<not> key_before (ls_direction s) (rg_user_key (hd (pend s ! i))) k"
    and inds: "set is = {i \<in> nonempty_sources s. rg_user_key (hd (pend s ! i)) = k}"
    and len: "length (ls_sources s') = length (ls_sources s)"
    and pend: "\<forall>i<length (ls_sources s). pend s' ! i = (if i \<in> set is then tl (pend s ! i) else pend s ! i)"
  shows "(\<Union>i\<in>set is. set (rg_records (hd (pend s ! i)))) = {r \<in> scan_records s. user_key (fst r) = k}"
    "scan_records s' = {r \<in> scan_records s. key_before (ls_direction s) k (user_key (fst r))}"
    "\<forall>r\<in>scan_records s. user_key (fst r) = k \<or> key_before (ls_direction s) k (user_key (fst r))"
    "i \<in> set is \<Longrightarrow> rg_records (hd (pend s ! i)) \<noteq> []"
proof -
  let ?n = "length (ls_sources s)" and ?dir = "ls_direction s"
  have isi: "i \<in> set is \<longleftrightarrow> i < ?n \<and> pend s ! i \<noteq> [] \<and> rg_user_key (hd (pend s ! i)) = k" for i
    unfolding inds nonempty_sources_def by blast
  note at = source_at_key [OF pend_ordered [OF ok], where k = k]
  have fst: "pend s ! i \<noteq> [] \<longrightarrow> \<not> key_before ?dir (rg_user_key (hd (pend s ! i))) k" if "i < ?n" for i
    using first that unfolding nonempty_sources_def by blast
  have "{r \<in> scan_records s. user_key (fst r) = k} = (\<Union>i\<in>{..<?n}. {r \<in> groups_records (pend s ! i). user_key (fst r) = k})"
    unfolding scan_records_nth by blast
  also have "\<dots> = (\<Union>i\<in>{..<?n}. if i \<in> set is then set (rg_records (hd (pend s ! i))) else {})"
    using at(1) [OF _ fst] isi by (intro SUP_cong refl) (simp del: pend_updates(4))
  finally show "(\<Union>i\<in>set is. set (rg_records (hd (pend s ! i)))) = {r \<in> scan_records s. user_key (fst r) = k}"
    using isi by (auto simp del: pend_updates(4) split: if_splits)
  have "scan_records s' = (\<Union>i\<in>{..<?n}. groups_records (if pend s ! i \<noteq> [] \<and> rg_user_key (hd (pend s ! i)) = k then tl (pend s ! i) else pend s ! i))"
    unfolding scan_records_nth len using pend isi by (intro SUP_cong) (simp_all del: pend_updates(4))
  also have "\<dots> = (\<Union>i\<in>{..<?n}. {r \<in> groups_records (pend s ! i). key_before ?dir k (user_key (fst r))})"
    using at(2) [OF _ fst] by (intro SUP_cong refl) (simp del: pend_updates(4))
  finally show "scan_records s' = {r \<in> scan_records s. key_before ?dir k (user_key (fst r))}"
    unfolding scan_records_nth by blast
  show "\<forall>r\<in>scan_records s. user_key (fst r) = k \<or> key_before ?dir k (user_key (fst r))"
    using at(3) [OF _ fst] unfolding scan_records_nth by blast
  show "rg_records (hd (pend s ! i)) \<noteq> []" if "i \<in> set is"
    using group_head(1) [of ?dir "hd (pend s ! i)" "tl (pend s ! i)"] pend_ordered [OF ok, of i] isi that
    by (simp del: pend_updates(4))
qed

lemma next_round_some:
  assumes ok: "sources_ok s" and heap: "heap_holds s UNIV" and ne: "scan_records s \<noteq> {}"
  shows "\<exists>k rs s'. next_round s = and_then (visible_lazy_item_from_records s' rs) (\<lambda>item. Inr (Some item, s')) \<and>
    rs \<noteq> [] \<and> set rs = {r \<in> scan_records s. user_key (fst r) = k} \<and>
    (\<forall>r\<in>scan_records s. user_key (fst r) = k \<or> key_before (ls_direction s) k (user_key (fst r))) \<and>
    scan_records s' = {r \<in> scan_records s. key_before (ls_direction s) k (user_key (fst r))} \<and>
    sources_ok s' \<and> heap_holds s' UNIV \<and> ls_static s' = ls_static s"
proof -
  let ?dir = "ls_direction s"
  obtain i0 where i0: "i0 < length (ls_sources s)" "groups_records (pend s ! i0) \<noteq> {}" using ne unfolding scan_records_nth by auto
  then have "i0 \<in> nonempty_sources s" unfolding nonempty_sources_def by (auto simp del: pend_updates(4))
  then have "ls_source_heap s \<noteq> []" using heap by (auto simp: heap_holds_def)
  from pop_round [OF ok heap this] obtain e k "is" heap' where
    pop: "heap_pop (ls_source_heap s) = Some (e, remove1 e (ls_source_heap s))" "he_user_key e = k"
      "pop_same_key k (remove1 e (ls_source_heap s)) [he_source_index e] = (is, heap')"
    and inds: "is \<noteq> []" "distinct is" "set is = {i \<in> nonempty_sources s. rg_user_key (hd (pend s ! i)) = k}"
    and heap': "heap_holds (s\<lparr>ls_source_heap := heap'\<rparr>) (- set is)"
    and first: "\<forall>i\<in>nonempty_sources s. \<not> key_before ?dir (rg_user_key (hd (pend s ! i))) k"
    by (elim exE conjE)
  let ?s = "s\<lparr>ls_source_heap := heap'\<rparr>"
  have oks: "sources_ok ?s" using ok by (simp add: sources_ok_def)
  have isok: "\<forall>i\<in>set is. i < length (ls_sources ?s) \<and> i \<notin> - set is \<and> pend ?s ! i \<noteq> []"
    using inds(3) unfolding nonempty_sources_def by (simp del: pend_updates(4))
  from take_sources_eq [OF oks heap' inds(2) isok, of None] obtain s' out where
    taken: "fold_result take_source is (None, ?s) = Inr (out, s')" "is \<noteq> [] \<or> (None :: point_record list option) \<noteq> None \<longrightarrow> out \<noteq> None"
      "set (case out of None \<Rightarrow> [] | Some rs \<Rightarrow> rs) = set (case None of None \<Rightarrow> [] | Some rs \<Rightarrow> rs) \<union>
         (\<Union>i\<in>set is. set (rg_records (hd (pend ?s ! i))))"
    and s': "sources_ok s'" "heap_holds s' (- set is \<union> set is)" "length (ls_sources s') = length (ls_sources ?s)"
      "\<forall>i<length (ls_sources ?s). pend s' ! i = (if i \<in> set is then tl (pend ?s ! i) else pend ?s ! i)"
      "ls_static s' = ls_static ?s"
    by (elim exE conjE)
  obtain rs where rs: "out = Some rs" using taken(2) inds(1) by auto
  have s'': "length (ls_sources s') = length (ls_sources s)"
    "\<forall>i<length (ls_sources s). pend s' ! i = (if i \<in> set is then tl (pend s ! i) else pend s ! i)"
    using s'(3,4) by (simp_all del: pend_updates(4))
  note sets = round_sets [OF ok first inds(3) s'']
  have set_rs: "set rs = {r \<in> scan_records s. user_key (fst r) = k}" using taken(3) sets(1) by (simp add: rs)
  obtain i1 where i1: "i1 \<in> set is" using inds(1) by (cases "is") auto
  have "rs \<noteq> []" using taken(3) sets(4) [OF i1] i1 by (force simp: rs simp del: pend_updates(4))
  moreover have "next_round s = and_then (visible_lazy_item_from_records s' rs) (\<lambda>item. Inr (Some item, s'))"
    using pop taken(1) by (simp add: next_round_def rs)
  ultimately show ?thesis
    using set_rs sets(2,3) s' by (intro exI [of _ k] exI [of _ rs] exI [of _ s']) simp
qed

section \<open>The row of a key\<close>

text \<open>The blob reader of the reference semantics: absent when the scan belongs to a database in memory.\<close>

definition scan_blobs ::
  "(value_ref \<Rightarrow> internal_key \<Rightarrow> bytes result) \<Rightarrow> lazy_scan \<Rightarrow> (value_ref \<Rightarrow> internal_key \<Rightarrow> bytes result) option" where
  "scan_blobs read_blob s = (if ls_has_db_path s then Some read_blob else None)"

definition answer ::
  "(value_ref \<Rightarrow> internal_key \<Rightarrow> bytes result) \<Rightarrow> lazy_scan \<Rightarrow> bytes \<Rightarrow> bytes option \<Rightarrow> bool" where
  "answer read_blob s k v \<longleftrightarrow>
     mvcc_read (scan_blobs read_blob s) (scan_records s) (set (ls_range_tombstones s)) k (ls_read_sequence s) (Ok v)"

text \<open>Every value a scan may have to return can be read.\<close>

definition readable :: "(value_ref \<Rightarrow> internal_key \<Rightarrow> bytes result) option \<Rightarrow> point_record set \<Rightarrow> bool" where
  "readable read_blob R \<longleftrightarrow>
     (\<forall>r\<in>R. ik_kind (fst r) \<noteq> RangeDelete \<and>
        (ik_kind (fst r) = Put \<longrightarrow> is_ok (point_value read_blob (snd r) (fst r))))"

definition scan_ready :: "(value_ref \<Rightarrow> internal_key \<Rightarrow> bytes result) \<Rightarrow> lazy_scan \<Rightarrow> bool" where
  "scan_ready read_blob s \<longleftrightarrow>
     sources_ok s \<and> heap_holds s UNIV \<and> tombstones_sorted rt_range (ls_range_tombstones s) \<and>
     readable (scan_blobs read_blob s) (scan_records s) \<and> ls_source_heap_initialized s"

lemma range_tombstones_cover_hidden:
  "tombstones_sorted rt_range ts \<Longrightarrow>
   range_tombstones_cover ts (user_key ik) (ik_sequence ik) (batch_index ik) s \<longleftrightarrow> hidden_by (set ts) ik s"
  by (auto simp: range_tombstones_cover_def covering_key_filter hidden_by_def list_ex_iff covers_visible_point_iff)

text \<open>The loop over the versions of a key decides by the first visible one.\<close>

definition lazy_row :: "lazy_scan \<Rightarrow> point_record option \<Rightarrow> lazy_key_value option result" where
  "lazy_row s c =
     (case c of
        None \<Rightarrow> Ok None
      | Some (ik, v) \<Rightarrow>
          if ik_kind ik \<noteq> Put \<or> hidden_by (set (ls_range_tombstones s)) ik (ls_read_sequence s) then Ok None
          else and_then (lazy_value_of (ls_has_db_path s) v ik) (\<lambda>lv. Ok (Some \<lparr>lkv_key = user_key ik, lkv_value = lv\<rparr>)))"

lemma visible_item_sorted:
  assumes "tombstones_sorted rt_range (ls_range_tombstones s)" "\<forall>r\<in>set rs. ik_kind (fst r) \<noteq> RangeDelete"
  shows "and_then (visible_lazy_item_from_sorted_records s rs) (\<lambda>visibility. Inr (into_item visibility)) =
    lazy_row s (find (\<lambda>r. ik_sequence (fst r) \<le> ls_read_sequence s) rs)"
  using assms(2)
proof (induction rs)
  case Nil
  then show ?case by (simp add: lazy_row_def)
next
  case (Cons r rs)
  obtain ik v where r: "r = (ik, v)" by (cases r)
  show ?case
  proof (cases "ik_sequence ik > ls_read_sequence s")
    case True
    then show ?thesis using Cons by (auto simp: r)
  next
    case False
    have "ik_kind ik = Put \<or> ik_kind ik = PointDelete" using Cons(2) by (cases "ik_kind ik") (auto simp: r)
    then show ?thesis
      using False
      by (cases "lazy_value_of (ls_has_db_path s) v ik")
        (auto simp: r lazy_row_def range_tombstones_cover_hidden [OF assms(1)])
  qed
qed

lemma visible_records_find:
  assumes "\<forall>r\<in>set rs. user_key (fst r) = k"
  shows "newest_of (find (\<lambda>r. ik_sequence (fst r) \<le> s) (sort_by compare_scan_records rs)) (visible_records k s (set rs))"
proof -
  have "total_preorder compare_scan_records"
    using total_preorder_cmp [of fst] by (simp add: compare_scan_records_def [abs_def])
  then have "sorted_by compare_scan_records (sort_by compare_scan_records rs)" by (rule sorted_by_sort_by)
  then have st: "sorted (map fst (sort_by compare_scan_records rs))"
    by (simp add: sorted_by_def compare_scan_records_def sorted_map order_simps not_less)
  have eq: "{e \<in> set (sort_by compare_scan_records rs). ik_sequence (fst e) \<le> s} = visible_records k s (set rs)"
    using assms by (auto simp: record_simps)
  show ?thesis by (rule find_newest [OF st, of "\<lambda>r. ik_sequence (fst r) \<le> s", unfolded eq])
qed

lemma lazy_value_point_value:
  assumes "point_value (scan_blobs read_blob s) v ik = Inr bs"
  shows "\<exists>lv. lazy_value_of (ls_has_db_path s) v ik = Inr lv \<and> into_value_sync read_blob lv = Inr bs"
proof (cases v)
  case (Some x)
  then show ?thesis
    using assms by (cases x; cases "ls_has_db_path s")
      (auto simp: point_value_def lazy_value_of_def scan_blobs_def ok_or_def)
qed (use assms in \<open>simp add: point_value_def ok_or_def\<close>)

lemma round_answer:
  assumes sorted: "tombstones_sorted rt_range (ls_range_tombstones s)"
    and rs: "set rs = {r \<in> R. user_key (fst r) = k}" and ok: "readable (scan_blobs read_blob s) R"
  shows "\<exists>item. visible_lazy_item_from_records s rs = Inr item \<and>
    (\<exists>v. (case item of None \<Rightarrow> v = None | Some i \<Rightarrow> \<exists>bs. v = Some bs \<and> into_key_value_sync read_blob i = Inr (k, bs)) \<and>
      mvcc_read (scan_blobs read_blob s) R (set (ls_range_tombstones s)) k (ls_read_sequence s) (Inr v))"
proof -
  let ?c = "find (\<lambda>r. ik_sequence (fst r) \<le> ls_read_sequence s) (sort_by compare_scan_records rs)"
  have "\<forall>r\<in>set (sort_by compare_scan_records rs). ik_kind (fst r) \<noteq> RangeDelete"
    using ok rs by (simp add: readable_def)
  then have item: "visible_lazy_item_from_records s rs = lazy_row s ?c"
    using visible_item_sorted [OF sorted] by (simp add: visible_lazy_item_from_records_def)
  have "visible_records k (ls_read_sequence s) (set rs) = visible_records k (ls_read_sequence s) R"
    unfolding rs by (auto simp: record_simps)
  then have newest: "newest_of ?c (visible_records k (ls_read_sequence s) R)"
    using visible_records_find [of rs k "ls_read_sequence s"] rs by simp
  note read = mvcc_readI [OF newest refl, of "scan_blobs read_blob s" "set (ls_range_tombstones s)"]
  show ?thesis
  proof (cases "\<exists>ik v. ?c = Some (ik, v) \<and> ik_kind ik = Put \<and> \<not> hidden_by (set (ls_range_tombstones s)) ik (ls_read_sequence s)")
    case False
    then have "lazy_row s ?c = Inr None"
      "mvcc_result (scan_blobs read_blob s) (set (ls_range_tombstones s)) (ls_read_sequence s) ?c = Inr None"
      by (auto simp: lazy_row_def mvcc_result_def split: option.split)
    then show ?thesis using item read by auto
  next
    case True
    then obtain ik v where c: "?c = Some (ik, v)" "ik_kind ik = Put"
      "\<not> hidden_by (set (ls_range_tombstones s)) ik (ls_read_sequence s)" by blast
    have mem: "(ik, v) \<in> R" "user_key ik = k" using newest by (simp_all add: c(1) record_simps)
    then obtain bs where bs: "point_value (scan_blobs read_blob s) v ik = Inr bs"
      using ok c(2) by (fastforce simp: readable_def is_ok_iff)
    then obtain lv where lv: "lazy_value_of (ls_has_db_path s) v ik = Inr lv" "into_value_sync read_blob lv = Inr bs"
      using lazy_value_point_value by blast
    have "lazy_row s ?c = Inr (Some \<lparr>lkv_key = k, lkv_value = lv\<rparr>)" using c lv mem(2) by (simp add: lazy_row_def)
    moreover have "into_key_value_sync read_blob \<lparr>lkv_key = k, lkv_value = lv\<rparr> = Inr (k, bs)"
      using lv(2) by (simp add: into_key_value_sync_def)
    moreover have "mvcc_result (scan_blobs read_blob s) (set (ls_range_tombstones s)) (ls_read_sequence s) ?c = Inr (Some bs)"
      using c bs by (simp add: mvcc_result_def)
    ultimately show ?thesis using item read by auto
  qed
qed

section \<open>The loop\<close>

lemma finite_scan_records [simp]: "finite (scan_records s)"
  by (simp add: scan_records_def groups_records_def)

lemma answer_cong:
  assumes "ls_static s' = ls_static s"
    "visible_records k (ls_read_sequence s) (scan_records s') = visible_records k (ls_read_sequence s) (scan_records s)"
  shows "answer read_blob s' k v \<longleftrightarrow> answer read_blob s k v"
  using mvcc_read_cong [OF assms(2)] ls_static_eqD [OF assms(1)] by (simp add: answer_def scan_blobs_def)

lemma answer_none:
  "visible_records k (ls_read_sequence s) (scan_records s) = {} \<Longrightarrow> answer read_blob s k None"
  unfolding answer_def by (rule mvcc_readI [of None]) (simp_all add: mvcc_result_def)

lemma scan_ready_static:
  assumes "scan_ready read_blob s" "ls_static s' = ls_static s" "sources_ok s'" "heap_holds s' UNIV"
    "scan_records s' \<subseteq> scan_records s"
  shows "scan_ready read_blob s'"
  using assms ls_static_eqD [OF assms(2)] by (auto simp: scan_ready_def scan_blobs_def readable_def)

text \<open>What a call of the loop returns: no row, and then no key has one, or the row of the first key that
  has one, and then the records behind that key are left.\<close>

definition loop_result ::
  "(value_ref \<Rightarrow> internal_key \<Rightarrow> bytes result) \<Rightarrow> lazy_scan \<Rightarrow> lazy_key_value option \<Rightarrow> lazy_scan \<Rightarrow> bool" where
  "loop_result read_blob s item s' \<longleftrightarrow>
     scan_ready read_blob s' \<and> ls_static s' = ls_static s \<and>
     (case item of
        None \<Rightarrow> (\<forall>k. answer read_blob s k None)
      | Some i \<Rightarrow>
          (\<exists>k bs. into_key_value_sync read_blob i = Inr (k, bs) \<and> answer read_blob s k (Some bs) \<and>
             k \<in> (\<lambda>r. user_key (fst r)) ` scan_records s \<and>
             (\<forall>k'. key_before (ls_direction s) k' k \<longrightarrow> answer read_blob s k' None) \<and>
             scan_records s' = {r \<in> scan_records s. key_before (ls_direction s) k (user_key (fst r))}))"

lemma loop_result_skip:
  assumes later: "loop_result read_blob s1 item s'" and static: "ls_static s1 = ls_static s"
    and none: "answer read_blob s k None"
    and recs: "scan_records s1 = {r \<in> scan_records s. key_before (ls_direction s) k (user_key (fst r))}"
    and all: "\<forall>r\<in>scan_records s. user_key (fst r) = k \<or> key_before (ls_direction s) k (user_key (fst r))"
  shows "loop_result read_blob s item s'"
proof -
  let ?dir = "ls_direction s"
  have dir: "ls_direction s1 = ?dir" using ls_static_eqD(1) [OF static] .
  have base: "scan_ready read_blob s'" "ls_static s' = ls_static s" using later static by (simp_all add: loop_result_def)
  have same: "answer read_blob s1 k' v \<longleftrightarrow> answer read_blob s k' v" if "k' \<noteq> k" for k' v
    by (rule answer_cong [OF static]) (use that all in \<open>unfold visible_records_def recs, blast\<close>)
  show ?thesis
  proof (cases item)
    case None
    then have "answer read_blob s1 k' None" for k' using later by (simp add: loop_result_def)
    then have "answer read_blob s k' None" for k' using none same by (cases "k' = k") auto
    then show ?thesis using base None by (simp add: loop_result_def)
  next
    case (Some i)
    obtain k2 bs where k2: "into_key_value_sync read_blob i = Inr (k2, bs)" "answer read_blob s1 k2 (Some bs)"
      "k2 \<in> (\<lambda>r. user_key (fst r)) ` scan_records s1" "\<forall>k'. key_before ?dir k' k2 \<longrightarrow> answer read_blob s1 k' None"
      "scan_records s' = {r \<in> scan_records s1. key_before ?dir k2 (user_key (fst r))}"
      using later unfolding loop_result_def Some option.case dir by blast
    have b: "key_before ?dir k k2" "k2 \<in> (\<lambda>r. user_key (fst r)) ` scan_records s" using k2(3) recs by auto
    then have "k2 \<noteq> k" by (metis key_before_irrefl)
    then have "answer read_blob s k2 (Some bs)" using k2(2) same by blast
    moreover have "\<forall>k'. key_before ?dir k' k2 \<longrightarrow> answer read_blob s k' None" 
    proof (intro allI impI)
      fix k' assume "key_before ?dir k' k2"
      then show "answer read_blob s k' None" using k2(4) none same by (cases "k' = k") auto
    qed
    moreover have "scan_records s' = {r \<in> scan_records s. key_before ?dir k2 (user_key (fst r))}"
      unfolding k2(5) recs using b(1) key_before_trans by blast
    ultimately show ?thesis using base k2(1) b(2) Some by (auto simp: loop_result_def)
  qed
qed

lemma next_loop_eq:
  assumes "scan_ready read_blob s"
  shows "\<exists>item s'. next_loop s = Some (Inr (item, s')) \<and> loop_result read_blob s item s'"
  using assms
proof (induction "card (scan_records s)" arbitrary: s rule: less_induct)
  case less
  have ok: "sources_ok s" "heap_holds s UNIV" and ready: "tombstones_sorted rt_range (ls_range_tombstones s)"
    "readable (scan_blobs read_blob s) (scan_records s)"
    using less(2) by (simp_all add: scan_ready_def)
  show ?case
  proof (cases "scan_records s = {}")
    case True
    then have "answer read_blob s k None" for k by (intro answer_none) (simp add: record_simps)
    then show ?thesis
      using next_round_empty [OF ok True] less(2) by (simp add: next_loop.simps loop_result_def)
  next
    case False
    from next_round_some [OF ok False] obtain k rs s1 where
      round: "next_round s = and_then (visible_lazy_item_from_records s1 rs) (\<lambda>item. Inr (Some item, s1))"
        "rs \<noteq> []" "set rs = {r \<in> scan_records s. user_key (fst r) = k}"
      and all: "\<forall>r\<in>scan_records s. user_key (fst r) = k \<or> key_before (ls_direction s) k (user_key (fst r))"
      and recs: "scan_records s1 = {r \<in> scan_records s. key_before (ls_direction s) k (user_key (fst r))}"
      and s1: "sources_ok s1" "heap_holds s1 UNIV" "ls_static s1 = ls_static s"
      by (elim exE conjE)
    have ready1: "scan_ready read_blob s1"
      by (rule scan_ready_static [OF less(2) s1(3,1,2)]) (use recs in blast)
    note st = ls_static_eqD [OF s1(3)]
    obtain item v where item: "visible_lazy_item_from_records s1 rs = Inr item"
      "case item of None \<Rightarrow> v = None | Some i \<Rightarrow> \<exists>bs. v = Some bs \<and> into_key_value_sync read_blob i = Inr (k, bs)"
      "answer read_blob s k v"
      using round_answer [of s1 rs "scan_records s" k read_blob] ready round(3) st
      by (auto simp: answer_def scan_blobs_def)
    have mem: "k \<in> (\<lambda>r. user_key (fst r)) ` scan_records s" using round(2,3) by (cases rs) auto
    show ?thesis
    proof (cases item)
      case None
      obtain r0 where "r0 \<in> scan_records s" "user_key (fst r0) = k" using mem by blast
      then have "r0 \<in> scan_records s" "r0 \<notin> scan_records s1" by (simp_all add: recs)
      moreover have "scan_records s1 \<subseteq> scan_records s" using recs by blast
      ultimately have "card (scan_records s1) < card (scan_records s)"
        by (intro psubset_card_mono finite_scan_records) blast
      from less(1) [OF this ready1] obtain item' s' where
        "next_loop s1 = Some (Inr (item', s'))" "loop_result read_blob s1 item' s'" by blast
      then show ?thesis
        using loop_result_skip [OF _ s1(3) _ recs all] item round(1) None by (auto simp: next_loop.simps [of s])
    next
      case (Some i)
      have "answer read_blob s k' None" if b: "key_before (ls_direction s) k' k" for k'
      proof -
        have "user_key (fst r) \<noteq> k'" if "r \<in> scan_records s" for r
          using bspec [OF all that] key_before_asym [OF b] b by auto
        then have "visible_records k' (ls_read_sequence s) (scan_records s) = {}"
          unfolding visible_records_def by blast
        then show ?thesis by (rule answer_none)
      qed
      then have "loop_result read_blob s item s1"
        using item Some ready1 s1(3) recs mem by (auto simp: loop_result_def)
      then show ?thesis using item(1) round(1) Some by (simp add: next_loop.simps [of s])
    qed
  qed
qed

section \<open>All rows of a scan\<close>

text \<open>A caller that asks for rows until there is none left.\<close>

partial_function (option) scan_rows ::
  "(value_ref \<Rightarrow> internal_key \<Rightarrow> bytes result) \<Rightarrow> lazy_scan \<Rightarrow> (bytes \<times> bytes) list result option" where
  "scan_rows read_blob s =
     (case scan_next read_blob s of
        None \<Rightarrow> None
      | Some r \<Rightarrow>
          (case r of
             Inl e \<Rightarrow> Some (Err e)
           | Inr (row, s') \<Rightarrow>
               (case row of
                  None \<Rightarrow> Some (Ok [])
                | Some kv \<Rightarrow>
                    Option.bind (scan_rows read_blob s')
                      (\<lambda>rows. Some (and_then rows (\<lambda>rows. Ok (kv # rows)))))))"

lemma scan_rows_ready:
  assumes "scan_ready read_blob s"
  shows "\<exists>rows. scan_rows read_blob s = Some (Inr rows) \<and> sorted_wrt (key_before (ls_direction s)) (map fst rows) \<and>
    fst ` set rows \<subseteq> (\<lambda>r. user_key (fst r)) ` scan_records s \<and> (\<forall>k. answer read_blob s k (map_of rows k))"
  using assms
proof (induction "card (scan_records s)" arbitrary: s rule: less_induct)
  case less
  let ?dir = "ls_direction s"
  obtain item s' where item: "next_loop s = Some (Inr (item, s'))" "loop_result read_blob s item s'"
    using next_loop_eq [OF less(2)] by blast
  have next_lazy: "next_lazy s = Some (Inr (item, s'))"
    using item(1) less(2) by (simp add: next_lazy_def scan_ready_def)
  show ?case
  proof (cases item)
    case None
    then have "scan_rows read_blob s = Some (Inr [])" using next_lazy by (simp add: scan_rows.simps scan_next_def)
    moreover have "\<forall>k. answer read_blob s k None" using item(2) None by (simp add: loop_result_def)
    ultimately show ?thesis by simp
  next
    case (Some i)
    obtain k bs where k: "into_key_value_sync read_blob i = Inr (k, bs)" "answer read_blob s k (Some bs)"
      "k \<in> (\<lambda>r. user_key (fst r)) ` scan_records s" "\<forall>k'. key_before ?dir k' k \<longrightarrow> answer read_blob s k' None"
      "scan_records s' = {r \<in> scan_records s. key_before ?dir k (user_key (fst r))}"
      and s': "scan_ready read_blob s'" "ls_static s' = ls_static s"
      using item(2) unfolding loop_result_def Some option.case by blast
    obtain r0 where "r0 \<in> scan_records s" "user_key (fst r0) = k" using k(3) by blast
    then have "r0 \<in> scan_records s" "r0 \<notin> scan_records s'" by (simp_all add: k(5))
    moreover have sub: "scan_records s' \<subseteq> scan_records s" using k(5) by blast
    ultimately have "card (scan_records s') < card (scan_records s)"
      by (intro psubset_card_mono finite_scan_records) blast
    from less(1) [OF this s'(1)] obtain rows where
      rows: "scan_rows read_blob s' = Some (Inr rows)" "sorted_wrt (key_before ?dir) (map fst rows)"
        "fst ` set rows \<subseteq> (\<lambda>r. user_key (fst r)) ` scan_records s'" "\<forall>k. answer read_blob s' k (map_of rows k)"
      using ls_static_eqD(1) [OF s'(2)] by auto
    have "scan_next read_blob s = Some (Inr (Some (k, bs), s'))"
      using next_lazy k(1) Some by (simp add: scan_next_def)
    then have "scan_rows read_blob s = Some (Inr ((k, bs) # rows))"
      using rows(1) by (simp add: scan_rows.simps [of read_blob s])
    moreover have after: "\<forall>k'\<in>fst ` set rows. key_before ?dir k k'" using rows(3) k(5) by auto
    then have "sorted_wrt (key_before ?dir) (map fst ((k, bs) # rows))" using rows(2) by simp
    moreover have "answer read_blob s k' (map_of ((k, bs) # rows) k')" for k'
    proof -
      consider "k' = k" | "key_before ?dir k' k" | "key_before ?dir k k'" using key_before_linear by blast
      then show ?thesis
      proof cases
        case 2
        then have "k' \<noteq> k" "k' \<notin> fst ` set rows" using after key_before_asym key_before_irrefl by blast+
        then show ?thesis using k(4) 2 by (simp add: map_of_eq_None_iff [THEN iffD2])
      next
        case 3
        then have "k' \<noteq> k" by (metis key_before_irrefl)
        moreover have "answer read_blob s k' v \<longleftrightarrow> answer read_blob s' k' v" for v
          by (rule answer_cong [OF s'(2), symmetric]) (use 3 in \<open>unfold visible_records_def k(5), blast\<close>)
        ultimately show ?thesis using rows(4) by simp
      qed (use k(2) in simp)
    qed
    moreover have "fst ` set ((k, bs) # rows) \<subseteq> (\<lambda>r. user_key (fst r)) ` scan_records s"
      using subset_trans [OF rows(3) image_mono [OF sub]] k(3) by simp
    ultimately show ?thesis by (intro exI [of _ "(k, bs) # rows"]) blast
  qed
qed

text \<open>The first call builds the heap.\<close>

lemma initialize_source_heap_eq:
  assumes "sources_ok s" "ls_source_heap s = []"
  shows "\<exists>s'. initialize_source_heap s = Inr s' \<and> sources_ok s' \<and> heap_holds s' UNIV \<and> pend s' = pend s \<and>
    ls_source_heap_initialized s' \<and> ls_static s' = (ls_static s)\<lparr>ls_source_heap_initialized := True\<rparr>"
proof -
  have "\<exists>s'. fold_result push_source_heap_entry [0..<n] s = Inr s' \<and> sources_ok s' \<and> heap_holds s' {..<n} \<and>
      pend s' = pend s \<and> ls_static s' = ls_static s" if "n \<le> length (ls_sources s)" for n
    using that
  proof (induction n)
    case 0
    then show ?case using assms by (simp add: heap_holds_def)
  next
    case (Suc n)
    then obtain s1 where s1: "fold_result push_source_heap_entry [0..<n] s = Inr s1" "sources_ok s1"
      "heap_holds s1 {..<n}" "pend s1 = pend s" "ls_static s1 = ls_static s" by auto
    have "n < length (ls_sources s1)" using Suc(2) s1(4) by (metis Suc_le_eq pend_updates(1))
    then obtain s2 where "push_source_heap_entry n s1 = Inr s2" "sources_ok s2" "heap_holds s2 (insert n {..<n})"
      "pend s2 = pend s1" "ls_static s2 = ls_static s1"
      using push_source_heap_entry_eq [OF s1(2,3)] by blast
    then show ?case using s1 by (simp add: fold_result_append lessThan_Suc)
  qed
  from this [of "length (ls_sources s)"] obtain s1 where
    s1: "fold_result push_source_heap_entry [0..<length (ls_sources s)] s = Inr s1" "sources_ok s1"
      "heap_holds s1 {..<length (ls_sources s)}" "pend s1 = pend s" "ls_static s1 = ls_static s" by auto
  let ?s = "s1\<lparr>ls_source_heap_initialized := True\<rparr>"
  have "length (ls_sources s1) = length (ls_sources s)" using s1(4) by (metis pend_updates(1))
  then have "{..<length (ls_sources s)} \<inter> nonempty_sources s1 = nonempty_sources ?s"
    by (auto simp: nonempty_sources_def)
  moreover have "entry_of ?s = entry_of s1" by (simp add: entry_of_def fun_eq_iff)
  ultimately have "heap_holds ?s UNIV" using s1(3) by (simp add: heap_holds_def)
  moreover have "ls_static ?s = (ls_static s)\<lparr>ls_source_heap_initialized := True\<rparr>"
    using s1(5) by (cases s; cases s1) (simp add: ls_static_def)
  ultimately show ?thesis
    using s1(1,2,4) by (simp add: initialize_source_heap_def sources_ok_def)
qed

lemma scan_rows_from_sources:
  assumes ok: "\<forall>src\<in>set sources. rs_ok src \<and> rs_direction src = dir"
    and R: "R = (\<Union>src\<in>set sources. groups_records (rs_pending src))"
    and vals: "readable (if has_db_path then Some read_blob else None) R"
  shows "\<exists>rows. scan_rows read_blob (from_sources dir read_sequence has_db_path tombstones sources) = Some (Inr rows) \<and>
    sorted_wrt (key_before dir) (map fst rows) \<and> fst ` set rows \<subseteq> (\<lambda>r. user_key (fst r)) ` R \<and>
    (\<forall>k. mvcc_read (if has_db_path then Some read_blob else None) R (set tombstones) k read_sequence (Inr (map_of rows k)))"
proof -
  let ?s = "from_sources dir read_sequence has_db_path tombstones sources"
  have "sources_ok ?s" "ls_source_heap ?s = []" using ok by (simp_all add: from_sources_def sources_ok_def)
  then obtain s' where s': "initialize_source_heap ?s = Inr s'" "sources_ok s'" "heap_holds s' UNIV" "pend s' = pend ?s"
    "ls_source_heap_initialized s'" "ls_static s' = (ls_static ?s)\<lparr>ls_source_heap_initialized := True\<rparr>"
    using initialize_source_heap_eq by blast
  have st: "ls_direction s' = dir" "ls_read_sequence s' = read_sequence" "ls_has_db_path s' = has_db_path"
    "ls_range_tombstones s' = rti_new rt_range tombstones"
    using s'(6) by (cases s'; simp add: ls_static_def from_sources_def)+
  have recs: "scan_records s' = R" unfolding scan_records_def s'(4) R by (simp add: pend_def from_sources_def)
  have ready: "scan_ready read_blob s'"
    using s'(2,3,5) vals st recs by (simp add: scan_ready_def scan_blobs_def tombstones_sorted_rti_new)
  have "next_lazy ?s = next_lazy s'" using s'(1,5) by (simp add: next_lazy_def from_sources_def)
  then have "scan_rows read_blob ?s = scan_rows read_blob s'"
    by (simp add: scan_rows.simps [of read_blob ?s] scan_rows.simps [of read_blob s'] scan_next_def)
  then show ?thesis
    using scan_rows_ready [OF ready] st recs by (simp add: answer_def scan_blobs_def rti_new_def)
qed

section \<open>The loops end\<close>

text \<open>Without any assumption on values and tombstones: a call returns, and a row it returns leaves fewer
  records behind.\<close>

definition merge_ok :: "lazy_scan \<Rightarrow> bool" where
  "merge_ok s \<longleftrightarrow> sources_ok s \<and> heap_holds s UNIV \<and> ls_source_heap_initialized s"

lemma next_loop_returns:
  assumes "merge_ok s"
  shows "\<exists>r. next_loop s = Some r \<and>
    (\<forall>item s'. r = Inr (Some item, s') \<longrightarrow> merge_ok s' \<and> scan_records s' \<subset> scan_records s)"
  using assms
proof (induction "card (scan_records s)" arbitrary: s rule: less_induct)
  case less
  have ok: "sources_ok s" "heap_holds s UNIV" "ls_source_heap_initialized s" using less(2) by (simp_all add: merge_ok_def)
  show ?case
  proof (cases "scan_records s = {}")
    case True
    then show ?thesis using next_round_empty [OF ok(1,2) True] by (simp add: next_loop.simps)
  next
    case False
    from next_round_some [OF ok(1,2) False] obtain k rs s1 where
      round: "next_round s = and_then (visible_lazy_item_from_records s1 rs) (\<lambda>item. Inr (Some item, s1))"
        "rs \<noteq> []" "set rs = {r \<in> scan_records s. user_key (fst r) = k}"
      and recs: "scan_records s1 = {r \<in> scan_records s. key_before (ls_direction s) k (user_key (fst r))}"
      and s1: "sources_ok s1" "heap_holds s1 UNIV" "ls_static s1 = ls_static s"
      by (elim exE conjE)
    have ok1: "merge_ok s1" using s1(1,2) ls_static_eqD(5) [OF s1(3)] ok(3) by (simp add: merge_ok_def)
    obtain r0 where "r0 \<in> set rs" using round(2) by (cases rs) auto
    then have "r0 \<in> scan_records s" "r0 \<notin> scan_records s1" using round(3) by (simp_all add: recs)
    then have sub: "scan_records s1 \<subset> scan_records s" using recs by blast
    show ?thesis
    proof (cases "visible_lazy_item_from_records s1 rs")
      case (Inl e)
      then show ?thesis using round(1) by (simp add: next_loop.simps)
    next
      case (Inr item)
      show ?thesis
      proof (cases item)
        case None
        have "card (scan_records s1) < card (scan_records s)" by (rule psubset_card_mono [OF finite_scan_records sub])
        then obtain r where r: "next_loop s1 = Some r"
          "\<forall>item s'. r = Inr (Some item, s') \<longrightarrow> merge_ok s' \<and> scan_records s' \<subset> scan_records s1"
          using less(1) [OF _ ok1] by blast
        have "next_loop s = Some r" using r(1) round(1) Inr None by (simp add: next_loop.simps [of s])
        then show ?thesis using r(2) sub by blast
      next
        case (Some i)
        then show ?thesis using round(1) Inr ok1 sub by (simp add: next_loop.simps [of s])
      qed
    qed
  qed
qed

lemma scan_rows_returns: "merge_ok s \<Longrightarrow> \<exists>r. scan_rows read_blob s = Some r"
proof (induction "card (scan_records s)" arbitrary: s rule: less_induct)
  case less
  obtain r where r: "next_loop s = Some r"
    "\<And>item s'. r = Inr (Some item, s') \<Longrightarrow> merge_ok s' \<and> scan_records s' \<subset> scan_records s"
    using next_loop_returns [OF less(2)] by blast
  have n: "next_lazy s = Some r" using r(1) less(2) by (simp add: next_lazy_def merge_ok_def)
  consider (err) e where "r = Inl e" | (none) s' where "r = Inr (None, s')" | (some) i s' where "r = Inr (Some i, s')"
    by (metis old.sum.exhaust option.exhaust surj_pair)
  then show ?case
  proof cases
    case some
    have s': "merge_ok s'" "scan_records s' \<subset> scan_records s" using r(2) some by blast+
    have "card (scan_records s') < card (scan_records s)" by (rule psubset_card_mono [OF finite_scan_records s'(2)])
    then obtain rows where "scan_rows read_blob s' = Some rows" using less(1) s'(1) by blast
    then show ?thesis
      using n some by (cases "into_key_value_sync read_blob i") (simp_all add: scan_rows.simps [of read_blob s] scan_next_def)
  qed (use n in \<open>simp_all add: scan_rows.simps [of read_blob s] scan_next_def\<close>)
qed

lemma scan_rows_from_sources_returns:
  assumes "\<forall>src\<in>set sources. rs_ok src \<and> rs_direction src = dir"
  shows "\<exists>r. scan_rows read_blob (from_sources dir read_sequence has_db_path tombstones sources) = Some r"
proof -
  let ?s = "from_sources dir read_sequence has_db_path tombstones sources"
  have "sources_ok ?s" "ls_source_heap ?s = []" using assms by (simp_all add: from_sources_def sources_ok_def)
  then obtain s' where s': "initialize_source_heap ?s = Inr s'" "merge_ok s'"
    using initialize_source_heap_eq [of ?s] by (auto simp: merge_ok_def)
  have "next_lazy ?s = next_lazy s'" using s' by (simp add: next_lazy_def from_sources_def merge_ok_def)
  then have "scan_rows read_blob ?s = scan_rows read_blob s'"
    by (simp add: scan_rows.simps [of read_blob ?s] scan_rows.simps [of read_blob s'] scan_next_def)
  then show ?thesis using scan_rows_returns [OF s'(2)] by simp
qed

end
