(* ===== verification/Lsm_Scan.thy ===== *)
theory Lsm_Scan
  imports Scan_Merge Lsm_Conflict
begin

text \<open>
  Scans of a tree (\<^verbatim>\<open>src/src/lsm/scan.rs\<close>) and the iterators the engine builds from them
  (\<^verbatim>\<open>src/src/db/engine/maintenance/reads.rs\<close>): the sources are captured, tables that no selected key
  can be in, that the prefix filter excludes or that a visible range tombstone hides completely are left
  out, and the rest is merged.

  Shown here: the rows of a scan are those of the reference semantics, one by one, for scans in reverse
  direction and for forward scans whose start does not meet a restart point of a table.
\<close>

record lsm_scan =
  sc_range_tombstones :: "range_tombstone list"
  sc_sources :: "record_source list"

record lsm_scan_source_snapshot =
  ss_deltas :: "in_memory_delta list"
  ss_active_memtable :: memtable
  ss_active_range_tombstones :: "range_tombstone list"
  ss_immutable_memtables :: "immutable_memtable list"

definition fully_hides_table ::
  "range_tombstone \<Rightarrow> bytes \<Rightarrow> bytes \<Rightarrow> sequence \<Rightarrow> sequence \<Rightarrow> bool" where
  "fully_hides_table x smallest largest table_largest_sequence read_sequence =
     (rt_sequence x \<le> read_sequence \<and> table_largest_sequence < rt_sequence x \<and>
      key_is_in_range smallest (rt_range x) \<and> key_is_in_range largest (rt_range x))"

definition scan_source_snapshot :: "lsm_tree \<Rightarrow> sequence \<Rightarrow> lsm_scan_source_snapshot" where
  "scan_source_snapshot t read_sequence =
     \<lparr>ss_deltas = (if delta_mirror_covers t read_sequence then [] else snapshot_all (delta_shards t)),
      ss_active_memtable = active_memtable t,
      ss_active_range_tombstones =
        (if active_range_tombstone_bytes t = 0 then [] else active_range_tombstones t),
      ss_immutable_memtables = (if has_immutable_memtable_fast t then immutable_memtables t else [])\<rparr>"

definition scan_memtable_range_tombstones :: "lsm_scan_source_snapshot \<Rightarrow> range_tombstone list" where
  "scan_memtable_range_tombstones snap =
     rti_new rt_range
       (concat (map d_range_tombstones (ss_deltas snap)) @ ss_active_range_tombstones snap @
        concat (map im_range_tombstones (ss_immutable_memtables snap)))"

definition scan_range_tombstones ::
  "lsm_scan_source_snapshot \<Rightarrow> lsm_version \<Rightarrow> scan_selector \<Rightarrow> range_tombstone list" where
  "scan_range_tombstones snap version sel =
     (let rng = selector_query_range sel
      in rti_new rt_range
           (overlapping_range rt_range (scan_memtable_range_tombstones snap) rng @
            concat (map (\<lambda>tab. range_tombstones_overlapping_range tab rng) (range_scan_tables version rng))))"

text \<open>The tables a scan reads.\<close>

definition scan_table ::
  "prefix_extractor \<Rightarrow> scan_selector \<Rightarrow> sequence \<Rightarrow> range_tombstone list \<Rightarrow> table \<Rightarrow> bool" where
  "scan_table extractor sel read_sequence tombstones tab =
     ((case sel of RangeSelector _ \<Rightarrow> True | PrefixSelector prefix \<Rightarrow> table_may_contain_prefix tab prefix extractor) \<and>
      \<not> list_ex (\<lambda>x. fully_hides_table x (smallest_user_key (properties tab)) (largest_user_key (properties tab))
            (largest_sequence (properties tab)) read_sequence) tombstones)"

definition scan_sources ::
  "lsm_tree \<Rightarrow> lsm_scan_source_snapshot \<Rightarrow> lsm_version \<Rightarrow> scan_selector \<Rightarrow> direction \<Rightarrow> sequence \<Rightarrow>
   range_tombstone list \<Rightarrow> record_source list" where
  "scan_sources t snap version sel dir read_sequence tombstones =
     map (\<lambda>d. source_memtable (d_memtable d) sel dir)
       (filter (\<lambda>d. \<not> (d_estimated_bytes d = 0 \<or> mt_estimated_bytes (d_memtable d) = 0)) (ss_deltas snap)) @
     [source_memtable (ss_active_memtable snap) sel dir] @
     map (\<lambda>im. source_memtable (im_memtable im) sel dir) (ss_immutable_memtables snap) @
     map (\<lambda>tab. source_table (point_cursor tab sel (bo_prefix_extractor (tree_options t)) dir
             (bo_index_search_policy (tree_options t))))
       (filter (scan_table (bo_prefix_extractor (tree_options t)) sel read_sequence tombstones)
          (range_scan_tables version (selector_query_range sel)))"

definition tree_scan :: "lsm_tree \<Rightarrow> scan_selector \<Rightarrow> direction \<Rightarrow> sequence \<Rightarrow> lsm_scan" where
  "tree_scan t sel dir read_sequence =
     (let snap = scan_source_snapshot t read_sequence; version = current_version t;
          tombstones = scan_range_tombstones snap version sel
      in \<lparr>sc_range_tombstones = tombstones,
          sc_sources = scan_sources t snap version sel dir read_sequence tombstones\<rparr>)"

text \<open>The iterators of the engine over a bucket. \<open>has_db_path\<close>: the database has a path.\<close>

definition scan_at_state_sequence :: "lsm_tree \<Rightarrow> bool \<Rightarrow> scan_selector \<Rightarrow> sequence \<Rightarrow> direction \<Rightarrow> lazy_scan" where
  "scan_at_state_sequence t has_db_path sel read_sequence dir =
     (let scan = tree_scan t sel dir read_sequence
      in from_sources dir read_sequence has_db_path (sc_range_tombstones scan) (sc_sources scan))"

definition range_at_state_sequence :: "lsm_tree \<Rightarrow> bool \<Rightarrow> key_range \<Rightarrow> sequence \<Rightarrow> direction \<Rightarrow> lazy_scan" where
  "range_at_state_sequence t has_db_path rng = scan_at_state_sequence t has_db_path (RangeSelector rng)"

definition prefix_at_state_sequence :: "lsm_tree \<Rightarrow> bool \<Rightarrow> bytes \<Rightarrow> sequence \<Rightarrow> direction \<Rightarrow> lazy_scan" where
  "prefix_at_state_sequence t has_db_path prefix = scan_at_state_sequence t has_db_path (PrefixSelector prefix)"

section \<open>The sources of a scan\<close>

lemma source_memtable_ok:
  assumes "memtable_ok m" "\<not> bounds_inverted (kr_start (selector_query_range sel)) (kr_end (selector_query_range sel))"
  shows "rs_ok (source_memtable m sel dir) \<and> rs_direction (source_memtable m sel dir) = dir"
    "groups_records (rs_pending (source_memtable m sel dir)) = {r \<in> set (mt_entries m). selects sel (user_key (fst r))}"
proof -
  note new = memtable_cursor_new_ok [OF assms, of dir]
  have dir: "mc_direction (memtable_cursor_new m sel dir) = dir" by (simp add: memtable_cursor_new_def)
  show "rs_ok (source_memtable m sel dir) \<and> rs_direction (source_memtable m sel dir) = dir"
    using new(1) dir mcur.pending_ordered [OF new(1)] by (simp add: rs_ok_def source_memtable_def rs_pending_def)
  show "groups_records (rs_pending (source_memtable m sel dir)) = {r \<in> set (mt_entries m). selects sel (user_key (fst r))}"
    by (simp add: source_memtable_def rs_pending_def new(2))
qed

definition scan_exact :: "direction \<Rightarrow> scan_selector \<Rightarrow> table \<Rightarrow> bool" where
  "scan_exact dir sel tab \<longleftrightarrow> dir = Reverse \<or> seek_exact tab sel"

lemma source_table_ok:
  assumes ok: "table_ok tab"
  shows "rs_ok (source_table (point_cursor tab sel ex dir policy)) \<and>
      rs_direction (source_table (point_cursor tab sel ex dir policy)) = dir"
    "scan_exact dir sel tab \<Longrightarrow> groups_records (rs_pending (source_table (point_cursor tab sel ex dir policy))) =
      {r \<in> set (table_records tab). selects sel (user_key (fst r))}"
proof -
  let ?c = "point_cursor tab sel ex dir policy"
  note new = point_cursor_reverse [OF ok, of sel ex policy] point_cursor_forward(1,4) [OF ok, of sel ex policy]
  have c: "tc_ok ?c" using new by (cases dir) simp_all
  show "rs_ok (source_table ?c) \<and> rs_direction (source_table ?c) = dir"
    using c tcur.pending_ordered [OF c] by (simp add: rs_ok_def source_table_def rs_pending_def)
  show "groups_records (rs_pending (source_table ?c)) = {r \<in> set (table_records tab). selects sel (user_key (fst r))}"
    if "scan_exact dir sel tab"
    using new that by (cases dir) (auto simp: source_table_def rs_pending_def scan_exact_def)
qed

lemma memtable_no_bytes: "memtable_ok m \<Longrightarrow> mt_estimated_bytes m = 0 \<Longrightarrow> mt_entries m = []"
  using entries_bytes_zero [of "mt_entries m"] by (auto simp: memtable_ok_def)

text \<open>The deltas a scan takes.\<close>

lemma scan_deltas:
  fixes s
  assumes t: "tree_ok t"
  defines "ds \<equiv> ss_deltas (scan_source_snapshot t s)"
  shows "\<forall>d\<in>set ds. delta_ok d" "chain_records ds = shards_records (delta_shards t)"
    "chain_tombstones ds = shards_tombstones (delta_shards t)"
proof -
  have ok: "shards_ok (delta_shards t)" and mirror: "delta_mirror_sequence t \<noteq> 0 \<longrightarrow>
      shards_records (delta_shards t) = {} \<and> shards_tombstones (delta_shards t) = {}"
    using t unfolding tree_ok_def by blast+
  have "\<forall>st\<in>set (delta_shards t). \<forall>d\<in>set (shard_snapshot st). delta_ok d"
    using ok shard_chain(1) [OF ok] unfolding shards_ok_def by (metis in_set_conv_nth)
  then show "\<forall>d\<in>set ds. delta_ok d" by (auto simp: ds_def scan_source_snapshot_def snapshot_all_def)
  show "chain_records ds = shards_records (delta_shards t)" "chain_tombstones ds = shards_tombstones (delta_shards t)"
    using mirror by (auto simp: ds_def scan_source_snapshot_def snapshot_all_def delta_mirror_covers_def
        chain_records_def chain_tombstones_def shards_records_def shards_tombstones_def)
qed

lemma scan_snapshot_parts:
  assumes "tree_ok t"
  shows "ss_active_memtable (scan_source_snapshot t s) = active_memtable t"
    "ss_active_range_tombstones (scan_source_snapshot t s) = active_range_tombstones t"
    "ss_immutable_memtables (scan_source_snapshot t s) = immutable_memtables t"
  using tree_snapshot_parts [OF assms]
  by (simp_all add: scan_source_snapshot_def point_read_snapshot_with_deltas_def)

lemma set_range_scan_tables:
  "tab \<in> set (range_scan_tables v rng) \<longleftrightarrow> tab \<in> set (table_handles v) \<and> key_bounds_overlap_range tab rng"
  by (auto simp: range_scan_tables_def tables_overlapping_range_def table_handles_def)

lemma bounds_overlap_key:
  assumes "key_bounds_may_contain_key tab k" "key_is_in_range k rng"
  shows "key_bounds_overlap_range tab rng"
  using assms before_start_mono after_end_mono
  by (auto simp: key_bounds_may_contain_key_def key_bounds_overlap_range_def key_is_in_range_def split: if_splits)

text \<open>The tombstones of a scan are the tree's, and all that cover a selected key are among them.\<close>

lemma scan_tombstones:
  fixes s sel
  assumes t: "tree_ok t"
  defines "ts \<equiv> scan_range_tombstones (scan_source_snapshot t s) (current_version t) sel"
  shows "set ts \<subseteq> tree_tombstones t"
    "x \<in> tree_tombstones t \<Longrightarrow> selects sel k \<Longrightarrow> key_is_in_range k (rt_range x) \<Longrightarrow> x \<in> set ts"
proof -
  let ?q = "selector_query_range sel" and ?v = "current_version t"
  let ?M = "shards_tombstones (delta_shards t) \<union> memory_tombstones t"
  have wf: "table_wf tab" if "tab \<in> set (table_handles ?v)" for tab using t that unfolding tree_ok_def by blast
  have mem: "set (overlapping_range rt_range (scan_memtable_range_tombstones (scan_source_snapshot t s)) ?q) =
      {x \<in> ?M. ranges_overlap ?q (rt_range x)}"
    unfolding scan_memtable_range_tombstones_def rti.set_overlapping scan_snapshot_parts [OF t]
      scan_deltas(3) [OF t, of s, symmetric] chain_tombstones_def memory_tombstones_def by auto
  have set_ts: "set ts = {x \<in> ?M. ranges_overlap ?q (rt_range x)} \<union>
      (\<Union>tab\<in>set (range_scan_tables ?v ?q). set (range_tombstones_overlapping_range tab ?q))"
    by (simp add: ts_def scan_range_tombstones_def Let_def rti_new_def mem)
  have tab: "set (range_tombstones_overlapping_range tab ?q) = {x \<in> set (tbl_range_tombstones tab). ranges_overlap ?q (rt_range x)}"
    if "tab \<in> set (table_handles ?v)" for tab
    by (rule table_covering_set(2) [OF wf [OF that]])
  show "set ts \<subseteq> tree_tombstones t"
    unfolding set_ts tree_tombstones_def version_tombstones_def using tab set_range_scan_tables by blast
  show "x \<in> set ts" if x: "x \<in> tree_tombstones t" "selects sel k" "key_is_in_range k (rt_range x)"
  proof -
    have q: "key_is_in_range k ?q" using x(2) by (simp add: selects_def)
    have over: "ranges_overlap ?q (rt_range x)" by (rule common_key_ranges_overlap [OF q x(3)])
    show ?thesis
    proof (cases "x \<in> ?M")
      case False
      then obtain tb where tb: "tb \<in> set (table_handles ?v)" "x \<in> set (tbl_range_tombstones tb)"
        using x(1) by (auto simp: tree_tombstones_def version_tombstones_def)
      then have "key_bounds_may_contain_key tb k" using wf [OF tb(1)] x(3) unfolding table_wf_def by blast
      then have "tb \<in> set (range_scan_tables ?v ?q)"
        using bounds_overlap_key [OF _ q] tb(1) by (simp add: set_range_scan_tables)
      then show ?thesis unfolding set_ts using tab [OF tb(1)] tb(2) over by blast
    qed (use over set_ts in blast)
  qed
qed

section \<open>Leaving out hidden tables\<close>

text \<open>Records that a newer visible tombstone hides may be left out of a read.\<close>

definition surely_hidden :: "range_tombstone set \<Rightarrow> sequence \<Rightarrow> point_record \<Rightarrow> bool" where
  "surely_hidden T s r \<longleftrightarrow>
     (\<exists>x\<in>T. rt_sequence x \<le> s \<and> key_is_in_range (user_key (fst r)) (rt_range x) \<and> ik_sequence (fst r) < rt_sequence x)"

lemma surely_hidden_older:
  assumes "surely_hidden T s h" "user_key (fst e) = user_key (fst h)" "fst h \<le> fst e"
  shows "hidden_by T (fst e) s"
proof -
  have "ik_sequence (fst e) \<le> ik_sequence (fst h)"
    using newer_sequence_first [of "fst e" "fst h"] assms(2,3) by (metis antisym less_imp_le not_le order.refl)
  then show ?thesis
    using assms(1,2) by (auto simp: surely_hidden_def hidden_by_def covers_visible_point_iff intro!: bexI)
qed

lemma finite_newest:
  assumes "finite S" "S \<noteq> {}"
  shows "\<exists>e. newest_of (Some e) S"
  using ex_min_if_finite [of "fst ` S"] assms by (fastforce simp: not_less)

lemma mvcc_read_hidden:
  assumes read: "mvcc_read rb A T k s r" and fin: "finite B"
    and sub: "visible_records k s A \<subseteq> visible_records k s B"
    and hid: "\<And>h. h \<in> visible_records k s B \<Longrightarrow> h \<notin> A \<Longrightarrow> surely_hidden T s h"
  shows "mvcc_read rb B T k s r"
proof -
  let ?A = "visible_records k s A" and ?B = "visible_records k s B"
  obtain c where c: "newest_of c ?A" "r = mvcc_result rb T s c" using read by (auto simp: mvcc_read_def)
  show ?thesis
  proof (cases "newest_of c ?B")
    case True
    then show ?thesis using c(2) by (rule mvcc_readI)
  next
    case False
    have "?B \<noteq> {}" using False c(1) sub by (cases c) auto
    moreover have "finite ?B" using fin by (rule finite_subset [rotated]) (auto simp: record_simps)
    ultimately obtain h where h: "newest_of (Some h) ?B" using finite_newest by blast
    have hB: "h \<in> ?B" "user_key (fst h) = k" using h by (simp_all add: record_simps)
    have "h \<notin> A"
    proof
      assume "h \<in> A"
      then have "h \<in> ?A" using hB by (simp add: record_simps)
      then obtain e where e: "c = Some e" "e \<in> ?A" "fst e \<le> fst h" using c(1) by (cases c) auto
      then show False using False h sub by (auto intro: order_trans)
    qed
    then have hidden: "surely_hidden T s h" using hid hB(1) by blast
    then have "mvcc_result rb T s (Some h) = Inr None"
      using surely_hidden_older [OF hidden refl order.refl] by (cases h) (simp add: mvcc_result_def)
    moreover have "mvcc_result rb T s c = Inr None"
    proof (cases c)
      case (Some e)
      then have "e \<in> ?A" using c(1) by simp
      then have "fst h \<le> fst e" "user_key (fst e) = k" using h sub by (auto simp: record_simps)
      then show ?thesis
        using surely_hidden_older [OF hidden, of e] hB(2) Some by (cases e) (simp add: mvcc_result_def)
    qed (simp add: mvcc_result_def)
    ultimately show ?thesis using mvcc_readI [OF h, of r rb T] c(2) by simp
  qed
qed

lemma mvcc_read_tombstones:
  assumes "mvcc_read rb R T k s r" "\<And>ik. user_key ik = k \<Longrightarrow> hidden_by T ik s \<longleftrightarrow> hidden_by T' ik s"
  shows "mvcc_read rb R T' k s r"
proof -
  obtain c where c: "newest_of c (visible_records k s R)" "r = mvcc_result rb T s c"
    using assms(1) by (auto simp: mvcc_read_def)
  have "mvcc_result rb T s c = mvcc_result rb T' s c"
  proof (cases c)
    case (Some e)
    then have "user_key (fst e) = k" using c(1) by (simp add: record_simps)
    then show ?thesis using assms(2) Some by (cases e) (simp add: mvcc_result_def)
  qed (simp add: mvcc_result_def)
  then show ?thesis using mvcc_readI [OF c(1)] c(2) by metis
qed

section \<open>Scans of a tree\<close>

definition scan_set :: "lsm_tree \<Rightarrow> scan_selector \<Rightarrow> sequence \<Rightarrow> point_record set" where
  "scan_set t sel s =
     {r \<in> shards_records (delta_shards t) \<union> memory_records t. selects sel (user_key (fst r))} \<union>
     (\<Union>tab\<in>{tab \<in> set (range_scan_tables (current_version t) (selector_query_range sel)).
         scan_table (bo_prefix_extractor (tree_options t)) sel s
           (scan_range_tombstones (scan_source_snapshot t s) (current_version t) sel) tab}.
        {r \<in> set (table_records tab). selects sel (user_key (fst r))})"

lemma tree_scan_sources:
  assumes t: "tree_ok t" and inv: "\<not> bounds_inverted (kr_start (selector_query_range sel)) (kr_end (selector_query_range sel))"
  shows "\<forall>src\<in>set (sc_sources (tree_scan t sel dir s)). rs_ok src \<and> rs_direction src = dir"
    "\<forall>tab\<in>set (table_handles (current_version t)). scan_exact dir sel tab \<Longrightarrow>
     (\<Union>src\<in>set (sc_sources (tree_scan t sel dir s)). groups_records (rs_pending src)) = scan_set t sel s"
proof -
  let ?v = "current_version t" and ?snap = "scan_source_snapshot t s"
  let ?ts = "scan_range_tombstones ?snap ?v sel"
  let ?T = "filter (scan_table (bo_prefix_extractor (tree_options t)) sel s ?ts) (range_scan_tables ?v (selector_query_range sel))"
  let ?D = "filter (\<lambda>d. \<not> (d_estimated_bytes d = 0 \<or> mt_estimated_bytes (d_memtable d) = 0)) (ss_deltas ?snap)"
  let ?m = "\<lambda>m. source_memtable m sel dir"
  let ?tab = "\<lambda>tab. source_table (point_cursor tab sel (bo_prefix_extractor (tree_options t)) dir
      (bo_index_search_policy (tree_options t)))"
  have src: "sc_sources (tree_scan t sel dir s) = map (\<lambda>d. ?m (d_memtable d)) ?D @ [?m (active_memtable t)] @
      map (\<lambda>im. ?m (im_memtable im)) (immutable_memtables t) @ map ?tab ?T"
    by (simp add: tree_scan_def scan_sources_def Let_def scan_snapshot_parts [OF t])
  have tabs: "table_ok tab" if "tab \<in> set ?T" for tab
    using that t by (auto simp: set_range_scan_tables tree_ok_def table_wf_def)
  have mems: "memtable_ok (active_memtable t)" "\<forall>im\<in>set (immutable_memtables t). memtable_ok (im_memtable im)"
    "\<forall>d\<in>set (ss_deltas ?snap). delta_ok d"
    using t scan_deltas(1) [OF t] unfolding tree_ok_def by blast+
  then show "\<forall>src\<in>set (sc_sources (tree_scan t sel dir s)). rs_ok src \<and> rs_direction src = dir"
    unfolding src using source_memtable_ok(1) [OF _ inv] source_table_ok(1) [OF tabs] by (auto simp: delta_ok_def)
  assume exact: "\<forall>tab\<in>set (table_handles ?v). scan_exact dir sel tab"
  let ?sel = "\<lambda>R. {r \<in> R. selects sel (user_key (fst r))}"
  have "(\<Union>d\<in>set ?D. ?sel (delta_records d)) = ?sel (chain_records (ss_deltas ?snap))"
    using mems(3) memtable_no_bytes by (fastforce simp: chain_records_def delta_ok_def)
  then have deltas: "(\<Union>d\<in>set ?D. groups_records (rs_pending (?m (d_memtable d)))) = ?sel (shards_records (delta_shards t))"
    using mems(3) source_memtable_ok(2) [OF _ inv, of _ dir] by (simp add: scan_deltas(2) [OF t] delta_ok_def)
  have im: "(\<Union>im\<in>set (immutable_memtables t). groups_records (rs_pending (?m (im_memtable im)))) =
      (\<Union>im\<in>set (immutable_memtables t). ?sel (set (mt_entries (im_memtable im))))"
    using mems(2) source_memtable_ok(2) [OF _ inv, of _ dir] by simp
  have tables: "(\<Union>tab\<in>set ?T. groups_records (rs_pending (?tab tab))) = (\<Union>tab\<in>set ?T. ?sel (set (table_records tab)))"
    using source_table_ok(2) [OF tabs] exact by (simp add: set_range_scan_tables)
  show "(\<Union>src\<in>set (sc_sources (tree_scan t sel dir s)). groups_records (rs_pending src)) = scan_set t sel s"
    unfolding src scan_set_def set_append set_map UN_Un UN_simps(10) deltas im tables memory_records_def
    using source_memtable_ok(2) [OF mems(1) inv, of dir] by auto
qed

lemma table_prefix_filter_hit:
  assumes "\<not> prefix_filter_misses (tbl_prefix_filter tab) k" "Table_Meta.starts_with k p"
  shows "table_may_contain_prefix tab p extractor"
proof (rule ccontr)
  assume "\<not> table_may_contain_prefix tab p extractor"
  then obtain f q where f: "tbl_prefix_filter tab = Some f" "pf_extractor f = extractor"
    "query_filter_prefix extractor p = Some q" "\<not> may_contain_prefix f q"
    by (auto simp: table_may_contain_prefix_def table_prefix_filter_result_def filter_prefix_result_def
        bind_eq_Some_conv split: option.splits if_splits)
  obtain rest where "k = p @ rest" using assms(2) unfolding Table_Meta.starts_with_def by (metis append_take_drop_id)
  then show False
    using f query_filter_prefix_extract [OF f(3), of rest] assms(1) by (simp add: prefix_filter_misses_def)
qed

lemma scan_set_hidden:
  assumes t: "tree_ok t" and k: "selects sel k"
  shows "visible_records k s (scan_set t sel s) \<subseteq> visible_records k s (tree_records t)"
    "h \<in> visible_records k s (tree_records t) \<Longrightarrow> h \<notin> scan_set t sel s \<Longrightarrow> surely_hidden (tree_tombstones t) s h"
proof -
  let ?v = "current_version t" and ?q = "selector_query_range sel"
  let ?ts = "scan_range_tombstones (scan_source_snapshot t s) ?v sel"
  show "visible_records k s (scan_set t sel s) \<subseteq> visible_records k s (tree_records t)"
    by (rule visible_records_mono)
      (auto simp: scan_set_def tree_records_def version_records_def set_range_scan_tables)
  assume h: "h \<in> visible_records k s (tree_records t)" "h \<notin> scan_set t sel s"
  then have hk: "user_key (fst h) = k" "h \<in> tree_records t" by (simp_all add: record_simps)
  then obtain tab where tab: "tab \<in> set (table_handles ?v)" "h \<in> set (table_records tab)"
    using h(2) k by (auto simp: scan_set_def tree_records_def version_records_def)
  have "table_wf tab" using t tab(1) unfolding tree_ok_def by blast
  then have wf: "table_may_contain_key tab k" "\<not> prefix_filter_misses (tbl_prefix_filter tab) k"
    "ik_sequence (fst h) \<le> largest_sequence (properties tab)"
    using tab(2) hk(1) unfolding table_wf_def by blast+
  have "tab \<in> set (range_scan_tables ?v ?q)"
    using bounds_overlap_key [OF table_may_contain_bounds [OF wf(1)]] k tab(1)
    by (simp add: set_range_scan_tables selects_def)
  then have "\<not> scan_table (bo_prefix_extractor (tree_options t)) sel s ?ts tab"
    using h(2) hk(1) k tab(2) by (auto simp: scan_set_def)
  moreover have "table_may_contain_prefix tab p (bo_prefix_extractor (tree_options t))" if "sel = PrefixSelector p" for p
    using table_prefix_filter_hit [OF wf(2)] k that by (simp add: selects_prefix)
  ultimately obtain x where x: "x \<in> set ?ts" "rt_sequence x \<le> s" "largest_sequence (properties tab) < rt_sequence x"
    "key_is_in_range (smallest_user_key (properties tab)) (rt_range x)"
    "key_is_in_range (largest_user_key (properties tab)) (rt_range x)"
    by (auto simp: scan_table_def list_ex_iff fully_hides_table_def split: scan_selector.splits)
  have "data_block_count tab \<noteq> 0"
    using tab(2) \<open>table_wf tab\<close> by (auto simp: table_wf_def table_ok_def table_records_def)
  then have "smallest_user_key (properties tab) \<le> k" "k \<le> largest_user_key (properties tab)"
    using table_may_contain_bounds [OF wf(1)] by (simp_all add: key_bounds_may_contain_key_def has_key_bounds_def)
  then have "key_is_in_range k (rt_range x)"
    using x(4,5) before_start_mono after_end_mono unfolding key_is_in_range_def by blast
  then show "surely_hidden (tree_tombstones t) s h"
    using x(1-3) wf(3) hk(1) scan_tombstones(1) [OF t, of s sel] unfolding surely_hidden_def by (metis le_less_trans subsetD)
qed

lemma finite_tree_records: "finite (tree_records t)"
  by (auto simp: tree_records_def shards_records_def chain_records_def memory_records_def version_records_def)

section \<open>Properties\<close>

text \<open>C2: A scan of a tree ends and returns exactly the rows of the reference semantics: each selected key that
  has a visible version at the read sequence which is neither a deletion nor hidden by a newer visible range
  tombstone, once, in the direction of the scan, with the value of that version; for every other selected key
  a read finds nothing. Leaving out tables by key bounds, by prefix filter or because a tombstone hides them,
  and merging all sources through the heap, change nothing. This holds for scans in reverse direction; a
  forward scan needs in addition that no inner restart point of a table block is a version of the key at its
  start. The bounds must not be inverted and the values must be readable.\<close>
theorem tree_scan_refines:
  assumes "tree_ok t"
    and "\<not> bounds_inverted (kr_start (selector_query_range sel)) (kr_end (selector_query_range sel))"
    and "\<forall>tab\<in>set (table_handles (current_version t)). scan_exact dir sel tab"
    and "readable (if has_db_path then Some read_blob else None) (tree_records t)"
  shows "\<exists>rows. scan_rows read_blob (scan_at_state_sequence t has_db_path sel s dir) = Some (Ok rows) \<and>
    sorted_wrt (key_before dir) (map fst rows) \<and> (\<forall>row\<in>set rows. selects sel (fst row)) \<and>
    (\<forall>k. selects sel k \<longrightarrow> mvcc_read (if has_db_path then Some read_blob else None)
       (tree_records t) (tree_tombstones t) k s (Ok (map_of rows k)))"
proof -
  let ?rb = "if has_db_path then Some read_blob else None" and ?R = "scan_set t sel s"
  let ?ts = "scan_range_tombstones (scan_source_snapshot t s) (current_version t) sel"
  note src = tree_scan_sources(1) [OF assms(1,2), of dir s] tree_scan_sources(2) [OF assms(1-3), of s]
  have sub: "?R \<subseteq> tree_records t"
    by (auto simp: scan_set_def tree_records_def version_records_def set_range_scan_tables)
  then have "readable ?rb ?R" using assms(4) by (auto simp: readable_def)
  from scan_rows_from_sources [OF src(1) src(2) [symmetric] this, of s ?ts] obtain rows where
    rows: "scan_rows read_blob (scan_at_state_sequence t has_db_path sel s dir) = Some (Inr rows)"
      "sorted_wrt (key_before dir) (map fst rows)" "fst ` set rows \<subseteq> (\<lambda>r. user_key (fst r)) ` ?R"
      "\<forall>k. mvcc_read ?rb ?R (set ?ts) k s (Inr (map_of rows k))"
    by (auto simp: scan_at_state_sequence_def tree_scan_def Let_def)
  have "selects sel (fst row)" if "row \<in> set rows" for row
    using rows(3) that by (force simp: scan_set_def)
  moreover have "mvcc_read ?rb (tree_records t) (tree_tombstones t) k s (Inr (map_of rows k))" if k: "selects sel k" for k
  proof (rule mvcc_read_hidden [OF _ finite_tree_records scan_set_hidden [OF assms(1) k]])
    have "hidden_by (set ?ts) ik s \<longleftrightarrow> hidden_by (tree_tombstones t) ik s" if "user_key ik = k" for ik
      using scan_tombstones [OF assms(1), where s = s and sel = sel] k that
      unfolding hidden_by_def covers_visible_point_iff by blast
    then show "mvcc_read ?rb ?R (tree_tombstones t) k s (Inr (map_of rows k))"
      using mvcc_read_tombstones rows(4) by blast
  qed
  ultimately show ?thesis using rows(1,2) by blast
qed

theorem tree_scan_refines_witness:
  "\<exists>rows. scan_rows (\<lambda>_ _. Err (Corruption []))
      (scan_at_state_sequence (apply_operation sample_tree (OpPut [] [1] [9]) 5 0) False (RangeSelector key_range_all) 7 Reverse) =
      Some (Ok rows) \<and> map_of rows [1] = Some [9] \<and> map_of rows [2] = None"
proof -
  let ?t = "apply_operation sample_tree (OpPut [] [1] [9]) 5 0"
  have t: "tree_ok ?t" "tree_records ?t = {(InternalKey [1] 5 Put 0, Some (Inline [9]))}" "tree_tombstones ?t = {}"
    using apply_operation_ok [OF sample_tree_ok(1) _ _ sample_put_fits] by (simp_all add: sample_tree_simps sample_tree_ok)
  have r: "readable (if False then Some (\<lambda>_ _. Err (Corruption [])) else None) (tree_records ?t)"
    by (simp add: readable_def t(2) point_value_def ok_or_def)
  have b: "\<not> bounds_inverted (kr_start (selector_query_range (RangeSelector key_range_all)))
      (kr_end (selector_query_range (RangeSelector key_range_all)))"
    by (simp add: key_range_all_def)
  have sel: "selects (RangeSelector key_range_all) k" for k by (simp add: selects_def)
  from tree_scan_refines [OF t(1) b _ r, of Reverse 7] obtain rows where
    rows: "scan_rows (\<lambda>_ _. Inl (Corruption [])) (scan_at_state_sequence ?t False (RangeSelector key_range_all) 7 Reverse) =
      Some (Inr rows)"
    "\<forall>k. mvcc_read None (tree_records ?t) (tree_tombstones ?t) k 7 (Inr (map_of rows k))"
    by (auto simp: scan_exact_def sel)
  have "visible_records [1] 7 (tree_records ?t) = {(InternalKey [1] 5 Put 0, Some (Inline [9]))}"
    "visible_records [2] 7 (tree_records ?t) = {}"
    by (auto simp: t(2) record_simps word_le_nat_alt)
  then have "map_of rows [1] = Some [9]" "map_of rows [2] = None"
    using rows(2) [THEN spec, of "[1]"] rows(2) [THEN spec, of "[2]"]
    by (auto simp: mvcc_read_def newest_of_def mvcc_result_def hidden_by_def t(3) point_value_def ok_or_def
        split: option.splits)
  then show ?thesis using rows(1) by blast
qed

text \<open>C13: A scan of a tree always ends, in either direction and whatever its values and tombstones are: asking
  for rows until there is none left, each call merging groups until it finds a visible row, needs finitely
  many rounds. The result may be an error, such as a value that cannot be read.\<close>
theorem tree_scan_terminates:
  assumes "tree_ok t"
    and "\<not> bounds_inverted (kr_start (selector_query_range sel)) (kr_end (selector_query_range sel))"
  shows "\<exists>r. scan_rows read_blob (scan_at_state_sequence t has_db_path sel s dir) = Some r"
  using scan_rows_from_sources_returns [OF tree_scan_sources(1) [OF assms]]
  by (simp add: scan_at_state_sequence_def Let_def)

theorem tree_scan_terminates_witness:
  "\<exists>r. scan_rows (\<lambda>_ _. Err (Corruption []))
     (prefix_at_state_sequence (apply_operation sample_tree (OpPut [] [1] [9]) 5 0) False [1] 7 Forward) = Some r"
proof -
  have "tree_ok (apply_operation sample_tree (OpPut [] [1] [9]) 5 0)"
    using apply_operation_ok [OF sample_tree_ok(1) _ _ sample_put_fits] by (simp add: sample_tree_simps sample_tree_ok)
  moreover have "\<not> bounds_inverted (kr_start (selector_query_range (PrefixSelector [1])))
      (kr_end (selector_query_range (PrefixSelector [1])))" by code_simp
  ultimately show ?thesis unfolding prefix_at_state_sequence_def by (rule tree_scan_terminates)
qed

text \<open>C39: A range scan whose start lies behind its end is not rejected: when the bucket holds a record in its
  active memtable, the first row the caller asks for panics in the range query of the map.\<close>
theorem inverted_range_scan_panics:
  assumes "bounds_inverted (kr_start rng) (kr_end rng)" "mt_entries (active_memtable t) \<noteq> []"
    and "ss_deltas (scan_source_snapshot t s) = []"
  shows "next_lazy (range_at_state_sequence t has_db_path rng s dir) =
    Some (Err (Panicked ''range start is greater than range end in BTreeMap''))"
proof -
  let ?s = "range_at_state_sequence t has_db_path rng s dir"
  let ?e = "Panicked ''range start is greater than range end in BTreeMap''"
  obtain rest where src: "ls_sources ?s = source_memtable (active_memtable t) (RangeSelector rng) dir # rest"
    using assms(3) by (simp add: range_at_state_sequence_def scan_at_state_sequence_def tree_scan_def scan_sources_def
        from_sources_def Let_def scan_source_snapshot_def)
  have "memtable_next_group (memtable_cursor_new (active_memtable t) (RangeSelector rng) dir) = Inl ?e"
    using assms(1,2) memtable_bounds_inverted [of "kr_start rng" "kr_end rng"]
    by (cases dir) (simp_all add: memtable_next_group_def memtable_next_group_forward_def memtable_next_group_reverse_def
        memtable_cursor_new_def btree_range_def)
  then have "current_key (ls_sources ?s ! 0) = Inl ?e"
    by (simp add: src current_key_def ensure_current_def source_memtable_def)
  then have "push_source_heap_entry 0 ?s = Inl ?e" by (simp add: push_source_heap_entry_def)
  then have "initialize_source_heap ?s = Inl ?e"
    by (simp add: initialize_source_heap_def src upt_rec [of 0])
  moreover have "\<not> ls_source_heap_initialized ?s"
    by (simp add: range_at_state_sequence_def scan_at_state_sequence_def from_sources_def Let_def)
  ultimately show ?thesis by (simp add: next_lazy_def)
qed

theorem inverted_range_scan_panics_witness:
  "next_lazy (range_at_state_sequence (apply_operation sample_tree (OpPut [] [1] [9]) 5 0) False
      \<lparr>kr_start = Included [2], kr_end = Excluded [1]\<rparr> 7 Forward) =
    Some (Err (Panicked ''range start is greater than range end in BTreeMap''))"
proof (rule inverted_range_scan_panics)
  show "bounds_inverted (kr_start \<lparr>kr_start = Included [2], kr_end = Excluded [1 :: byte]\<rparr>)
      (kr_end \<lparr>kr_start = Included [2], kr_end = Excluded [1 :: byte]\<rparr>)" by code_simp
  show "mt_entries (active_memtable (apply_operation sample_tree (OpPut [] [1] [9]) 5 0)) \<noteq> []"
    by (simp add: apply_operation_def mark_delta_mirror_sequence_def memtable_insert_def Let_def
        sample_tree_simps memtable_default_def)
  show "ss_deltas (scan_source_snapshot (apply_operation sample_tree (OpPut [] [1] [9]) 5 0) 7) = []"
    by (simp add: scan_source_snapshot_def apply_operation_def mark_delta_mirror_sequence_def sample_tree_def snapshot_all_def
        delta_shard_set_new_def delta_shard_default_def shard_snapshot_def delta_epoch_default_def)
qed

end
