(* ===== verification/Spec2Isabelle.thy ===== *)
theory Spec2Isabelle
  imports Codec Keys Range_Tombstones Search Bloom_Filter Write_Batch Wal_Recovery Commit_Tracker
    Memtable Data_Block Table_Build Lsm_Version Lsm_Conflict Compaction_Plan Lsm_Scan
begin

text \<open>
  Verification of trine-kv, an embedded multi-version key-value store on a log-structured merge tree.
  The sources are the Rust files under \<^verbatim>\<open>src/src\<close>; file names below are relative to it.

  \<^bold>\<open>The program.\<close> A write batch is checked, gets a sequence number, is appended to the write-ahead log
  and is applied to one tree per bucket: to the active memtable or, in a database without storage, to
  in-memory deltas. When every commit below a sequence has finished, the commit tracker makes it visible.
  A full memtable is frozen, written as a table of level zero and replaced by it; the compaction picker
  decides which tables are merged into the next level. A read takes a sequence, looks into deltas,
  memtables and tables for the newest visible version of a key and asks all range tombstones whether they
  hide it; a scan merges the same sources in key order. A transaction finally asks whether a key or range
  it read was modified after its read sequence.

  \<^bold>\<open>Conventions.\<close> A struct is a record, an enum a datatype, a method a function that takes and returns the
  state. Integers keep their width as words, \<^verbatim>\<open>usize\<close> is a natural number with its bound where the code
  checks it, byte strings are lists of 8-bit words in lexicographic order. \<^verbatim>\<open>Result\<close> is a sum with the
  error on the left; of an error only its variant and literal message are kept. A panic is the error
  \<open>Panicked\<close>. Loops that end on every input are total functions with a termination proof; the two loops
  of a scan are \<open>partial_function (option)\<close>, with \<open>None\<close> for not returning, and are shown to return. No
  fuel is used. Lock poisoning, statistics, caches and wakers are left out, since they do not change
  results; the asynchronous twins of operations share the model of the synchronous ones.

  \<^bold>\<open>Theories.\<close>
  \<^item> \<^verbatim>\<open>Prelude\<close>: results, orderings, integer arithmetic, sorted vectors and maps of the Rust library.
  \<^item> \<^verbatim>\<open>Codec\<close> (\<^verbatim>\<open>limits.rs\<close>, \<^verbatim>\<open>checksum.rs\<close>, \<^verbatim>\<open>codec.rs\<close>): block round trip, the checksum detects every
    change of one byte.
  \<^item> \<^verbatim>\<open>Keys\<close> (\<^verbatim>\<open>types.rs\<close>, \<^verbatim>\<open>internal_key.rs\<close>, \<^verbatim>\<open>mvcc.rs\<close>, \<^verbatim>\<open>invariants.rs\<close>): internal keys are a linear order,
    newest version first, and the probe keys bracket the versions of one key.
  \<^item> \<^verbatim>\<open>Range_Tombstones\<close> (\<^verbatim>\<open>range_tombstone.rs\<close>), \<^verbatim>\<open>Search\<close> (\<^verbatim>\<open>search.rs\<close>), \<^verbatim>\<open>Bloom_Filter\<close>
    (\<^verbatim>\<open>filter.rs\<close>, \<^verbatim>\<open>prefix.rs\<close>): range algebra, index queries equal plain filters, the search policies agree,
    filters have no false negatives.
  \<^item> \<^verbatim>\<open>Write_Batch\<close>, \<^verbatim>\<open>Wal_Codec\<close>, \<^verbatim>\<open>Wal_Recovery\<close> (\<^verbatim>\<open>write_batch.rs\<close>, \<^verbatim>\<open>wal/\<close>): admission checks, log frames
    and payloads, torn tails, corruption, merge of the lanes, confirmed marker, file names.
  \<^item> \<^verbatim>\<open>Commit_Tracker\<close> (\<^verbatim>\<open>db/commit_tracker.rs\<close>): a step relation over the halves of its operations; the visible
    sequence is the end of the finished prefix under every interleaving and catches up.
  \<^item> \<^verbatim>\<open>Point_Records\<close>: the reference semantics (\<open>visible_records\<close>, \<open>newest_of\<close>, \<open>mvcc_read\<close>) and the contract
    \<open>point_source\<close> of everything that holds versions; \<^verbatim>\<open>Memtable\<close> (\<^verbatim>\<open>memtable.rs\<close>) is one.
  \<^item> \<^verbatim>\<open>Data_Block\<close>, \<^verbatim>\<open>Table_Meta\<close>, \<^verbatim>\<open>Table_Read\<close>, \<^verbatim>\<open>Table_Build\<close> (\<^verbatim>\<open>table.rs\<close>, \<^verbatim>\<open>table/\<close>): blocks, index
    partitions, filters, key bounds, the writer, single and batched lookups, range reads. The invariant
    \<open>table_wf\<close> is established by the writer when all tombstones are finite.
  \<^item> \<^verbatim>\<open>Lsm_Version\<close>, \<^verbatim>\<open>Lsm_Delta\<close>, \<^verbatim>\<open>Lsm_Tree\<close>, \<^verbatim>\<open>Lsm_Read\<close>, \<^verbatim>\<open>Lsm_Conflict\<close> (\<^verbatim>\<open>lsm/\<close>): the layout of levels, deltas
    and their merge, the tree with its invariant \<open>tree_ok\<close>, its contents \<open>tree_records\<close> and
    \<open>tree_tombstones\<close>; writes, freezing and flushing refine operations on the contents, reads refine the
    reference semantics, the conflict checks report modifications of the contents.
  \<^item> \<^verbatim>\<open>Compaction_Plan\<close> (\<^verbatim>\<open>compaction.rs\<close>): the picker; its plans are closed under overlap in the output level.
  \<^item> \<^verbatim>\<open>Scan_Source\<close>, \<^verbatim>\<open>Table_Cursor\<close>, \<^verbatim>\<open>Cursor_Contents\<close>, \<^verbatim>\<open>Scan_Merge\<close>, \<^verbatim>\<open>Lsm_Scan\<close> (\<^verbatim>\<open>iterator.rs\<close>,
    \<^verbatim>\<open>table/cursor.rs\<close>, \<^verbatim>\<open>lsm/scan.rs\<close>, \<^verbatim>\<open>db/engine/maintenance/reads.rs\<close>): the contract \<open>group_source\<close>, which the
    memtable cursor, the table cursor and their wrappers meet, the merge heap, and scans of a tree; a scan
    ends and its rows are those of the reference semantics.

  \<^bold>\<open>Interfaces.\<close> \<open>tombstone_index\<close> is interpreted on the sorted vector of tombstones; \<open>point_source\<close> on
  memtables, deltas and tables; \<open>group_source\<close> on both cursors, on their sum and on the sources of a scan.

  \<^bold>\<open>Deviations found.\<close> Three theorems state what the code does where it does not do what it means to: a
  table with records and a half-infinite tombstone hides its records from reads
  (\<^verbatim>\<open>Table_Build\<close>), a block scan from a key with many versions skips the newest ones (\<^verbatim>\<open>Data_Block\<close>), and a
  scan of an inverted range panics (\<^verbatim>\<open>Lsm_Scan\<close>). The theorems on reads, scans and conflict checks carry the
  matching conditions: \<open>table_wf\<close> excludes the first, \<open>scan_exact\<close> or the exception for the key at the lower
  bound the second, \<open>bounds_inverted\<close> the third.

  \<^bold>\<open>Parameters.\<close> The LZ4 library, the blob file read, the separation of large values into blob files and the
  encoded length of a table payload are arguments; the theorems that need something of them say what.

  \<^bold>\<open>Not modelled.\<close> The rewrite of a compaction and its installation (\<^verbatim>\<open>lsm/compact.rs\<close>): only the choice of its
  inputs is. The threads of the commit pipeline (\<^verbatim>\<open>db/commit.rs\<close>), transactions and snapshot pinning
  (\<^verbatim>\<open>transaction.rs\<close>, \<^verbatim>\<open>snapshot.rs\<close>): the pieces they call are modelled. The manifest, recovery at open and
  blob files (\<^verbatim>\<open>manifest/\<close>, \<^verbatim>\<open>recovery.rs\<close>, \<^verbatim>\<open>blob/\<close>), the byte layout of table files (\<^verbatim>\<open>block.rs\<close>,
  \<^verbatim>\<open>table/format/\<close>): a table is what its file decodes to. Branches, the content store, storage backends, object
  stores and the S3 client, platform I/O, runtime and caches (\<^verbatim>\<open>branch/\<close>, \<^verbatim>\<open>content/\<close>, \<^verbatim>\<open>storage/\<close>, \<^verbatim>\<open>substrate/\<close>,
  \<^verbatim>\<open>object_store/\<close>, \<^verbatim>\<open>s3.rs\<close>, \<^verbatim>\<open>io/\<close>, \<^verbatim>\<open>runtime.rs\<close>, \<^verbatim>\<open>cache.rs\<close>): I/O and glue around the storage engine.
\<close>

end
